(* ===== verification/Prelude.thy ===== *)
theory Prelude
  imports Complex_Main "HOL-Library.Word" "HOL-Library.Multiset" "HOL-Library.Sublist"
    "HOL-Library.List_Lexorder" "HOL-Library.Char_ord"
begin

text \<open>
  Shared vocabulary of the development: Go's byte strings and the functions of Go's standard
  library that several components call (\<open>strings\<close>, \<open>bytes\<close>, \<open>strconv\<close>), generic lemmas on lists
  and sums, and the two interfaces every component theory uses: a transition system with an
  invariant, and an encoder with its decoder.

  A Go \<open>string\<close> is a sequence of bytes. The HOL type \<open>string\<close> is a list of \<open>char\<close>, and a \<open>char\<close>
  is one byte, so \<open>length\<close> counts what Go's \<open>len\<close> counts.
\<close>

unbundle bit_operations_syntax

named_theorems go_strings \<open>unfolding rules for the modelled parts of strings, bytes and strconv\<close>
named_theorems count_simps \<open>how the ghost counters of a step relation change under an update\<close>

type_synonym byte = "8 word"
type_synonym u64 = "64 word"

section \<open>Sums as results\<close>

text \<open>\<open>Inl\<close> carries the error, \<open>Inr\<close> the value.\<close>

definition is_ok :: "'e + 'a \<Rightarrow> bool" where
  "is_ok r = (case r of Inl _ \<Rightarrow> False | Inr _ \<Rightarrow> True)"

lemma is_ok_simps [simp]: "is_ok (Inr v)" "\<not> is_ok (Inl e)"
  by (simp_all add: is_ok_def)

section \<open>Package strings\<close>

fun strings_HasPrefix :: "string \<Rightarrow> string \<Rightarrow> bool" where
  "strings_HasPrefix s [] = True"
| "strings_HasPrefix [] (p # ps) = False"
| "strings_HasPrefix (c # s) (p # ps) = (c = p \<and> strings_HasPrefix s ps)"

definition strings_TrimPrefix :: "string \<Rightarrow> string \<Rightarrow> string" where
  "strings_TrimPrefix s p = (if strings_HasPrefix s p then drop (length p) s else s)"

definition strings_HasSuffix :: "string \<Rightarrow> string \<Rightarrow> bool" where
  "strings_HasSuffix s p = strings_HasPrefix (rev s) (rev p)"

fun strings_Contains :: "string \<Rightarrow> string \<Rightarrow> bool" where
  "strings_Contains [] p = (p = [])"
| "strings_Contains (c # s) p = (strings_HasPrefix (c # s) p \<or> strings_Contains s p)"

text \<open>\<open>strings.Split\<close> with a separator of one byte: always at least one piece.\<close>

fun strings_Split :: "char \<Rightarrow> string \<Rightarrow> string list" where
  "strings_Split d [] = [[]]"
| "strings_Split d (c # s) =
     (if c = d then [] # strings_Split d s
      else (c # hd (strings_Split d s)) # tl (strings_Split d s))"

definition is_ascii :: "char \<Rightarrow> bool" where
  "is_ascii c = (of_char c < (128 :: nat))"

definition ascii_lower :: "char \<Rightarrow> char" where
  "ascii_lower c = (if 65 \<le> (of_char c :: nat) \<and> (of_char c :: nat) \<le> 90
                    then char_of ((of_char c :: nat) + 32) else c)"

text \<open>
  \<open>strings.ToLower\<close> maps the letters A to Z when the string is all ASCII; otherwise it decodes
  UTF-8 and applies Unicode's case table, which the argument \<open>ulow\<close> stands for.
\<close>

definition strings_ToLower :: "(string \<Rightarrow> string) \<Rightarrow> string \<Rightarrow> string" where
  "strings_ToLower ulow s = (if list_all is_ascii s then map ascii_lower s else ulow s)"

text \<open>
  \<open>strings.TrimSpace\<close> and \<open>bytes.TrimSpace\<close> remove Unicode white space at both ends: the six
  ASCII spaces and the UTF-8 encodings of U+0085, U+00A0, U+1680, U+2000 to U+200A, U+2028,
  U+2029, U+202F, U+205F and U+3000.
\<close>

definition ascii_spaces :: "nat list" where
  "ascii_spaces = [9, 10, 11, 12, 13, 32]"

definition space_encodings :: "string list" where
  "space_encodings =
     map (map char_of)
       (map (\<lambda>b. [b]) ascii_spaces
        @ [[0xC2, 0x85], [0xC2, 0xA0], [0xE1, 0x9A, 0x80],
           [0xE2, 0x80, 0xA8], [0xE2, 0x80, 0xA9], [0xE2, 0x80, 0xAF], [0xE2, 0x81, 0x9F],
           [0xE3, 0x80, 0x80]]
        @ map (\<lambda>k. [0xE2, 0x80, 0x80 + k]) [0..<11 :: nat])"

fun trim_front :: "string list \<Rightarrow> nat \<Rightarrow> string \<Rightarrow> string" where
  "trim_front encs 0 s = s"
| "trim_front encs (Suc n) s =
     (case find (strings_HasPrefix s) encs of
        None \<Rightarrow> s
      | Some e \<Rightarrow> trim_front encs n (drop (length e) s))"

definition strings_TrimSpace :: "string \<Rightarrow> string" where
  "strings_TrimSpace s =
     (let t = trim_front space_encodings (length s) s
      in rev (trim_front (map rev space_encodings) (length t) (rev t)))"

lemma HasPrefix_iff: "strings_HasPrefix s p \<longleftrightarrow> prefix p s"
  by (induction s p rule: strings_HasPrefix.induct) auto

lemma HasPrefix_append [simp]: "strings_HasPrefix (p @ s) p"
  by (simp add: HasPrefix_iff)

lemma HasPrefix_refl [simp]: "strings_HasPrefix s s"
  by (simp add: HasPrefix_iff)

lemma HasPrefix_take: "strings_HasPrefix s p \<longleftrightarrow> take (length p) s = p"
  by (auto simp: HasPrefix_iff prefix_def) (metis append_take_drop_id)

lemma TrimPrefix_append [simp]: "strings_TrimPrefix (p @ s) p = s"
  by (simp add: strings_TrimPrefix_def)

lemma TrimPrefix_Nil [simp]: "strings_TrimPrefix s [] = s"
  by (simp add: strings_TrimPrefix_def)

lemma HasSuffix_iff: "strings_HasSuffix s p \<longleftrightarrow> suffix p s"
  by (simp add: strings_HasSuffix_def HasPrefix_iff suffix_to_prefix)

lemma Contains_iff: "strings_Contains s p \<longleftrightarrow> (\<exists>a b. s = a @ p @ b)"
proof (induction s)
  case Nil
  then show ?case by auto
next
  case (Cons c s)
  have "(\<exists>a b. c # s = a @ p @ b) \<longleftrightarrow> prefix p (c # s) \<or> (\<exists>a b. s = a @ p @ b)"
    by (auto simp: prefix_def Cons_eq_append_conv)
  then show ?case using Cons by (simp add: HasPrefix_iff)
qed

lemma Split_not_Nil [simp]: "strings_Split d s \<noteq> []"
  by (cases s) auto

lemma Split_no_sep: "d \<notin> set s \<Longrightarrow> strings_Split d s = [s]"
  by (induction s) auto

lemma Split_pieces: "p \<in> set (strings_Split d s) \<Longrightarrow> d \<notin> set p"
proof (induction s arbitrary: p)
  case Nil
  then show ?case by simp
next
  case (Cons c s)
  have "hd (strings_Split d s) \<in> set (strings_Split d s)"
    and "set (tl (strings_Split d s)) \<subseteq> set (strings_Split d s)"
    by (simp_all add: set_mono_suffix suffix_tl)
  with Cons show ?case by (fastforce split: if_splits)
qed

lemma of_char_ascii_lower:
  "(of_char (ascii_lower c) :: nat) =
     (if 65 \<le> (of_char c :: nat) \<and> (of_char c :: nat) \<le> 90 then of_char c + 32 else of_char c)"
  by (simp add: ascii_lower_def)

lemma ascii_lower_idem [simp]: "ascii_lower (ascii_lower c) = ascii_lower c"
  by (simp add: ascii_lower_def)

lemma is_ascii_lower [simp]: "is_ascii (ascii_lower c) = is_ascii c"
  by (simp add: is_ascii_def of_char_ascii_lower)

lemma ToLower_ascii: "list_all is_ascii s \<Longrightarrow> strings_ToLower ulow s = map ascii_lower s"
  by (simp add: strings_ToLower_def)

lemma ToLower_Nil [simp]: "strings_ToLower ulow [] = []"
  by (simp add: strings_ToLower_def)

lemmas [go_strings] =
  HasPrefix_iff HasSuffix_iff Contains_iff strings_TrimPrefix_def ToLower_ascii

section \<open>Package strconv\<close>

text \<open>
  \<open>strconv.Atoi\<close> on a 64-bit platform: an optional sign and at least one decimal digit, nothing
  else, and a value in the range of \<open>int64\<close>. \<open>None\<close> stands for a non-nil error.
\<close>

definition is_digit :: "char \<Rightarrow> bool" where
  "is_digit c = (48 \<le> (of_char c :: nat) \<and> (of_char c :: nat) \<le> 57)"

definition digit_val :: "char \<Rightarrow> int" where
  "digit_val c = int (of_char c) - 48"

definition digits_val :: "string \<Rightarrow> int" where
  "digits_val s = foldl (\<lambda>n c. 10 * n + digit_val c) 0 s"

definition strconv_Atoi :: "string \<Rightarrow> int option" where
  "strconv_Atoi s =
     (let neg = (s \<noteq> [] \<and> hd s = CHR ''-'');
          body = (if s \<noteq> [] \<and> (hd s = CHR ''-'' \<or> hd s = CHR ''+'') then tl s else s);
          n = (if neg then - digits_val body else digits_val body)
      in if body \<noteq> [] \<and> list_all is_digit body \<and> - (2 ^ 63) \<le> n \<and> n < 2 ^ 63
         then Some n else None)"

definition strconv_ParseBool :: "string \<Rightarrow> bool option" where
  "strconv_ParseBool s =
     (if s \<in> set [''1'', ''t'', ''T'', ''true'', ''TRUE'', ''True''] then Some True
      else if s \<in> set [''0'', ''f'', ''F'', ''false'', ''FALSE'', ''False''] then Some False
      else None)"

lemma Atoi_range: "strconv_Atoi s = Some n \<Longrightarrow> - (2 ^ 63) \<le> n \<and> n < 2 ^ 63"
  by (auto simp: strconv_Atoi_def Let_def split: if_splits)

section \<open>Bytes and strings\<close>

definition byte_of_char :: "char \<Rightarrow> byte" where
  "byte_of_char c = word_of_nat (of_char c)"

definition char_of_byte :: "byte \<Rightarrow> char" where
  "char_of_byte b = char_of (unat b)"

lemma of_char_less_256 [simp]: "(of_char c :: nat) < 256"
  by (metis nat_of_char_less_256)

lemma unat_byte_of_char [simp]: "unat (byte_of_char c) = of_char c"
  by (simp add: byte_of_char_def unat_of_nat)

lemma char_of_byte_inverse [simp]: "byte_of_char (char_of_byte b) = b"
proof -
  have "unat b < 256" using unsigned_less [of b] by simp
  then show ?thesis
    by (simp add: byte_of_char_def char_of_byte_def)
qed

lemma byte_of_char_inverse [simp]: "char_of_byte (byte_of_char c) = c"
  by (simp add: char_of_byte_def)

lemma byte_of_char_eq_iff [simp]: "byte_of_char c = byte_of_char d \<longleftrightarrow> c = d"
  by (metis byte_of_char_inverse)

section \<open>Indexing with bounds\<close>

text \<open>
  Reads, writes and slices of a string or an array as Go makes them: \<open>None\<close> is the panic of an index or
  of a bound out of range. A loop over indices runs its body until the first panic.
\<close>

definition read_at :: "'a list \<Rightarrow> nat \<Rightarrow> 'a option" where
  "read_at xs i = (if i < length xs then Some (xs ! i) else None)"

definition write_at :: "'a list \<Rightarrow> nat \<Rightarrow> 'a \<Rightarrow> 'a list option" where
  "write_at xs i v = (if i < length xs then Some (xs[i := v]) else None)"

definition slice_at :: "'a list \<Rightarrow> nat \<Rightarrow> nat \<Rightarrow> 'a list option" where
  "slice_at xs b e = (if b \<le> e \<and> e \<le> length xs then Some (take (e - b) (drop b xs)) else None)"

fun for_each :: "('a \<Rightarrow> 's \<Rightarrow> 's option) \<Rightarrow> 'a list \<Rightarrow> 's \<Rightarrow> 's option" where
  "for_each f [] s = Some s"
| "for_each f (x # xs) s = Option.bind (f x s) (for_each f xs)"

lemma read_at_Some [simp]: "i < length xs \<Longrightarrow> read_at xs i = Some (xs ! i)"
  by (simp add: read_at_def)

lemma write_at_Some [simp]: "i < length xs \<Longrightarrow> write_at xs i v = Some (xs[i := v])"
  by (simp add: write_at_def)

lemma for_each_append: "for_each f (xs @ ys) s = Option.bind (for_each f xs s) (for_each f ys)"
  by (induction xs arbitrary: s) (auto split: Option.bind_splits)

text \<open>A loop whose invariant carries it over every index does what the fold of its body's results does.\<close>

lemma for_each_fold:
  assumes "\<And>x s. x \<in> set xs \<Longrightarrow> P s \<Longrightarrow> f x s = Some (g x s) \<and> P (g x s)" and "P s"
  shows "for_each f xs s = Some (fold g xs s) \<and> P (fold g xs s)"
  using assms by (induction xs arbitrary: s) auto

section \<open>Lists updated by index\<close>

text \<open>
  The workers of a queue are a list, and a step changes one of them. What a counter over the
  list becomes is stated without subtraction, so that it holds for numbers and for multisets.
\<close>

lemma sum_list_map_update:
  fixes f :: "'a \<Rightarrow> 'b :: cancel_comm_monoid_add"
  assumes "i < length xs"
  shows "sum_list (map f (xs[i := v])) + f (xs ! i) = sum_list (map f xs) + f v"
  using assms
proof (induction xs arbitrary: i)
  case Nil
  then show ?case by simp
next
  case (Cons x xs)
  then show ?case by (cases i) (auto simp: ac_simps)
qed

lemma add_middle:
  fixes a :: "'a :: ab_semigroup_add"
  shows "a + b = c + d \<Longrightarrow> a + (x + b) = c + (x + d)"
  by (metis add.left_commute)

lemma sum_list_map_zero:
  fixes f :: "'a \<Rightarrow> 'b :: comm_monoid_add"
  shows "(\<And>x. x \<in> set xs \<Longrightarrow> f x = 0) \<Longrightarrow> sum_list (map f xs) = 0"
  by (induction xs) auto

lemma sum_list_map_eq_zero_iff_nat:
  fixes f :: "'a \<Rightarrow> nat"
  shows "sum_list (map f xs) = 0 \<longleftrightarrow> (\<forall>x \<in> set xs. f x = 0)"
  by (induction xs) auto

section \<open>Package sort\<close>

text \<open>
  \<open>sort.Slice\<close> documents no more than this: it permutes the slice, and the result is ordered
  when \<open>lt\<close> is a strict weak order. It is not stable. Code that calls it takes the sorter as an
  argument; \<open>insertion_sort\<close> is what the library runs on slices of at most twelve elements.
\<close>

definition strict_weak_order :: "('a \<Rightarrow> 'a \<Rightarrow> bool) \<Rightarrow> bool" where
  "strict_weak_order lt \<longleftrightarrow>
     (\<forall>x. \<not> lt x x) \<and> (\<forall>x y z. lt x y \<longrightarrow> lt y z \<longrightarrow> lt x z)
     \<and> (\<forall>x y z. lt x z \<longrightarrow> lt x y \<or> lt y z)"

definition sort_slice_ok :: "(('a \<Rightarrow> 'a \<Rightarrow> bool) \<Rightarrow> 'a list \<Rightarrow> 'a list) \<Rightarrow> bool" where
  "sort_slice_ok srt \<longleftrightarrow>
     (\<forall>lt xs. mset (srt lt xs) = mset xs
        \<and> (strict_weak_order lt \<longrightarrow> sorted_wrt (\<lambda>x y. \<not> lt y x) (srt lt xs)))"

fun insert_right :: "('a \<Rightarrow> 'a \<Rightarrow> bool) \<Rightarrow> 'a \<Rightarrow> 'a list \<Rightarrow> 'a list" where
  "insert_right lt x [] = [x]"
| "insert_right lt x (y # ys) =
     (if lt x y then y # insert_right lt x ys else x # y # ys)"

definition insertion_sort :: "('a \<Rightarrow> 'a \<Rightarrow> bool) \<Rightarrow> 'a list \<Rightarrow> 'a list" where
  "insertion_sort lt xs = rev (foldl (\<lambda>acc x. insert_right lt x acc) [] xs)"

lemma mset_insert_right: "mset (insert_right lt x ys) = add_mset x (mset ys)"
  by (induction ys) auto

lemma mset_insertion_sort: "mset (insertion_sort lt xs) = mset xs"
proof -
  have "mset (foldl (\<lambda>acc x. insert_right lt x acc) ys xs) = mset ys + mset xs" for ys
    by (induction xs arbitrary: ys) (auto simp: mset_insert_right)
  then show ?thesis by (simp add: insertion_sort_def)
qed

lemma sorted_insert_right:
  assumes "strict_weak_order lt" and "sorted_wrt (\<lambda>x y. \<not> lt x y) ys"
  shows "sorted_wrt (\<lambda>x y. \<not> lt x y) (insert_right lt x ys)"
  using assms(2)
proof (induction ys)
  case Nil
  then show ?case by simp
next
  case (Cons y ys)
  have set: "set (insert_right lt x ys) = insert x (set ys)"
    by (metis mset_insert_right set_mset_add_mset_insert set_mset_mset)
  have asym: "\<not> lt y x" if "lt x y"
    using assms(1) that unfolding strict_weak_order_def by blast
  have neg: "\<not> lt x z" if "\<not> lt x y" and "\<not> lt y z" for z
    using assms(1) that unfolding strict_weak_order_def by blast
  show ?case using Cons asym neg by (auto simp: set)
qed

lemma insertion_sort_ok: "sort_slice_ok insertion_sort"
proof -
  have "sorted_wrt (\<lambda>x y. \<not> lt x y) (foldl (\<lambda>acc x. insert_right lt x acc) ys xs)"
    if "strict_weak_order lt" and "sorted_wrt (\<lambda>x y. \<not> lt x y) ys"
    for lt :: "'a \<Rightarrow> 'a \<Rightarrow> bool" and ys xs
    using that by (induction xs arbitrary: ys) (auto intro: sorted_insert_right)
  then have "sorted_wrt (\<lambda>x y. \<not> lt y x) (insertion_sort lt xs)"
    if "strict_weak_order lt" for lt :: "'a \<Rightarrow> 'a \<Rightarrow> bool" and xs
    using that by (simp add: insertion_sort_def sorted_wrt_rev)
  then show ?thesis
    by (simp add: sort_slice_ok_def mset_insertion_sort)
qed

lemma sort_slice_mset: "sort_slice_ok srt \<Longrightarrow> mset (srt lt xs) = mset xs"
  by (simp add: sort_slice_ok_def)

lemma sort_slice_set: "sort_slice_ok srt \<Longrightarrow> set (srt lt xs) = set xs"
  by (metis sort_slice_mset set_mset_mset)

lemma sort_slice_length: "sort_slice_ok srt \<Longrightarrow> length (srt lt xs) = length xs"
  by (metis sort_slice_mset size_mset)

lemma sort_slice_sorted:
  "sort_slice_ok srt \<Longrightarrow> strict_weak_order lt \<Longrightarrow>
     sorted_wrt (\<lambda>x y. \<not> lt y x) (srt lt xs)"
  by (simp add: sort_slice_ok_def)

lemma strict_weak_order_key:
  fixes f :: "'a \<Rightarrow> 'b :: linorder"
  shows "strict_weak_order (\<lambda>x y. f x < f y)" and "strict_weak_order (\<lambda>x y. f y < f x)"
  by (auto simp: strict_weak_order_def)

section \<open>Interface: a transition system with an invariant\<close>

text \<open>
  The concurrent components are step relations over a state record. This interface is what they
  share: an invariant that holds at the start and is kept by every step holds after any number
  of steps.
\<close>

locale transition_system =
  fixes init :: "'s \<Rightarrow> bool"
    and step :: "'s \<Rightarrow> 's \<Rightarrow> bool"
    and inv :: "'s \<Rightarrow> bool"
  assumes init_inv: "init s \<Longrightarrow> inv s"
    and step_inv: "inv s \<Longrightarrow> step s t \<Longrightarrow> inv t"
begin

lemma run_inv:
  assumes "step\<^sup>*\<^sup>* s t" and "inv s"
  shows "inv t"
  using assms by (induction rule: rtranclp_induct) (auto intro: step_inv)

lemma reachable_inv:
  assumes "init s" and "step\<^sup>*\<^sup>* s t"
  shows "inv t"
  using assms by (blast intro: run_inv init_inv)

end

section \<open>Interface: an encoder and its decoder\<close>

text \<open>
  The packages that print and parse one kind of value promise a round trip on the well-formed
  values; \<open>canon\<close> is the canonical spelling of an accepted input.
\<close>

locale codec =
  fixes enc :: "'a \<Rightarrow> 'b"
    and dec :: "'b \<Rightarrow> 'e + 'a"
    and wf :: "'a \<Rightarrow> bool"
  assumes dec_enc: "wf x \<Longrightarrow> dec (enc x) = Inr x"
begin

lemma enc_inj:
  assumes "wf x" and "wf y" and "enc x = enc y"
  shows "x = y"
proof -
  have "Inr x = (Inr y :: 'e + 'a)"
    using assms dec_enc by metis
  then show ?thesis by simp
qed

end

locale canonical_codec = codec +
  fixes canon :: "'b \<Rightarrow> 'b"
  assumes dec_wf: "dec b = Inr x \<Longrightarrow> wf x"
    and enc_dec: "dec b = Inr x \<Longrightarrow> enc x = canon b"
begin

lemma dec_eq_iff_canon:
  assumes "dec b = Inr x" and "dec b' = Inr x'"
  shows "x = x' \<longleftrightarrow> canon b = canon b'"
  using assms enc_dec enc_inj dec_wf by metis

lemma canon_accepted:
  assumes "dec b = Inr x"
  shows "dec (canon b) = Inr x"
  using assms enc_dec dec_enc dec_wf by metis

lemma canon_idem:
  assumes "dec b = Inr x"
  shows "canon (canon b) = canon b"
  using assms canon_accepted enc_dec by metis

end

end
