(* ===== verification/Float64.thy ===== *)
theory Float64
  imports Prelude
begin

text \<open>
  Go's \<open>float64\<close>: IEEE 754 binary64 with round to nearest, ties to even, gradual underflow and
  overflow to infinity. A finite value is the rational number it denotes. The sign of zero is not
  kept: the program never divides by a float that could be a negative zero and never prints one.
  The lemmas give what the sweeper's and the header parser's proofs need: rounding is monotone,
  exact on integers up to 2^53, and off by at most one part in 2^53.
\<close>

section \<open>Binary exponent\<close>

function ilog2 :: "rat \<Rightarrow> int" where
  "ilog2 x =
     (if x \<le> 0 then 0
      else if x < 1 then ilog2 (2 * x) - 1
      else if x < 2 then 0
      else ilog2 (x / 2) + 1)"
  by pat_completeness auto

definition ilog2_measure :: "rat \<Rightarrow> nat" where
  "ilog2_measure x = (if x < 1 then nat \<lceil>1 / x\<rceil> + 2 else nat \<lfloor>x\<rfloor>)"

lemma ilog2_measure_up:
  assumes "0 < x" and "x < 1"
  shows "ilog2_measure (2 * x) < ilog2_measure x"
proof (cases "2 * x < 1")
  case True
  have "2 \<le> 1 / x" using True assms by (simp add: field_simps)
  moreover have "1 / (2 * x) = (1 / x) / 2" by simp
  ultimately have "1 / (2 * x) + 1 \<le> 1 / x" by linarith
  then have "\<lceil>1 / (2 * x)\<rceil> < \<lceil>1 / x\<rceil>" by linarith
  moreover have "0 < 1 / (2 * x)" using assms by simp
  then have "0 < \<lceil>1 / (2 * x)\<rceil>" by simp
  ultimately show ?thesis using True assms by (simp add: ilog2_measure_def)
next
  case False
  then have "\<lfloor>2 * x\<rfloor> = 1" using assms by linarith
  with False assms show ?thesis by (simp add: ilog2_measure_def)
qed

lemma ilog2_measure_down:
  assumes "2 \<le> x"
  shows "ilog2_measure (x / 2) < ilog2_measure x"
proof -
  have "x / 2 \<le> x - 1" using assms by simp
  then have "\<lfloor>x / 2\<rfloor> \<le> \<lfloor>x\<rfloor> - 1" by linarith
  moreover have "1 \<le> \<lfloor>x / 2\<rfloor>" using assms by linarith
  ultimately show ?thesis using assms by (auto simp: ilog2_measure_def)
qed

termination ilog2
  by (relation "measure ilog2_measure") (auto intro: ilog2_measure_up ilog2_measure_down)

declare ilog2.simps [simp del]

lemma ilog2_nonpos [simp]: "x \<le> 0 \<Longrightarrow> ilog2 x = 0"
  by (simp add: ilog2.simps [of x])

lemma ilog2_bounds:
  "0 < x \<Longrightarrow> 2 powi (ilog2 x) \<le> x \<and> x < 2 powi (ilog2 x + 1)"
proof (induction x rule: ilog2.induct)
  case (1 x)
  consider "x < 1" | "1 \<le> x" "x < 2" | "2 \<le> x" by linarith
  then show ?case
  proof cases
    case 1
    with "1.IH"(1) "1.prems"
    have "2 powi (ilog2 (2 * x)) \<le> 2 * x \<and> 2 * x < 2 powi (ilog2 (2 * x) + 1)" by simp
    with 1 "1.prems" show ?thesis
      by (simp add: ilog2.simps [of x] power_int_diff power_int_add)
  next
    case 2
    with "1.prems" show ?thesis by (simp add: ilog2.simps [of x])
  next
    case 3
    with "1.IH"(2) "1.prems"
    have "2 powi (ilog2 (x / 2)) \<le> x / 2 \<and> x / 2 < 2 powi (ilog2 (x / 2) + 1)" by simp
    with 3 "1.prems" show ?thesis
      by (simp add: ilog2.simps [of x] power_int_add)
  qed
qed

lemma powi2_mono: "i \<le> j \<Longrightarrow> (2 :: rat) powi i \<le> 2 powi j"
  by (simp add: power_int_increasing)

lemma powi2_pos [simp]: "0 < (2 :: rat) powi i"
  by simp

lemma ilog2_unique:
  assumes "2 powi e \<le> x" and "x < 2 powi (e + 1)"
  shows "ilog2 x = e"
proof -
  have "0 < x" using assms(1) powi2_pos [of e] by linarith
  then have b: "2 powi (ilog2 x) \<le> x" "x < 2 powi (ilog2 x + 1)"
    using ilog2_bounds by auto
  have "\<not> ilog2 x + 1 \<le> e" using powi2_mono [of "ilog2 x + 1" e] b assms by linarith
  moreover have "\<not> e + 1 \<le> ilog2 x" using powi2_mono [of "e + 1" "ilog2 x"] b assms by linarith
  ultimately show ?thesis by linarith
qed

lemma ilog2_mono:
  assumes "0 < x" and "x \<le> y"
  shows "ilog2 x \<le> ilog2 y"
proof (rule ccontr)
  assume "\<not> ilog2 x \<le> ilog2 y"
  then have "2 powi (ilog2 y + 1) \<le> (2 :: rat) powi (ilog2 x)" by (intro powi2_mono) simp
  with ilog2_bounds [of x] ilog2_bounds [of y] assms show False by simp
qed

section \<open>Round to nearest, ties to even\<close>

definition rne :: "rat \<Rightarrow> int" where
  "rne y =
     (let n = \<lfloor>y\<rfloor>; d = y - of_int n
      in if d < 1 / 2 then n else if 1 / 2 < d then n + 1 else if even n then n else n + 1)"

lemma rne_error: "\<bar>of_int (rne y) - y\<bar> \<le> 1 / 2"
proof -
  have "0 \<le> y - of_int \<lfloor>y\<rfloor>" and "y - of_int \<lfloor>y\<rfloor> < 1" by linarith+
  then show ?thesis by (auto simp: rne_def Let_def)
qed

lemma rne_of_int [simp]: "rne (of_int n) = n"
  by (simp add: rne_def)

lemma rne_mono:
  assumes "x \<le> y"
  shows "rne x \<le> rne y"
proof -
  have "\<lfloor>x\<rfloor> \<le> \<lfloor>y\<rfloor>" using assms by (rule floor_mono)
  moreover have "rne x \<le> \<lfloor>x\<rfloor> + 1" and "\<lfloor>y\<rfloor> \<le> rne y" by (auto simp: rne_def Let_def)
  moreover have "rne x \<le> rne y" if "\<lfloor>x\<rfloor> = \<lfloor>y\<rfloor>"
    using that assms by (auto simp: rne_def Let_def)
  ultimately show ?thesis by linarith
qed

lemma rne_minus: "rne (- y) = - rne y"
proof (cases "y = of_int \<lfloor>y\<rfloor>")
  case True
  then show ?thesis by (metis of_int_minus rne_of_int)
next
  case False
  then have "\<lfloor>- y\<rfloor> = - \<lfloor>y\<rfloor> - 1" by linarith
  then show ?thesis by (auto simp: rne_def Let_def)
qed

section \<open>Rounding to 53 bits\<close>

definition ulp :: "rat \<Rightarrow> rat" where
  "ulp x = 2 powi (max (ilog2 \<bar>x\<bar>) (- 1022) - 52)"

definition fl64 :: "rat \<Rightarrow> rat" where
  "fl64 x = (if x = 0 then 0 else of_int (rne (x / ulp x)) * ulp x)"

lemma ulp_pos [simp]: "0 < ulp x"
  by (simp add: ulp_def)

lemma ulp_neq_0 [simp]: "ulp x \<noteq> 0"
  using ulp_pos [of x] by (rule less_imp_neq [symmetric])

lemma fl64_0 [simp]: "fl64 0 = 0"
  by (simp add: fl64_def)

lemma fl64_minus: "fl64 (- x) = - fl64 x"
  by (simp add: fl64_def ulp_def rne_minus)

lemma fl64_abs_error: "\<bar>fl64 x - x\<bar> \<le> ulp x / 2"
proof (cases "x = 0")
  case True
  then show ?thesis by (simp add: less_imp_le)
next
  case False
  have "fl64 x - x = (of_int (rne (x / ulp x)) - x / ulp x) * ulp x"
    using False by (simp add: fl64_def left_diff_distrib)
  then have "\<bar>fl64 x - x\<bar> = \<bar>of_int (rne (x / ulp x)) - x / ulp x\<bar> * ulp x"
    by (simp add: abs_mult less_imp_le)
  also have "\<dots> \<le> (1 / 2) * ulp x"
    by (intro mult_right_mono rne_error) (simp add: less_imp_le)
  finally show ?thesis by simp
qed

text \<open>In the normal range the error is at most one part in 2^53.\<close>

lemma fl64_rel_error:
  assumes "2 powi (- 1022) \<le> \<bar>x\<bar>"
  shows "\<bar>fl64 x - x\<bar> \<le> \<bar>x\<bar> / 2 ^ 53"
proof -
  have pos: "0 < \<bar>x\<bar>" using assms powi2_pos [of "- 1022"] by linarith
  have "- 1022 \<le> ilog2 \<bar>x\<bar>"
  proof (rule ccontr)
    assume "\<not> - 1022 \<le> ilog2 \<bar>x\<bar>"
    then have "(2 :: rat) powi (ilog2 \<bar>x\<bar> + 1) \<le> 2 powi (- 1022)" by (intro powi2_mono) simp
    with ilog2_bounds [OF pos] assms show False by simp
  qed
  then have "ulp x = 2 powi (ilog2 \<bar>x\<bar>) / 2 ^ 52"
    by (simp add: ulp_def power_int_diff)
  also have "\<dots> \<le> \<bar>x\<bar> / 2 ^ 52"
    using ilog2_bounds [OF pos] by (intro divide_right_mono) auto
  finally show ?thesis using fl64_abs_error [of x] by simp
qed

lemma fl64_nonneg: "0 \<le> x \<Longrightarrow> 0 \<le> fl64 x"
proof -
  assume "0 \<le> x"
  then have "rne 0 \<le> rne (x / ulp x)" by (intro rne_mono) (simp add: less_imp_le)
  moreover have "rne 0 = 0" using rne_of_int [of 0] by simp
  ultimately show ?thesis by (simp add: fl64_def less_imp_le)
qed

text \<open>A bound for every argument, subnormal or not.\<close>

lemma fl64_error: "\<bar>fl64 x - x\<bar> \<le> (\<bar>x\<bar> + 1) / 2 ^ 53"
proof (cases "2 powi (- 1022) \<le> \<bar>x\<bar>")
  case True
  then have "\<bar>fl64 x - x\<bar> \<le> \<bar>x\<bar> / 2 ^ 53" by (rule fl64_rel_error)
  also have "\<dots> \<le> (\<bar>x\<bar> + 1) / 2 ^ 53" by (intro divide_right_mono) auto
  finally show ?thesis .
next
  case False
  have "ilog2 \<bar>x\<bar> \<le> 0"
  proof (rule ccontr)
    assume pos: "\<not> ilog2 \<bar>x\<bar> \<le> 0"
    then have "0 < \<bar>x\<bar>" using ilog2_nonpos [of "\<bar>x\<bar>"] by (cases "x = 0") auto
    moreover have "(2 :: rat) powi (- 1022) \<le> 2 powi (ilog2 \<bar>x\<bar>)"
      using pos by (intro powi2_mono) simp
    ultimately show False using ilog2_bounds [of "\<bar>x\<bar>"] False by linarith
  qed
  then have "ulp x \<le> 2 powi (- 52)" unfolding ulp_def by (intro powi2_mono) simp
  also have "(2 :: rat) powi (- 52) = 1 / 2 ^ 52"
    by (simp only: power_int_minus power_int_numeral divide_inverse mult_1)
  finally have "ulp x \<le> 1 / 2 ^ 52" .
  then have "ulp x / 2 \<le> 1 / 2 ^ 53" by simp
  also have "\<dots> \<le> (\<bar>x\<bar> + 1) / 2 ^ 53" by (intro divide_right_mono) auto
  finally show ?thesis using fl64_abs_error [of x] by simp
qed

text \<open>A multiple of a power of two that fits 53 bits is a float of its own.\<close>

lemma fl64_exact:
  assumes x: "x = of_int m * 2 powi e" and m: "\<bar>m\<bar> \<le> 2 ^ 53" and e: "- 1074 \<le> e"
  shows "fl64 x = x"
proof (cases "x = 0")
  case True
  then show ?thesis by simp
next
  case False
  then have mpos: "0 < \<bar>x\<bar>" by simp
  let ?E = "max (ilog2 \<bar>x\<bar>) (- 1022) - 52"
  have absx: "\<bar>x\<bar> = of_int \<bar>m\<bar> * 2 powi e" using x by (simp add: abs_mult)
  have "\<exists>k :: int. x = of_int k * 2 powi ?E"
  proof (cases "?E \<le> e")
    case True
    have "(2 :: rat) powi e = 2 powi (e - ?E) * 2 powi ?E" by (simp flip: power_int_add)
    also have "(2 :: rat) powi (e - ?E) = of_int (2 ^ nat (e - ?E))"
      using True by (simp add: power_int_def)
    finally have "x = of_int (m * 2 ^ nat (e - ?E)) * 2 powi ?E"
      using x by (simp add: mult.assoc)
    then show ?thesis by blast
  next
    case False
    have le: "\<bar>x\<bar> \<le> 2 ^ 53 * 2 powi e"
      unfolding absx by (intro mult_right_mono) (use m in \<open>simp_all flip: of_int_le_iff\<close>)
    have "(2 :: rat) ^ 53 * 2 powi e = 2 powi (e + 53)"
      by (simp add: power_int_add)
    with le have top: "2 powi (ilog2 \<bar>x\<bar>) \<le> (2 :: rat) powi (e + 53)"
      using ilog2_bounds [OF mpos] by linarith
    have "ilog2 \<bar>x\<bar> \<le> e + 53"
    proof (rule ccontr)
      assume "\<not> ilog2 \<bar>x\<bar> \<le> e + 53"
      then have "(2 :: rat) powi (e + 53) < 2 powi (ilog2 \<bar>x\<bar>)"
        by (intro power_int_strict_increasing) auto
      with top show False by simp
    qed
    with False e have E: "?E = e + 1" and eq: "ilog2 \<bar>x\<bar> = e + 53" by auto
    have "2 powi (e + 53) \<le> \<bar>x\<bar>" using ilog2_bounds [OF mpos] eq by simp
    with le have "\<bar>x\<bar> = 2 ^ 53 * 2 powi e" by (simp add: power_int_add)
    then have "x = of_int (sgn m * 2 ^ 52) * 2 powi ?E"
      unfolding E using x absx by (auto simp: power_int_add abs_if sgn_if split: if_splits)
    then show ?thesis by blast
  qed
  then obtain k :: int where k: "x = of_int k * ulp x" by (auto simp: ulp_def)
  then have "x / ulp x = of_int k" using ulp_pos [of x] by (simp add: field_simps)
  then show ?thesis using k False by (simp add: fl64_def)
qed

lemma fl64_of_int: "\<bar>n\<bar> \<le> 2 ^ 53 \<Longrightarrow> fl64 (of_int n) = of_int n"
  using fl64_exact [of "of_int n" n 0] by simp

lemma fl64_mono_pos:
  assumes "0 < x" and "x \<le> y"
  shows "fl64 x \<le> fl64 y"
proof (cases "ulp x = ulp y")
  case True
  have "x / ulp y \<le> y / ulp y" using assms by (intro divide_right_mono) (simp_all add: less_imp_le)
  then have "rne (x / ulp y) \<le> rne (y / ulp y)" by (rule rne_mono)
  with True assms show ?thesis by (simp add: fl64_def less_imp_le)
next
  case False
  let ?ex = "max (ilog2 x) (- 1022)" and ?ey = "max (ilog2 y) (- 1022)"
  have "ilog2 x \<le> ilog2 y" using assms by (rule ilog2_mono)
  moreover have "?ex \<noteq> ?ey" using False assms by (auto simp: ulp_def)
  ultimately have lt: "?ex < ?ey" by linarith
  let ?b = "(2 :: rat) powi (?ex + 1)"
  have "x < 2 powi (ilog2 x + 1)" using ilog2_bounds assms by auto
  also have "\<dots> \<le> ?b" by (intro powi2_mono) simp
  finally have xb: "x \<le> ?b" by simp
  have ey: "?ey = ilog2 y" using lt by auto
  have "?b \<le> 2 powi ilog2 y" using lt ey by (intro powi2_mono) linarith
  also have "\<dots> \<le> y" using ilog2_bounds assms by auto
  finally have by': "?b \<le> y" .
  have ux: "ulp x = 2 powi (?ex - 52)" and uy: "ulp y = 2 powi (?ey - 52)"
    using assms by (simp_all add: ulp_def)
  have bx: "?b / ulp x = of_int (2 ^ 53)"
    unfolding ux by (simp flip: power_int_diff)
  have "x / ulp x \<le> of_int (2 ^ 53)"
    using xb bx by (metis divide_right_mono less_imp_le ulp_pos)
  then have "rne (x / ulp x) \<le> 2 ^ 53" using rne_mono rne_of_int by metis
  then have "fl64 x \<le> of_int (2 ^ 53) * ulp x"
    using assms by (simp add: fl64_def mult_right_mono less_imp_le flip: of_int_le_iff)
  also have "\<dots> = ?b" using bx ulp_pos [of x] by (simp add: field_simps)
  also have "?b \<le> fl64 y"
  proof -
    have "(2 :: rat) powi (ilog2 y) / ulp y = of_int (2 ^ 52)"
      unfolding uy ey by (simp flip: power_int_diff)
    moreover have "2 powi (ilog2 y) / ulp y \<le> y / ulp y"
      using ilog2_bounds [of y] assms by (intro divide_right_mono) (simp_all add: less_imp_le)
    ultimately have "2 ^ 52 \<le> rne (y / ulp y)" by (metis rne_mono rne_of_int)
    then have "of_int (2 ^ 52) * ulp y \<le> fl64 y"
      using assms by (simp add: fl64_def mult_right_mono less_imp_le flip: of_int_le_iff)
    moreover have "of_int (2 ^ 52) * ulp y = 2 powi (ilog2 y)"
      unfolding uy ey by (simp add: power_int_diff)
    ultimately show ?thesis using \<open>?b \<le> 2 powi ilog2 y\<close> by simp
  qed
  finally show ?thesis .
qed

lemma fl64_mono:
  assumes "x \<le> y"
  shows "fl64 x \<le> fl64 y"
proof -
  consider "0 < x" | "y < 0" | "x \<le> 0" "0 \<le> y" by linarith
  then show ?thesis
  proof cases
    case 1
    then show ?thesis using assms by (rule fl64_mono_pos)
  next
    case 2
    then have "fl64 (- y) \<le> fl64 (- x)" using assms by (intro fl64_mono_pos) simp_all
    then show ?thesis by (simp add: fl64_minus)
  next
    case 3
    then have "fl64 x \<le> 0" using fl64_nonneg [of "- x"] by (simp add: fl64_minus)
    moreover have "0 \<le> fl64 y" using 3 by (intro fl64_nonneg)
    ultimately show ?thesis by simp
  qed
qed

lemma fl64_pos: "0 < x \<Longrightarrow> 2 powi (- 1022) \<le> x \<Longrightarrow> 0 < fl64 x"
  using fl64_rel_error [of x] by (auto simp: abs_if split: if_splits)

section \<open>The type and its operations\<close>

datatype float64 = Fin rat | PInf | NInf | NaN

definition f64_max :: rat where
  "f64_max = 2 ^ 1024 - 2 ^ 971"

text \<open>Rounding a result: overflow gives an infinity.\<close>

definition f64 :: "rat \<Rightarrow> float64" where
  "f64 x = (let r = fl64 x in if f64_max < r then PInf else if r < - f64_max then NInf else Fin r)"

definition f64_of_int :: "int \<Rightarrow> float64" where
  "f64_of_int n = f64 (of_int n)"

fun f64_neg :: "float64 \<Rightarrow> float64" where
  "f64_neg (Fin x) = Fin (- x)"
| "f64_neg PInf = NInf"
| "f64_neg NInf = PInf"
| "f64_neg NaN = NaN"

fun f64_add :: "float64 \<Rightarrow> float64 \<Rightarrow> float64" where
  "f64_add (Fin x) (Fin y) = f64 (x + y)"
| "f64_add NaN y = NaN"
| "f64_add x NaN = NaN"
| "f64_add PInf NInf = NaN"
| "f64_add NInf PInf = NaN"
| "f64_add PInf y = PInf"
| "f64_add NInf y = NInf"
| "f64_add x y = y"

definition f64_sub :: "float64 \<Rightarrow> float64 \<Rightarrow> float64" where
  "f64_sub x y = f64_add x (f64_neg y)"

definition f64_inf :: "bool \<Rightarrow> float64" where
  "f64_inf pos = (if pos then PInf else NInf)"

fun f64_mul :: "float64 \<Rightarrow> float64 \<Rightarrow> float64" where
  "f64_mul (Fin x) (Fin y) = f64 (x * y)"
| "f64_mul NaN y = NaN"
| "f64_mul x NaN = NaN"
| "f64_mul (Fin x) y = (if x = 0 then NaN else f64_inf ((0 < x) = (y = PInf)))"
| "f64_mul x (Fin y) = (if y = 0 then NaN else f64_inf ((0 < y) = (x = PInf)))"
| "f64_mul x y = f64_inf (x = y)"

text \<open>The divisor zero is a positive zero wherever the program divides.\<close>

fun f64_div :: "float64 \<Rightarrow> float64 \<Rightarrow> float64" where
  "f64_div (Fin x) (Fin y) =
     (if y = 0 then if x = 0 then NaN else f64_inf (0 < x) else f64 (x / y))"
| "f64_div NaN y = NaN"
| "f64_div x NaN = NaN"
| "f64_div (Fin x) y = Fin 0"
| "f64_div x (Fin y) = f64_inf ((0 \<le> y) = (x = PInf))"
| "f64_div x y = NaN"

text \<open>Comparisons: every comparison with a NaN is false.\<close>

fun f64_less :: "float64 \<Rightarrow> float64 \<Rightarrow> bool" where
  "f64_less (Fin x) (Fin y) = (x < y)"
| "f64_less (Fin x) y = (y = PInf)"
| "f64_less NInf y = (y \<noteq> NInf \<and> y \<noteq> NaN)"
| "f64_less x y = False"

fun f64_le :: "float64 \<Rightarrow> float64 \<Rightarrow> bool" where
  "f64_le (Fin x) (Fin y) = (x \<le> y)"
| "f64_le NaN y = False"
| "f64_le x NaN = False"
| "f64_le x y = (x = y \<or> x = NInf \<or> y = PInf)"

text \<open>
  The conversion \<open>int64(f)\<close> truncates towards zero. Outside the range of \<open>int64\<close> (and for NaN)
  the language leaves the result to the implementation: the argument \<open>oor\<close>.
\<close>

definition trunc_rat :: "rat \<Rightarrow> int" where
  "trunc_rat x = (if 0 \<le> x then \<lfloor>x\<rfloor> else \<lceil>x\<rceil>)"

definition f64_to_int64 :: "(float64 \<Rightarrow> int) \<Rightarrow> float64 \<Rightarrow> int" where
  "f64_to_int64 oor f =
     (case f of
        Fin x \<Rightarrow> (let n = trunc_rat x in if - (2 ^ 63) \<le> n \<and> n < 2 ^ 63 then n else oor f)
      | _ \<Rightarrow> oor f)"

lemma fl64_f64_max: "fl64 (2 ^ 64) = 2 ^ 64"
  using fl64_exact [of "2 ^ 64" 1 64] by simp

lemma f64_small:
  assumes "\<bar>x\<bar> \<le> 2 ^ 64"
  shows "f64 x = Fin (fl64 x)"
proof -
  have m: "(2 :: rat) ^ 64 < f64_max" by (simp add: f64_max_def)
  have x: "x \<le> 2 ^ 64" "- (2 ^ 64) \<le> x" using assms by linarith+
  have "fl64 x \<le> 2 ^ 64" using fl64_mono [OF x(1)] by (simp only: fl64_f64_max)
  moreover have "- (2 ^ 64) \<le> fl64 x"
    using fl64_mono [OF x(2)] by (simp only: fl64_minus fl64_f64_max)
  ultimately show ?thesis using m by (simp add: f64_def Let_def)
qed

lemma f64_of_int_exact: "\<bar>n\<bar> \<le> 2 ^ 53 \<Longrightarrow> f64_of_int n = Fin (of_int n)"
proof -
  assume n: "\<bar>n\<bar> \<le> 2 ^ 53"
  then have "\<bar>of_int n :: rat\<bar> \<le> of_int (2 ^ 53)" by (simp only: of_int_le_iff flip: of_int_abs)
  then have "\<bar>of_int n :: rat\<bar> \<le> 2 ^ 64" by simp
  with n show ?thesis by (simp add: f64_of_int_def f64_small fl64_of_int)
qed

lemma f64_le_NaN [simp]: "\<not> f64_le NaN x" "\<not> f64_le x NaN"
  by (cases x; simp)+

lemma f64_less_NaN [simp]: "\<not> f64_less NaN x" "\<not> f64_less x NaN"
  by (cases x; simp)+

lemma trunc_rat_error: "\<bar>of_int (trunc_rat x) - x\<bar> \<le> 1"
  unfolding trunc_rat_def by (cases "0 \<le> x") (simp_all, linarith+)

lemma f64_to_int64_Fin:
  assumes "\<bar>x\<bar> \<le> 2 ^ 62"
  shows "f64_to_int64 oor (Fin x) = trunc_rat x"
proof -
  have "\<bar>of_int (trunc_rat x) :: rat\<bar> \<le> 2 ^ 62 + 1"
    using assms trunc_rat_error [of x] by linarith
  then have "\<bar>of_int (trunc_rat x) :: rat\<bar> < of_int (2 ^ 63)" by simp
  then have "\<bar>trunc_rat x\<bar> < 2 ^ 63" by (simp only: of_int_less_iff flip: of_int_abs)
  then show ?thesis by (auto simp: f64_to_int64_def Let_def)
qed

end
