(* ===== verification/Etcd.thy ===== *)
theory Etcd
  imports Prelude
begin

text \<open>
  The etcd client (\<open>go.etcd.io/etcd/client/v3\<close>) is not part of the repository. Both programs that
  talk to etcd take it as an argument: a record of the calls they make, each over an abstract
  world \<open>'w\<close> (the cluster, the network and the clock) with errors of an abstract type \<open>'e\<close>.
  \<open>etcd_reads\<close>, \<open>etcd_writes\<close> and \<open>etcd_deletes\<close> state documented behaviour of these calls for a
  client whose visible key space is \<open>view\<close>; a theorem that relies on one names it as a
  hypothesis.
\<close>

record kv =
  kv_Key :: string
  kv_Value :: string
  kv_CreateRevision :: int

datatype op_option =
    WithPrefix
  | WithRange string
  | WithLimit int
  | WithSortByKeyDescend
  | WithLease int

record status_response =
  DbSizeInUse :: int
  DbSizeQuota :: int
  Revision :: int

record ('w, 'e) etcd =
  et_Endpoints :: "string list"
  et_ctx_done :: "'w \<Rightarrow> bool"
  et_Get :: "'w \<Rightarrow> string \<Rightarrow> op_option list \<Rightarrow> ('e + kv list) \<times> 'w"
  et_Put :: "'w \<Rightarrow> string \<Rightarrow> string \<Rightarrow> op_option list \<Rightarrow> 'e option \<times> 'w"
  et_Delete :: "'w \<Rightarrow> string \<Rightarrow> 'e option \<times> 'w"
  et_Grant :: "'w \<Rightarrow> int \<Rightarrow> ('e + int) \<times> 'w"
  et_Status :: "'w \<Rightarrow> string \<Rightarrow> ('e + status_response) \<times> 'w"
  et_Compact :: "'w \<Rightarrow> int \<Rightarrow> 'e option \<times> 'w"
  et_MemberList :: "'w \<Rightarrow> ('e + nat) \<times> 'w"
  et_Defragment :: "'w \<Rightarrow> string \<Rightarrow> 'e option \<times> 'w"

section \<open>Documented behaviour of the key space\<close>

text \<open>
  What a range request selects: the key itself, or with \<open>WithPrefix\<close> every key that starts with
  it, or with \<open>WithRange e\<close> the keys from it up to but not including \<open>e\<close>; in key order, or
  descending when asked so; at most the limit when the limit is positive.
\<close>

definition in_range :: "op_option list \<Rightarrow> string \<Rightarrow> string \<Rightarrow> bool" where
  "in_range opts k key =
     (if WithPrefix \<in> set opts then strings_HasPrefix key k
      else case find (\<lambda>opt. case opt of WithRange _ \<Rightarrow> True | _ \<Rightarrow> False) opts of
             Some (WithRange e) \<Rightarrow> k \<le> key \<and> key < e
           | _ \<Rightarrow> key = k)"

definition limit_of :: "op_option list \<Rightarrow> int" where
  "limit_of opts =
     (case find (\<lambda>opt. case opt of WithLimit _ \<Rightarrow> True | _ \<Rightarrow> False) opts of
        Some (WithLimit n) \<Rightarrow> n
      | _ \<Rightarrow> 0)"

definition limit_take :: "int \<Rightarrow> 'a list \<Rightarrow> 'a list" where
  "limit_take n xs = (if 0 < n then take (nat n) xs else xs)"

definition range_select :: "op_option list \<Rightarrow> string \<Rightarrow> kv list \<Rightarrow> kv list" where
  "range_select opts k kvs =
     limit_take (limit_of opts)
       ((if WithSortByKeyDescend \<in> set opts then rev else id)
          (filter (\<lambda>x. in_range opts k (kv_Key x)) kvs))"

text \<open>
  The key space is a list of key-value pairs in strictly ascending key order.
\<close>

definition key_space :: "kv list \<Rightarrow> bool" where
  "key_space kvs = sorted_wrt (<) (map kv_Key kvs)"

fun kv_store :: "kv \<Rightarrow> kv list \<Rightarrow> kv list" where
  "kv_store x [] = [x]"
| "kv_store x (y # ys) =
     (if kv_Key x < kv_Key y then x # y # ys
      else if kv_Key x = kv_Key y then y\<lparr>kv_Value := kv_Value x\<rparr> # ys
      else y # kv_store x ys)"

definition etcd_reads :: "('w, 'e) etcd \<Rightarrow> ('w \<Rightarrow> kv list) \<Rightarrow> bool" where
  "etcd_reads cli view \<longleftrightarrow>
     (\<forall>w k opts. view (snd (et_Get cli w k opts)) = view w)
     \<and> (\<forall>w k opts kvs. fst (et_Get cli w k opts) = Inr kvs \<longrightarrow>
          kvs = range_select opts k (view w))"

definition etcd_writes :: "('w, 'e) etcd \<Rightarrow> ('w \<Rightarrow> kv list) \<Rightarrow> bool" where
  "etcd_writes cli view \<longleftrightarrow>
     (\<forall>w n. view (snd (et_Grant cli w n)) = view w)
     \<and> (\<forall>w k v opts. fst (et_Put cli w k v opts) = None \<longrightarrow>
          (\<exists>rev. view (snd (et_Put cli w k v opts)) =
             kv_store \<lparr>kv_Key = k, kv_Value = v, kv_CreateRevision = rev\<rparr> (view w)))"

definition etcd_deletes :: "('w, 'e) etcd \<Rightarrow> ('w \<Rightarrow> kv list) \<Rightarrow> bool" where
  "etcd_deletes cli view \<longleftrightarrow>
     (\<forall>w k. fst (et_Delete cli w k) = None \<longrightarrow>
        view (snd (et_Delete cli w k)) = filter (\<lambda>x. kv_Key x \<noteq> k) (view w))"

text \<open>The maintenance calls leave the visible keys alone.\<close>

definition etcd_maintains :: "('w, 'e) etcd \<Rightarrow> ('w \<Rightarrow> kv list) \<Rightarrow> bool" where
  "etcd_maintains cli view \<longleftrightarrow>
     (\<forall>w ep. view (snd (et_Status cli w ep)) = view w)
     \<and> (\<forall>w r. view (snd (et_Compact cli w r)) = view w)
     \<and> (\<forall>w. view (snd (et_MemberList cli w)) = view w)
     \<and> (\<forall>w ep. view (snd (et_Defragment cli w ep)) = view w)"

text \<open>
  A cluster that answers: no deadline passes and the reads and deletes return no error. This is a
  condition on one run, not on etcd.
\<close>

definition etcd_answers :: "('w, 'e) etcd \<Rightarrow> bool" where
  "etcd_answers cli \<longleftrightarrow>
     (\<forall>w. \<not> et_ctx_done cli w) \<and> (\<forall>w k. fst (et_Delete cli w k) = None)
     \<and> (\<forall>w k opts. is_ok (fst (et_Get cli w k opts)))"

text \<open>
  An instance for the witnesses: one member that keeps its key space in memory and never fails.
\<close>

definition mem_etcd :: "(kv list, unit) etcd" where
  "mem_etcd =
     \<lparr>et_Endpoints = [''localhost:2379''],
      et_ctx_done = (\<lambda>w. False),
      et_Get = (\<lambda>w k opts. (Inr (range_select opts k w), w)),
      et_Put = (\<lambda>w k v opts.
        (None, kv_store \<lparr>kv_Key = k, kv_Value = v, kv_CreateRevision = int (length w) + 1\<rparr> w)),
      et_Delete = (\<lambda>w k. (None, filter (\<lambda>x. kv_Key x \<noteq> k) w)),
      et_Grant = (\<lambda>w n. (Inr 1, w)),
      et_Status = (\<lambda>w ep. (Inr \<lparr>DbSizeInUse = 0, DbSizeQuota = 1, Revision = int (length w)\<rparr>, w)),
      et_Compact = (\<lambda>w r. (None, w)),
      et_MemberList = (\<lambda>w. (Inr 1, w)),
      et_Defragment = (\<lambda>w ep. (None, w))\<rparr>"

lemma mem_etcd_ok [simp]:
  "etcd_reads mem_etcd (\<lambda>w. w)" "etcd_writes mem_etcd (\<lambda>w. w)" "etcd_deletes mem_etcd (\<lambda>w. w)"
  "etcd_maintains mem_etcd (\<lambda>w. w)" "etcd_answers mem_etcd"
  by (auto simp: mem_etcd_def etcd_reads_def etcd_writes_def etcd_deletes_def etcd_maintains_def
      etcd_answers_def)

lemma limit_take_length: "0 < n \<Longrightarrow> length (limit_take n xs) \<le> nat n"
  by (simp add: limit_take_def)

lemma set_limit_take: "set (limit_take n xs) \<subseteq> set xs"
  by (auto simp: limit_take_def dest: in_set_takeD)

lemma set_kv_store:
  "set (kv_store x ys) \<subseteq> insert x (set ys) \<union> {y\<lparr>kv_Value := kv_Value x\<rparr> | y. y \<in> set ys}"
  by (induction x ys rule: kv_store.induct) auto

lemma kv_store_keys: "set (map kv_Key (kv_store x ys)) = insert (kv_Key x) (set (map kv_Key ys))"
  by (induction x ys rule: kv_store.induct) auto

lemma key_space_kv_store:
  "key_space ys \<Longrightarrow> key_space (kv_store x ys)"
proof (induction x ys rule: kv_store.induct)
  case (2 x y ys)
  have "set (map kv_Key (kv_store x ys)) = insert (kv_Key x) (set (map kv_Key ys))"
    by (rule kv_store_keys)
  with 2 show ?case by (auto simp: key_space_def)
qed (simp add: key_space_def)

text \<open>A stored key is found with its value, and no other key changes.\<close>

definition kv_lookup :: "kv list \<Rightarrow> string \<Rightarrow> string option" where
  "kv_lookup kvs k = map_option kv_Value (find (\<lambda>x. kv_Key x = k) kvs)"

lemma kv_lookup_store:
  "key_space ys \<Longrightarrow> kv_lookup (kv_store x ys) k =
     (if k = kv_Key x then Some (kv_Value x) else kv_lookup ys k)"
proof (induction x ys rule: kv_store.induct)
  case (2 x y ys)
  have "find (\<lambda>z. kv_Key z = kv_Key x) ys = None" if "kv_Key x < kv_Key y"
    using that 2(2) by (auto simp: key_space_def find_None_iff)
  with 2 show ?case by (auto simp: kv_lookup_def key_space_def)
qed (simp add: kv_lookup_def)

lemma kv_lookup_filter:
  "kv_lookup (filter (\<lambda>x. kv_Key x \<noteq> k) ys) k' = (if k' = k then None else kv_lookup ys k')"
  by (induction ys) (auto simp: kv_lookup_def)

end
