(* ===== verification/Cleanup.thy ===== *)
theory Cleanup
  imports Float64 Etcd
begin

text \<open>
  The sweeper's cleanup manager (\<open>sweeper/internal/cleanup/manager.go\<close>): the manager's state and
  constructor, the listing and classification of keys, the batched deletion loop, compaction,
  defragmentation and the sequence \<open>RunCleanup\<close>. The etcd client is the argument \<open>cli\<close>; a function
  that calls it takes the world and returns the new one. The deletion loop is a
  \<open>partial_function\<close>: \<open>None\<close> is a loop that does not return (or a slice expression that panics),
  which a batch size of zero or less would cause, and \<open>deleteKeys_total\<close> shows that it returns for
  every manager the constructor builds.
\<close>

section \<open>State and constructor\<close>

record CleanupOptions =
  opt_Prefix :: string
  opt_DesiredRatio :: float64
  opt_BatchSize :: int
  opt_AutoCompact :: bool
  opt_AutoDefrag :: bool

record CleanupManager =
  m_prefix :: string
  m_desiredRatio :: float64
  m_batchSize :: int
  m_autoCompact :: bool
  m_autoDefrag :: bool

record kvInfo =
  ki_Key :: string
  ki_CreateRev :: int
  ki_EstimatedLen :: int

definition NewCleanupManager :: "CleanupOptions \<Rightarrow> CleanupManager" where
  "NewCleanupManager opts =
     \<lparr>m_prefix = opt_Prefix opts,
      m_desiredRatio = opt_DesiredRatio opts,
      m_batchSize = (if opt_BatchSize opts \<le> 0 then 50 else opt_BatchSize opts),
      m_autoCompact = opt_AutoCompact opts,
      m_autoDefrag = opt_AutoDefrag opts\<rparr>"

text \<open>The options \<open>main\<close> passes: the prefix is left at its zero value.\<close>

definition main_cleanup_options :: CleanupOptions where
  "main_cleanup_options =
     \<lparr>opt_Prefix = '''', opt_DesiredRatio = f64 (6 / 10), opt_BatchSize = 100,
      opt_AutoCompact = True, opt_AutoDefrag = True\<rparr>"

section \<open>Listing and classifying\<close>

definition kv_info :: "kv \<Rightarrow> kvInfo" where
  "kv_info x =
     \<lparr>ki_Key = kv_Key x, ki_CreateRev = kv_CreateRevision x,
      ki_EstimatedLen = int (length (kv_Key x) + length (kv_Value x))\<rparr>"

definition is_comp :: "string \<Rightarrow> string \<Rightarrow> bool" where
  "is_comp pre key = strings_Contains (strings_TrimPrefix key pre) ''/comp-''"

fun classify :: "string \<Rightarrow> kv list \<Rightarrow> kvInfo list \<Rightarrow> kvInfo list \<Rightarrow> kvInfo list \<times> kvInfo list" where
  "classify pre [] nonComp comps = (nonComp, comps)"
| "classify pre (x # xs) nonComp comps =
     (if is_comp pre (kv_Key x) then classify pre xs nonComp (comps @ [kv_info x])
      else classify pre xs (nonComp @ [kv_info x]) comps)"

type_synonym kv_sorter = "(kvInfo \<Rightarrow> kvInfo \<Rightarrow> bool) \<Rightarrow> kvInfo list \<Rightarrow> kvInfo list"

definition older :: "kvInfo \<Rightarrow> kvInfo \<Rightarrow> bool" where
  "older x y = (ki_CreateRev x < ki_CreateRev y)"

definition listKeys ::
  "kv_sorter \<Rightarrow> ('w, 'e) etcd \<Rightarrow> CleanupManager \<Rightarrow> 'w \<Rightarrow> ('e + kvInfo list \<times> kvInfo list) \<times> 'w" where
  "listKeys srt cli m w =
     (case et_Get cli w (m_prefix m) [WithPrefix] of
        (Inl e, w') \<Rightarrow> (Inl e, w')
      | (Inr kvs, w') \<Rightarrow>
          (let (nonComp, comps) = classify (m_prefix m) kvs [] []
           in (Inr (srt older nonComp, srt older comps), w')))"

section \<open>Deleting in batches\<close>

text \<open>
  The variables the closure \<open>deleteFromList\<close> shares with \<open>deleteKeys\<close>: bytes freed and keys
  deleted. The first component of \<open>delete_batch\<close> says that the closure returned because the
  context was done. The two counters are unbounded here: they grow to the lengths of the keys and values
  of one database and to the number of its keys, far below the range of \<open>int64\<close>.
\<close>

record 'w del_state =
  ds_freed :: int
  ds_deleted :: int
  ds_world :: 'w

fun delete_batch :: "('w, 'e) etcd \<Rightarrow> kvInfo list \<Rightarrow> 'w del_state \<Rightarrow> bool \<times> 'w del_state" where
  "delete_batch cli [] s = (False, s)"
| "delete_batch cli (x # xs) s =
     (if et_ctx_done cli (ds_world s) then (True, s)
      else case et_Delete cli (ds_world s) (ki_Key x) of
             (Some e, w') \<Rightarrow> delete_batch cli xs (s\<lparr>ds_world := w'\<rparr>)
           | (None, w') \<Rightarrow>
               delete_batch cli xs
                 (s\<lparr>ds_freed := ds_freed s + ki_EstimatedLen x,
                    ds_deleted := ds_deleted s + 1, ds_world := w'\<rparr>))"

partial_function (option) deleteFromList ::
  "('w, 'e) etcd \<Rightarrow> int \<Rightarrow> int \<Rightarrow> kvInfo list \<Rightarrow> int \<Rightarrow> 'w del_state \<Rightarrow> 'w del_state option" where
  "deleteFromList cli batch need xs i s =
     (if i < int (length xs) \<and> ds_freed s < need then
        (let stop = (if int (length xs) < i + batch then int (length xs) else i + batch)
         in if i < 0 \<or> stop < i then None
            else
              (let (returned, s') = delete_batch cli (take (nat (stop - i)) (drop (nat i) xs)) s
               in if returned then Some s' else deleteFromList cli batch need xs (i + batch) s'))
      else Some s)"

definition deleteKeys ::
  "('w, 'e) etcd \<Rightarrow> CleanupManager \<Rightarrow> 'w \<Rightarrow> int \<Rightarrow> kvInfo list \<Rightarrow> kvInfo list \<Rightarrow> 'w del_state option" where
  "deleteKeys cli m w need nonComp comps =
     (case deleteFromList cli (m_batchSize m) need nonComp 0
             \<lparr>ds_freed = 0, ds_deleted = 0, ds_world = w\<rparr> of
        None \<Rightarrow> None
      | Some s \<Rightarrow>
          if ds_freed s < need then deleteFromList cli (m_batchSize m) need comps 0 s
          else Some s)"

section \<open>Compaction and defragmentation\<close>

text \<open>\<open>Endpoints()[0]\<close> panics on an empty list: \<open>None\<close>.\<close>

definition runCompact :: "('w, 'e) etcd \<Rightarrow> 'w \<Rightarrow> 'w option" where
  "runCompact cli w =
     (case et_Endpoints cli of
        [] \<Rightarrow> None
      | ep # _ \<Rightarrow>
          (case et_Status cli w ep of
             (Inl e, w') \<Rightarrow> Some w'
           | (Inr st, w') \<Rightarrow> Some (snd (et_Compact cli w' (Revision st)))))"

definition runDefrag :: "('w, 'e) etcd \<Rightarrow> 'w \<Rightarrow> 'w" where
  "runDefrag cli w =
     (case et_MemberList cli w of
        (Inl e, w') \<Rightarrow> w'
      | (Inr tot, w') \<Rightarrow>
          if 1 < tot then w'
          else foldl (\<lambda>v ep. snd (et_Defragment cli v ep)) w' (et_Endpoints cli))"

section \<open>The cleanup sequence\<close>

definition need_free :: "(float64 \<Rightarrow> int) \<Rightarrow> CleanupManager \<Rightarrow> int \<Rightarrow> int \<Rightarrow> int" where
  "need_free oor m used quota =
     f64_to_int64 oor
       (f64_sub (f64_of_int used) (f64_mul (m_desiredRatio m) (f64_of_int quota)))"

definition RunCleanup ::
  "(float64 \<Rightarrow> int) \<Rightarrow> kv_sorter \<Rightarrow> ('w, 'e) etcd \<Rightarrow> CleanupManager \<Rightarrow> status_response option
     \<Rightarrow> 'w \<Rightarrow> 'w option" where
  "RunCleanup oor srt cli m status w =
     (case status of
        None \<Rightarrow> Some w
      | Some st \<Rightarrow>
          if DbSizeQuota st = 0 then Some w
          else
            (let needFree = need_free oor m (DbSizeInUse st) (DbSizeQuota st)
             in if needFree \<le> 0 then Some w
                else
                  (case listKeys srt cli m w of
                     (Inl e, w1) \<Rightarrow> Some w1
                   | (Inr (nonComp, comps), w1) \<Rightarrow>
                       (case deleteKeys cli m w1 needFree nonComp comps of
                          None \<Rightarrow> None
                        | Some s \<Rightarrow>
                            (case (if m_autoCompact m then runCompact cli (ds_world s)
                                   else Some (ds_world s)) of
                               None \<Rightarrow> None
                             | Some w2 \<Rightarrow>
                                 Some (if m_autoDefrag m then runDefrag cli w2 else w2))))))"

section \<open>Listing: lemmas\<close>

lemma classify_acc:
  "classify pre xs nonComp comps =
     (nonComp @ map kv_info (filter (\<lambda>x. \<not> is_comp pre (kv_Key x)) xs),
      comps @ map kv_info (filter (\<lambda>x. is_comp pre (kv_Key x)) xs))"
  by (induction pre xs nonComp comps rule: classify.induct) auto

lemma strict_weak_order_older: "strict_weak_order older"
  by (auto simp: strict_weak_order_def older_def)

lemma listKeys_cases:
  assumes "listKeys srt cli m w = (Inr (nonComp, comps), w')"
  obtains kvs where "et_Get cli w (m_prefix m) [WithPrefix] = (Inr kvs, w')"
    and "nonComp = srt older (map kv_info (filter (\<lambda>x. \<not> is_comp (m_prefix m) (kv_Key x)) kvs))"
    and "comps = srt older (map kv_info (filter (\<lambda>x. is_comp (m_prefix m) (kv_Key x)) kvs))"
  using assms by (auto simp: listKeys_def classify_acc split: prod.splits sum.splits)

section \<open>Deletion: lemmas\<close>

lemma delete_batch_append:
  "delete_batch cli (xs @ ys) s =
     (let (r, s') = delete_batch cli xs s in if r then (True, s') else delete_batch cli ys s')"
  by (induction xs arbitrary: s) (auto split: option.splits prod.splits)

lemma delete_batch_freed_mono:
  assumes "\<forall>x \<in> set xs. 0 \<le> ki_EstimatedLen x"
  shows "ds_freed s \<le> ds_freed (snd (delete_batch cli xs s))"
  using assms
proof (induction xs arbitrary: s)
  case Nil
  then show ?case by simp
next
  case (Cons x xs)
  have IH: "ds_freed t \<le> ds_freed (snd (delete_batch cli xs t))" for t
    using Cons by simp
  show ?case
    using Cons.prems IH [of "s\<lparr>ds_world := snd (et_Delete cli (ds_world s) (ki_Key x))\<rparr>"]
      IH [of "s\<lparr>ds_freed := ds_freed s + ki_EstimatedLen x, ds_deleted := ds_deleted s + 1,
                ds_world := snd (et_Delete cli (ds_world s) (ki_Key x))\<rparr>"]
    by (auto split: option.splits prod.splits)
qed

lemma kv_info_len_nonneg: "0 \<le> ki_EstimatedLen (kv_info x)"
  by (simp add: kv_info_def)

text \<open>
  For a positive batch size the index loop is a recursion over the list cut into batches; this is
  the form the proofs use.
\<close>

fun chunks :: "nat \<Rightarrow> 'a list \<Rightarrow> 'a list list" where
  "chunks n [] = []"
| "chunks 0 (x # xs) = [x # xs]"
| "chunks (Suc n) (x # xs) = (x # take n xs) # chunks (Suc n) (drop n xs)"

fun delete_batches ::
  "('w, 'e) etcd \<Rightarrow> int \<Rightarrow> kvInfo list list \<Rightarrow> 'w del_state \<Rightarrow> 'w del_state" where
  "delete_batches cli need [] s = s"
| "delete_batches cli need (b # bs) s =
     (if ds_freed s < need then
        (let (returned, s') = delete_batch cli b s
         in if returned then s' else delete_batches cli need bs s')
      else s)"

lemma concat_chunks [simp]: "concat (chunks n xs) = xs"
  by (induction n xs rule: chunks.induct) auto

lemma length_chunk: "0 < n \<Longrightarrow> b \<in> set (chunks n xs) \<Longrightarrow> length b \<le> n"
  by (induction n xs rule: chunks.induct) auto

lemma chunks_step: "0 < n \<Longrightarrow> xs \<noteq> [] \<Longrightarrow> chunks n xs = take n xs # chunks n (drop n xs)"
  by (cases n; cases xs) auto

lemma deleteFromList_chunks:
  assumes "0 < batch" and "0 \<le> i"
  shows "deleteFromList cli batch need xs i s =
           Some (delete_batches cli need (chunks (nat batch) (drop (nat i) xs)) s)"
  using assms
proof (induction "nat (int (length xs) - i)" arbitrary: i s rule: less_induct)
  case less
  let ?ys = "drop (nat i) xs"
  show ?case
  proof (cases "i < int (length xs) \<and> ds_freed s < need")
    case False
    then have "?ys = [] \<or> \<not> ds_freed s < need" by auto
    then have "delete_batches cli need (chunks (nat batch) ?ys) s = s"
      by (cases "chunks (nat batch) ?ys") auto
    with False show ?thesis by (subst deleteFromList.simps) auto
  next
    case True
    define stop where "stop = (if int (length xs) < i + batch then int (length xs) else i + batch)"
    have body: "take (nat (stop - i)) ?ys = take (nat batch) ?ys"
      using True less.prems by (auto simp: stop_def nat_diff_distrib nat_add_distrib)
    have rest: "drop (nat (i + batch)) xs = drop (nat batch) ?ys"
      using less.prems by (simp add: nat_add_distrib add.commute)
    have IH: "deleteFromList cli batch need xs (i + batch) s' =
        Some (delete_batches cli need (chunks (nat batch) (drop (nat batch) ?ys)) s')" for s'
      using less.hyps [of "i + batch" s'] True less.prems rest by auto
    have "chunks (nat batch) ?ys = take (nat batch) ?ys # chunks (nat batch) (drop (nat batch) ?ys)"
      using True less.prems by (intro chunks_step) auto
    with True less.prems body IH show ?thesis
      by (subst deleteFromList.simps)
        (auto simp: stop_def [symmetric] split: prod.splits) 
  qed
qed

text \<open>
  The batches run are a prefix of the list of batches: the loop stops because the context is
  done, because enough is freed, or at the end; and before the last batch it ran there was not
  enough freed.
\<close>

lemma delete_batches_prefix:
  "\<exists>bs1 bs2 r. bs = bs1 @ bs2
     \<and> delete_batch cli (concat bs1) s = (r, delete_batches cli need bs s)
     \<and> (r \<or> need \<le> ds_freed (delete_batches cli need bs s) \<or> bs2 = [])
     \<and> (bs1 \<noteq> [] \<longrightarrow> (\<exists>t. delete_batch cli (concat (butlast bs1)) s = (False, t)
                              \<and> ds_freed t < need))"
proof (induction bs arbitrary: s)
  case Nil
  then show ?case by auto
next
  case (Cons b bs)
  show ?case
  proof (cases "ds_freed s < need")
    case False
    then show ?thesis by (intro exI [of _ "[]"] exI [of _ "b # bs"] exI [of _ False]) auto
  next
    case lt: True
    obtain r1 s1 where b: "delete_batch cli b s = (r1, s1)" by force
    show ?thesis
    proof (cases r1)
      case True
      with lt b show ?thesis by (intro exI [of _ "[b]"] exI [of _ bs] exI [of _ True]) auto
    next
      case False
      obtain bs1 bs2 r where IH: "bs = bs1 @ bs2"
        "delete_batch cli (concat bs1) s1 = (r, delete_batches cli need bs s1)"
        "r \<or> need \<le> ds_freed (delete_batches cli need bs s1) \<or> bs2 = []"
        "bs1 \<noteq> [] \<longrightarrow> (\<exists>t. delete_batch cli (concat (butlast bs1)) s1 = (False, t)
                              \<and> ds_freed t < need)"
        using Cons.IH [of s1] by blast
      with lt b False show ?thesis
        by (intro exI [of _ "b # bs1"] exI [of _ bs2] exI [of _ r])
          (auto simp: delete_batch_append)
    qed
  qed
qed

section \<open>The deletion of both lists\<close>

lemma chunks_nonempty: "0 < n \<Longrightarrow> b \<in> set (chunks n xs) \<Longrightarrow> b \<noteq> []"
  by (induction n xs rule: chunks.induct) auto

lemma delete_batch_returned: "delete_batch cli xs s = (True, s') \<Longrightarrow> et_ctx_done cli (ds_world s')"
  by (induction xs arbitrary: s) (auto split: if_splits option.splits prod.splits)

lemma delete_batches_ctx_done:
  assumes "et_ctx_done cli (ds_world s)" and "\<forall>b \<in> set bs. b \<noteq> []"
  shows "delete_batches cli need bs s = s"
proof (cases bs)
  case Nil
  then show ?thesis by simp
next
  case (Cons b bs')
  with assms have "delete_batch cli b s = (True, s)" by (cases b) auto
  with Cons show ?thesis by simp
qed

lemma delete_batches_append:
  assumes "\<forall>b \<in> set bs2. b \<noteq> []"
  shows "delete_batches cli need (bs1 @ bs2) s =
           delete_batches cli need bs2 (delete_batches cli need bs1 s)"
proof (induction bs1 arbitrary: s)
  case Nil
  then show ?case by simp
next
  case (Cons b bs1)
  have enough: "delete_batches cli need bs2 t = t" if "\<not> ds_freed t < need" for t
    using that by (cases bs2) auto
  have ret: "delete_batches cli need bs2 t = t" if "delete_batch cli b s = (True, t)" for t
    using that delete_batch_returned delete_batches_ctx_done [OF _ assms] by metis
  show ?case
    using Cons.IH enough ret by (auto split: prod.splits)
qed

definition start_deletes :: "'w \<Rightarrow> 'w del_state" where
  "start_deletes w = \<lparr>ds_freed = 0, ds_deleted = 0, ds_world = w\<rparr>"

lemma batchSize_pos [simp]: "0 < m_batchSize (NewCleanupManager opts)"
  by (simp add: NewCleanupManager_def)

lemma deleteKeys_batches:
  assumes "0 < m_batchSize m"
  shows "deleteKeys cli m w need nonComp comps =
           Some (delete_batches cli need
                   (chunks (nat (m_batchSize m)) nonComp @ chunks (nat (m_batchSize m)) comps)
                   (start_deletes w))"
proof -
  let ?c = "chunks (nat (m_batchSize m))"
  let ?s1 = "delete_batches cli need (?c nonComp) (start_deletes w)"
  have app: "delete_batches cli need (?c nonComp @ ?c comps) (start_deletes w) =
      delete_batches cli need (?c comps) ?s1"
    using assms by (intro delete_batches_append ballI) (metis chunks_nonempty zero_less_nat_eq)
  have "delete_batches cli need (?c comps) ?s1 = ?s1" if "\<not> ds_freed ?s1 < need"
    using that by (cases "?c comps") auto
  then show ?thesis
    using assms app
    by (simp add: deleteKeys_def deleteFromList_chunks start_deletes_def [symmetric])
qed

text \<open>Without errors the counters are sums over the deleted keys.\<close>

lemma delete_batch_answers:
  assumes "etcd_answers cli"
  shows "\<exists>w'. delete_batch cli xs s =
           (False, s\<lparr>ds_freed := ds_freed s + sum_list (map ki_EstimatedLen xs),
                     ds_deleted := ds_deleted s + int (length xs), ds_world := w'\<rparr>)"
proof (induction xs arbitrary: s)
  case Nil
  then show ?case by (cases s) auto
next
  case (Cons x xs)
  obtain w1 where "et_Delete cli (ds_world s) (ki_Key x) = (None, w1)"
    using assms by (metis etcd_answers_def prod.collapse)
  moreover obtain w' where "delete_batch cli xs
      (s\<lparr>ds_freed := ds_freed s + ki_EstimatedLen x, ds_deleted := ds_deleted s + 1,
         ds_world := w1\<rparr>) =
      (False, s\<lparr>ds_freed := ds_freed s + ki_EstimatedLen x + sum_list (map ki_EstimatedLen xs),
                ds_deleted := ds_deleted s + 1 + int (length xs), ds_world := w'\<rparr>)"
    using Cons.IH [of "s\<lparr>ds_freed := ds_freed s + ki_EstimatedLen x,
      ds_deleted := ds_deleted s + 1, ds_world := w1\<rparr>"] by auto
  ultimately show ?case using assms by (auto simp: etcd_answers_def add.assoc)
qed

lemma delete_batch_view:
  assumes "etcd_answers cli" and "etcd_deletes cli view"
  shows "view (ds_world (snd (delete_batch cli xs s))) =
           filter (\<lambda>x. kv_Key x \<notin> ki_Key ` set xs) (view (ds_world s))"
proof (induction xs arbitrary: s)
  case Nil
  then show ?case by simp
next
  case (Cons x xs)
  obtain w1 where "et_Delete cli (ds_world s) (ki_Key x) = (None, w1)"
    using assms(1) by (metis etcd_answers_def prod.collapse)
  moreover from this have "view w1 = filter (\<lambda>y. kv_Key y \<noteq> ki_Key x) (view (ds_world s))"
    using assms(2) by (metis etcd_deletes_def fst_conv snd_conv)
  ultimately show ?case
    using assms(1) Cons.IH by (auto simp: etcd_answers_def intro!: filter_cong)
qed

text \<open>
  What deletion of both lists does, for the key order of the two lists joined: it handles the
  first \<open>n\<close> keys.
\<close>

lemma deleteKeys_prefix:
  assumes m: "0 < m_batchSize m" and res: "deleteKeys cli m w need nonComp comps = Some s"
  shows "\<exists>n r. n \<le> length (nonComp @ comps)
     \<and> delete_batch cli (take n (nonComp @ comps)) (start_deletes w) = (r, s)
     \<and> (r \<or> need \<le> ds_freed s \<or> n = length (nonComp @ comps))
     \<and> (0 < n \<longrightarrow> (\<exists>k t. k < n \<and> int (n - k) \<le> m_batchSize m
          \<and> delete_batch cli (take k (nonComp @ comps)) (start_deletes w) = (False, t)
          \<and> ds_freed t < need))"
proof -
  let ?b = "nat (m_batchSize m)"
  let ?bs = "chunks ?b nonComp @ chunks ?b comps"
  have s: "s = delete_batches cli need ?bs (start_deletes w)"
    using deleteKeys_batches [OF m, of cli w need nonComp comps] res by simp
  obtain bs1 bs2 r where p: "?bs = bs1 @ bs2"
    "delete_batch cli (concat bs1) (start_deletes w) = (r, s)"
    "r \<or> need \<le> ds_freed s \<or> bs2 = []"
    "bs1 \<noteq> [] \<longrightarrow> (\<exists>t. delete_batch cli (concat (butlast bs1)) (start_deletes w) = (False, t)
                          \<and> ds_freed t < need)"
    using delete_batches_prefix [of ?bs cli "start_deletes w" need] s by blast
  have cat: "concat bs1 @ concat bs2 = nonComp @ comps"
    using p(1) by (metis concat_append concat_chunks)
  let ?n = "length (concat bs1)"
  have t1: "take ?n (nonComp @ comps) = concat bs1" using cat by (metis append_eq_conv_conj)
  have "\<exists>k t. k < ?n \<and> int (?n - k) \<le> m_batchSize m
      \<and> delete_batch cli (take k (nonComp @ comps)) (start_deletes w) = (False, t)
      \<and> ds_freed t < need" if "0 < ?n"
  proof -
    have ne: "bs1 \<noteq> []" using that by auto
    with p(4) obtain t where t: "delete_batch cli (concat (butlast bs1)) (start_deletes w) = (False, t)"
      "ds_freed t < need" by blast
    have bs1: "concat bs1 = concat (butlast bs1) @ last bs1"
      using ne by (metis append_butlast_last_id concat.simps concat_append self_append_conv)
    have "last bs1 \<in> set ?bs" using ne p(1) by simp
    then have "last bs1 \<noteq> []" "length (last bs1) \<le> ?b"
      using m chunks_nonempty length_chunk by (metis Un_iff set_append zero_less_nat_eq)+
    moreover have "take (length (concat (butlast bs1))) (nonComp @ comps) = concat (butlast bs1)"
      using cat bs1 by (metis append_assoc append_eq_conv_conj)
    ultimately show ?thesis using t bs1 m
      by (intro exI [of _ "length (concat (butlast bs1))"] exI [of _ t]) auto
  qed
  moreover have "?n = length (nonComp @ comps)" if "bs2 = []" using cat that by simp
  moreover have "?n \<le> length (nonComp @ comps)" using cat by (metis length_append le_add1)
  ultimately show ?thesis using p(2,3) t1 by (intro exI [of _ ?n] exI [of _ r]) auto
qed

section \<open>How much is to be freed\<close>

text \<open>
  The three roundings of the target (the constant 0.6, the product and the difference) and the
  truncation cost less than four bytes on sizes up to 2^53 bytes.
\<close>

lemma need_free_close:
  fixes used quota :: int and oor
  defines "need \<equiv> need_free oor (NewCleanupManager main_cleanup_options) used quota"
  assumes u: "0 \<le> used" "used \<le> 2 ^ 53" and q: "0 \<le> quota" "quota \<le> 2 ^ 53"
  shows "\<bar>of_int need - (of_int used - 3 / 5 * of_int quota)\<bar> \<le> (4 :: rat)"
proof -
  let ?u = "of_int used :: rat" and ?q = "of_int quota :: rat"
  have ub: "0 \<le> ?u" "?u \<le> 2 ^ 53" and qb: "0 \<le> ?q" "?q \<le> 2 ^ 53"
    using u q by (simp_all flip: of_int_le_iff)
  have P: "(2 :: rat) ^ 53 = 9007199254740992" by simp
  define r where "r = fl64 (3 / 5)"
  define p where "p = fl64 (r * ?q)"
  define z where "z = fl64 (?u - p)"
  have r: "\<bar>r - 3 / 5\<bar> \<le> 3 / 5 / 2 ^ 53"
    unfolding r_def using fl64_rel_error [of "3 / 5"] powi2_mono [of "- 1022" "- 1"] by simp
  have "\<bar>r - 3 / 5\<bar> \<le> 1 / 10" using r by simp
  then have rb: "0 \<le> r" "r \<le> 7 / 10" by linarith+
  have "r * ?q - 3 / 5 * ?q = (r - 3 / 5) * ?q" by (simp add: algebra_simps)
  then have "\<bar>r * ?q - 3 / 5 * ?q\<bar> = \<bar>r - 3 / 5\<bar> * ?q"
    using qb by (simp only: abs_mult abs_of_nonneg)
  also have "\<dots> \<le> (3 / 5 / 2 ^ 53) * 2 ^ 53" using r qb by (intro mult_mono) auto
  finally have e1: "\<bar>r * ?q - 3 / 5 * ?q\<bar> \<le> 3 / 5" by simp
  have "r * ?q \<le> 7 / 10 * 2 ^ 53" using rb qb by (intro mult_mono) auto
  then have rq: "0 \<le> r * ?q" "r * ?q \<le> 7 / 10 * 2 ^ 53" using rb qb by simp_all
  have e2: "\<bar>p - r * ?q\<bar> \<le> 71 / 100"
    using fl64_error [of "r * ?q"] rq unfolding p_def by simp
  have pb: "- 1 \<le> p" "p \<le> 2 ^ 53" using e2 rq unfolding P by linarith+
  have up: "\<bar>?u - p\<bar> \<le> 2 ^ 53 + 1" using ub pb unfolding P by linarith
  have "\<bar>z - (?u - p)\<bar> \<le> (2 ^ 53 + 1 + 1) / 2 ^ 53"
    unfolding z_def by (rule order_trans [OF fl64_error]) (intro divide_right_mono add_right_mono up, simp)
  then have e3: "\<bar>z - (?u - p)\<bar> \<le> 11 / 10" by simp
  have "f64 (6 / 10) = Fin r" by (simp add: f64_small r_def)
  moreover have "f64 (r * ?q) = Fin p" using rq by (simp add: f64_small p_def)
  moreover have "f64 (?u - p) = Fin z"
    using up unfolding z_def P by (intro f64_small) simp
  ultimately have "need = f64_to_int64 oor (Fin z)"
    using u q by (simp add: need_def need_free_def NewCleanupManager_def
        main_cleanup_options_def f64_of_int_exact f64_sub_def)
  also have "\<dots> = trunc_rat z"
    by (intro f64_to_int64_Fin) (simp, use e3 up in \<open>unfold P, linarith\<close>)
  finally have "\<bar>of_int need - z\<bar> \<le> 1" using trunc_rat_error [of z] by simp
  with e1 e2 e3 show ?thesis by linarith
qed

section \<open>The sequence: lemmas\<close>

lemma range_select_prefix:
  "range_select [WithPrefix] k kvs = filter (\<lambda>x. strings_HasPrefix (kv_Key x) k) kvs"
  by (simp add: range_select_def in_range_def limit_of_def limit_take_def)

lemma ki_info_simps [simp]:
  "ki_Key (kv_info x) = kv_Key x" "ki_CreateRev (kv_info x) = kv_CreateRevision x"
  by (simp_all add: kv_info_def)

lemma sorted_older: "sorted_wrt (\<lambda>x y. \<not> older y x) xs \<longleftrightarrow> sorted (map ki_CreateRev xs)"
  by (simp add: sorted_map sorted_wrt_iff_nth_less older_def not_less)

lemma mset_filter_partition: "mset (filter (\<lambda>x. \<not> P x) xs) + mset (filter P xs) = mset xs"
  by (induction xs) auto

lemma listKeys_view:
  assumes srt: "sort_slice_ok srt" and reads: "etcd_reads cli view" and ans: "etcd_answers cli"
  shows "\<exists>nonComp comps w1. listKeys srt cli m w = (Inr (nonComp, comps), w1)
     \<and> view w1 = view w
     \<and> mset nonComp + mset comps =
         mset (map kv_info (filter (\<lambda>x. strings_HasPrefix (kv_Key x) (m_prefix m)) (view w)))
     \<and> (\<forall>x \<in> set nonComp. \<not> is_comp (m_prefix m) (ki_Key x))
     \<and> (\<forall>x \<in> set comps. is_comp (m_prefix m) (ki_Key x))
     \<and> sorted (map ki_CreateRev nonComp) \<and> sorted (map ki_CreateRev comps)"
proof -
  let ?P = "\<lambda>x. is_comp (m_prefix m) (kv_Key x)"
  obtain r w1 where get: "et_Get cli w (m_prefix m) [WithPrefix] = (r, w1)" by force
  then have "is_ok r" using ans unfolding etcd_answers_def by (metis fst_conv)
  then obtain kvs where r: "r = Inr kvs" by (cases r) auto
  have kvs: "kvs = filter (\<lambda>x. strings_HasPrefix (kv_Key x) (m_prefix m)) (view w)"
    using reads get r unfolding etcd_reads_def range_select_prefix [symmetric] by (metis fst_conv)
  have w1: "view w1 = view w" using reads get unfolding etcd_reads_def by (metis snd_conv)
  define A where "A = map kv_info (filter (\<lambda>x. \<not> ?P x) kvs)"
  define B where "B = map kv_info (filter ?P kvs)"
  have l: "listKeys srt cli m w = (Inr (srt older A, srt older B), w1)"
    by (simp add: listKeys_def get r classify_acc A_def B_def)
  have "mset (filter (\<lambda>x. \<not> ?P x) kvs) + mset (filter ?P kvs) = mset kvs"
    by (rule mset_filter_partition)
  then have "mset A + mset B = mset (map kv_info kvs)"
    by (simp add: A_def B_def flip: image_mset_union)
  then have "mset (srt older A) + mset (srt older B) = mset (map kv_info kvs)"
    using srt by (simp add: sort_slice_mset)
  moreover have "\<forall>x \<in> set (srt older A). \<not> is_comp (m_prefix m) (ki_Key x)"
    and "\<forall>x \<in> set (srt older B). is_comp (m_prefix m) (ki_Key x)"
    using srt by (auto simp: sort_slice_set A_def B_def)
  moreover have "sorted (map ki_CreateRev (srt older xs))" for xs
    using sort_slice_sorted [OF srt strict_weak_order_older] by (simp add: sorted_older)
  ultimately show ?thesis using l w1 kvs by blast
qed

lemma sum_list_take_mono:
  assumes "\<forall>x \<in> set xs. (0 :: int) \<le> f x" and "j \<le> k"
  shows "sum_list (map f (take j xs)) \<le> sum_list (map f (take k xs))"
proof -
  obtain d where "k = j + d" using assms(2) le_Suc_ex by blast
  moreover have "0 \<le> sum_list (map f (take d (drop j xs)))"
    using assms(1) by (intro sum_list_nonneg) (auto dest!: in_set_takeD in_set_dropD)
  ultimately show ?thesis by (simp add: take_add)
qed

lemma deleteKeys_view:
  assumes ans: "etcd_answers cli" and dels: "etcd_deletes cli view" and b: "0 < m_batchSize m"
    and need: "0 < need" and len: "\<forall>x \<in> set (nonComp @ comps). 0 \<le> ki_EstimatedLen x"
  shows "\<exists>n s. deleteKeys cli m w need nonComp comps = Some s \<and> n \<le> length (nonComp @ comps)
     \<and> view (ds_world s) = filter (\<lambda>x. kv_Key x \<notin> ki_Key ` set (take n (nonComp @ comps))) (view w)
     \<and> (need \<le> sum_list (map ki_EstimatedLen (take n (nonComp @ comps)))
          \<or> n = length (nonComp @ comps))
     \<and> sum_list (map ki_EstimatedLen (take (n - nat (m_batchSize m)) (nonComp @ comps))) < need"
proof -
  let ?xs = "nonComp @ comps" and ?sum = "\<lambda>k. sum_list (map ki_EstimatedLen (take k (nonComp @ comps)))"
  obtain s where s: "deleteKeys cli m w need nonComp comps = Some s"
    by (simp add: deleteKeys_batches [OF b])
  obtain n r where n: "n \<le> length ?xs" "delete_batch cli (take n ?xs) (start_deletes w) = (r, s)"
    "r \<or> need \<le> ds_freed s \<or> n = length ?xs"
    and short: "0 < n \<longrightarrow> (\<exists>k t. k < n \<and> int (n - k) \<le> m_batchSize m
      \<and> delete_batch cli (take k ?xs) (start_deletes w) = (False, t) \<and> ds_freed t < need)"
    using deleteKeys_prefix [OF b s] by metis
  have freed: "\<not> r \<and> ds_freed t = ?sum k" if "delete_batch cli (take k ?xs) (start_deletes w) = (r, t)" for k r t
    using delete_batch_answers [OF ans, of "take k ?xs" "start_deletes w"] that by (auto simp: start_deletes_def)
  have "need \<le> ?sum n \<or> n = length ?xs" using n freed by metis
  moreover have "view (ds_world s) = filter (\<lambda>x. kv_Key x \<notin> ki_Key ` set (take n ?xs)) (view w)"
    using delete_batch_view [OF ans dels, of "take n ?xs" "start_deletes w"] n(2)
    by (simp add: start_deletes_def)
  moreover have "?sum (n - nat (m_batchSize m)) < need"
  proof (cases "n = 0")
    case False
    then obtain k t where k: "int (n - k) \<le> m_batchSize m" "?sum k < need"
      using short freed by (metis gr0I)
    then have "n - nat (m_batchSize m) \<le> k" by linarith
    with sum_list_take_mono [OF len] k(2) show ?thesis by (meson le_less_trans)
  qed (use need in simp)
  ultimately show ?thesis using s n(1) by blast
qed

lemma RunCleanup_step:
  assumes "DbSizeQuota st \<noteq> 0" and "0 < need_free oor m (DbSizeInUse st) (DbSizeQuota st)"
    and "listKeys srt cli m w = (Inr (nonComp, comps), w1)"
    and "deleteKeys cli m w1 (need_free oor m (DbSizeInUse st) (DbSizeQuota st)) nonComp comps = Some s"
    and "et_Endpoints cli \<noteq> []"
  shows "\<exists>w2. RunCleanup oor srt cli m (Some st) w = Some w2
     \<and> (etcd_maintains cli view \<longrightarrow> view w2 = view (ds_world s))"
proof -
  have c: "\<exists>v. runCompact cli u = Some v \<and> (etcd_maintains cli view \<longrightarrow> view v = view u)" for u
    using assms(5) unfolding etcd_maintains_def
    by (auto simp: runCompact_def split: list.splits prod.splits sum.splits) (metis snd_conv)+
  have f: "view (foldl (\<lambda>v ep. snd (et_Defragment cli v ep)) u eps) = view u"
    if "etcd_maintains cli view" for u eps
    using that by (induction eps arbitrary: u) (auto simp: etcd_maintains_def)
  have d: "etcd_maintains cli view \<longrightarrow> view (runDefrag cli u) = view u" for u
    using f by (auto simp: runDefrag_def split: prod.splits sum.splits)
      (metis etcd_maintains_def snd_conv)+
  obtain v where v: "runCompact cli (ds_world s) = Some v"
    "etcd_maintains cli view \<longrightarrow> view v = view (ds_world s)" using c by blast
  show ?thesis using assms v d by (auto simp: RunCleanup_def Let_def)
qed

section \<open>Properties\<close>

text \<open>
  C9. Deletion always returns: for every manager the constructor builds (it replaces a batch size
  of zero or less by 50) the index loop over both lists ends and no slice expression panics,
  whatever the client answers.
\<close>

theorem deleteKeys_returns:
  "\<exists>s. deleteKeys cli (NewCleanupManager opts) w need nonComp comps = Some s"
  by (simp add: deleteKeys_batches)

text \<open>
  Deletion goes through the keys in the order nonComp before comp, handles a prefix of that
  order and stops for one of three reasons: the context is done, the estimate reached the target,
  or no key is left. It stops within one batch: fewer than a batch of keys are handled after the
  estimate reached the target.
\<close>

theorem deleteKeys_minimal_prefix:
  assumes "deleteKeys cli (NewCleanupManager opts) w need nonComp comps = Some s"
  shows "\<exists>n r. n \<le> length (nonComp @ comps)
     \<and> delete_batch cli (take n (nonComp @ comps)) (start_deletes w) = (r, s)
     \<and> (r \<or> need \<le> ds_freed s \<or> n = length (nonComp @ comps))
     \<and> (0 < n \<longrightarrow> (\<exists>k t. k < n \<and> int (n - k) \<le> m_batchSize (NewCleanupManager opts)
          \<and> delete_batch cli (take k (nonComp @ comps)) (start_deletes w) = (False, t)
          \<and> ds_freed t < need))"
  using deleteKeys_prefix [OF batchSize_pos assms] .

lemma RunCleanup_target:
  assumes srt: "sort_slice_ok srt" and reads: "etcd_reads cli view"
    and dels: "etcd_deletes cli view" and maint: "etcd_maintains cli view"
    and ans: "etcd_answers cli" and ep: "et_Endpoints cli \<noteq> []"
    and m: "m = NewCleanupManager opts" and q: "DbSizeQuota st \<noteq> 0"
    and need: "0 < need_free oor m (DbSizeInUse st) (DbSizeQuota st)"
  shows "\<exists>nonComp comps n w2. RunCleanup oor srt cli m (Some st) w = Some w2
     \<and> mset nonComp + mset comps =
         mset (map kv_info (filter (\<lambda>x. strings_HasPrefix (kv_Key x) (m_prefix m)) (view w)))
     \<and> (\<forall>x \<in> set nonComp. \<not> is_comp (m_prefix m) (ki_Key x))
     \<and> (\<forall>x \<in> set comps. is_comp (m_prefix m) (ki_Key x))
     \<and> sorted (map ki_CreateRev nonComp) \<and> sorted (map ki_CreateRev comps)
     \<and> n \<le> length (nonComp @ comps)
     \<and> view w2 = filter (\<lambda>x. kv_Key x \<notin> ki_Key ` set (take n (nonComp @ comps))) (view w)
     \<and> (need_free oor m (DbSizeInUse st) (DbSizeQuota st)
            \<le> sum_list (map ki_EstimatedLen (take n (nonComp @ comps)))
          \<or> n = length (nonComp @ comps))
     \<and> sum_list (map ki_EstimatedLen (take (n - nat (m_batchSize m)) (nonComp @ comps)))
          < need_free oor m (DbSizeInUse st) (DbSizeQuota st)"
proof -
  let ?need = "need_free oor m (DbSizeInUse st) (DbSizeQuota st)"
  obtain nonComp comps w1 where l: "listKeys srt cli m w = (Inr (nonComp, comps), w1)"
    "view w1 = view w" and facts: "mset nonComp + mset comps =
       mset (map kv_info (filter (\<lambda>x. strings_HasPrefix (kv_Key x) (m_prefix m)) (view w)))"
    "\<forall>x \<in> set nonComp. \<not> is_comp (m_prefix m) (ki_Key x)"
    "\<forall>x \<in> set comps. is_comp (m_prefix m) (ki_Key x)"
    "sorted (map ki_CreateRev nonComp)" "sorted (map ki_CreateRev comps)"
    using listKeys_view [OF srt reads ans, of m w] by blast
  have "set (nonComp @ comps) \<subseteq> range kv_info"
    using arg_cong [OF facts(1), of set_mset] by auto
  then have "\<forall>x \<in> set (nonComp @ comps). 0 \<le> ki_EstimatedLen x"
    using kv_info_len_nonneg by blast
  moreover have "0 < m_batchSize m" using m by simp
  ultimately obtain n s where d: "deleteKeys cli m w1 ?need nonComp comps = Some s" and n: "n \<le> length (nonComp @ comps)"
    "view (ds_world s) = filter (\<lambda>x. kv_Key x \<notin> ki_Key ` set (take n (nonComp @ comps))) (view w1)"
    "?need \<le> sum_list (map ki_EstimatedLen (take n (nonComp @ comps))) \<or> n = length (nonComp @ comps)"
    "sum_list (map ki_EstimatedLen (take (n - nat (m_batchSize m)) (nonComp @ comps))) < ?need"
    using deleteKeys_view [OF ans dels _ need, of m nonComp comps w1] by blast
  obtain w2 where "RunCleanup oor srt cli m (Some st) w = Some w2" "view w2 = view (ds_world s)"
    using RunCleanup_step [OF q need l(1) d ep, of view] maint by blast
  then show ?thesis using facts n l(2)
    by (intro exI [of _ nonComp] exI [of _ comps] exI [of _ n] exI [of _ w2]) simp
qed

text \<open>Whatever the status, what is gone after a cleanup is a prefix of the candidates in that order.\<close>

lemma RunCleanup_effect:
  assumes srt: "sort_slice_ok srt" and reads: "etcd_reads cli view"
    and dels: "etcd_deletes cli view" and maint: "etcd_maintains cli view"
    and ans: "etcd_answers cli" and ep: "et_Endpoints cli \<noteq> []"
    and m: "m = NewCleanupManager opts"
  shows "\<exists>nonComp comps n w2. RunCleanup oor srt cli m status w = Some w2
     \<and> mset nonComp + mset comps =
         mset (map kv_info (filter (\<lambda>x. strings_HasPrefix (kv_Key x) (m_prefix m)) (view w)))
     \<and> (\<forall>x \<in> set nonComp. \<not> is_comp (m_prefix m) (ki_Key x))
     \<and> (\<forall>x \<in> set comps. is_comp (m_prefix m) (ki_Key x))
     \<and> sorted (map ki_CreateRev nonComp) \<and> sorted (map ki_CreateRev comps)
     \<and> n \<le> length (nonComp @ comps)
     \<and> view w2 = filter (\<lambda>x. kv_Key x \<notin> ki_Key ` set (take n (nonComp @ comps))) (view w)"
proof (cases "\<exists>st. status = Some st \<and> DbSizeQuota st \<noteq> 0 \<and> 0 < need_free oor m (DbSizeInUse st) (DbSizeQuota st)")
  case True
  then obtain st where st: "status = Some st" "DbSizeQuota st \<noteq> 0" "0 < need_free oor m (DbSizeInUse st) (DbSizeQuota st)"
    by blast
  show ?thesis unfolding st(1) using RunCleanup_target [OF assms st(2,3)] by blast
next
  case False
  then have "RunCleanup oor srt cli m status w = Some w" by (auto simp: RunCleanup_def split: option.splits)
  moreover have "filter (\<lambda>x. kv_Key x \<notin> ki_Key ` set (take 0 xs)) (view w) = view w" for xs by simp
  ultimately show ?thesis using listKeys_view [OF srt reads ans, of m w]
    by (elim exE conjE, intro exI conjI) (assumption | rule le0 | simp)+
qed

text \<open>
  C1. The whole cleanup on a cluster that answers, against the visible key space: what is gone
  afterwards is exactly a prefix of the candidates in the order nonComp before comp, each list
  oldest creation revision first; the candidates are the keys under the prefix. The sizes of
  the removed ones reach the target unless every candidate was removed, and those removed up to one
  batch earlier fell short of it: deletion goes at most a batch beyond what the target asks for.
\<close>

theorem RunCleanup_removes_oldest_first:
  assumes srt: "sort_slice_ok srt" and reads: "etcd_reads cli view"
    and dels: "etcd_deletes cli view" and maint: "etcd_maintains cli view"
    and ans: "etcd_answers cli" and ep: "et_Endpoints cli \<noteq> []"
    and m: "m = NewCleanupManager opts" and q: "DbSizeQuota st \<noteq> 0"
    and need: "0 < need_free oor m (DbSizeInUse st) (DbSizeQuota st)"
  shows "\<exists>nonComp comps n w2. RunCleanup oor srt cli m (Some st) w = Some w2
     \<and> mset nonComp + mset comps =
         mset (map kv_info (filter (\<lambda>x. strings_HasPrefix (kv_Key x) (m_prefix m)) (view w)))
     \<and> (\<forall>x \<in> set nonComp. \<not> is_comp (m_prefix m) (ki_Key x))
     \<and> (\<forall>x \<in> set comps. is_comp (m_prefix m) (ki_Key x))
     \<and> sorted (map ki_CreateRev nonComp) \<and> sorted (map ki_CreateRev comps)
     \<and> n \<le> length (nonComp @ comps)
     \<and> view w2 = filter (\<lambda>x. kv_Key x \<notin> ki_Key ` set (take n (nonComp @ comps))) (view w)
     \<and> (need_free oor m (DbSizeInUse st) (DbSizeQuota st)
            \<le> sum_list (map ki_EstimatedLen (take n (nonComp @ comps)))
          \<or> n = length (nonComp @ comps))
     \<and> sum_list (map ki_EstimatedLen (take (n - nat (m_batchSize m)) (nonComp @ comps)))
          < need_free oor m (DbSizeInUse st) (DbSizeQuota st)"
  using RunCleanup_target [OF assms] .

text \<open>A small key space for the witnesses: one key that is not an event and two events.\<close>

definition wit_kvs :: "kv list" where
  "wit_kvs =
     [\<lparr>kv_Key = ''krateo.io.events/comp-a/1'', kv_Value = ''{}'', kv_CreateRevision = 2\<rparr>,
      \<lparr>kv_Key = ''krateo.io.events/comp-b/2'', kv_Value = ''{}'', kv_CreateRevision = 1\<rparr>,
      \<lparr>kv_Key = ''leader'', kv_Value = ''x'', kv_CreateRevision = 3\<rparr>]"

definition wit_opts :: CleanupOptions where
  "wit_opts = main_cleanup_options\<lparr>opt_BatchSize := 1\<rparr>"

lemma wit_deleteKeys:
  "deleteKeys mem_etcd (NewCleanupManager wit_opts) wit_kvs 10
     [kv_info (wit_kvs ! 2)] [kv_info (wit_kvs ! 1), kv_info (wit_kvs ! 0)] =
   Some \<lparr>ds_freed = 34, ds_deleted = 2, ds_world = [wit_kvs ! 0]\<rparr>"
  by (simp add: deleteKeys_batches) (simp add: wit_opts_def main_cleanup_options_def
      NewCleanupManager_def numeral_eq_Suc start_deletes_def mem_etcd_def wit_kvs_def kv_info_def)

theorem deleteKeys_minimal_prefix_witness:
  "\<exists>n r. n \<le> (3 :: nat)
     \<and> delete_batch mem_etcd (take n (kv_info (wit_kvs ! 2) # [kv_info (wit_kvs ! 1), kv_info (wit_kvs ! 0)]))
         (start_deletes wit_kvs) = (r, \<lparr>ds_freed = 34, ds_deleted = 2, ds_world = [wit_kvs ! 0]\<rparr>)"
  using deleteKeys_minimal_prefix [OF wit_deleteKeys] by (auto simp: numeral_eq_Suc)

definition wit_status :: status_response where
  "wit_status = \<lparr>DbSizeInUse = 90, DbSizeQuota = 100, Revision = 7\<rparr>"

lemma wit_need: "0 < need_free oor (NewCleanupManager main_cleanup_options) 90 100"
proof -
  have "\<bar>of_int (need_free oor (NewCleanupManager main_cleanup_options) 90 100) - 30\<bar> \<le> (4 :: rat)"
    using need_free_close [of 90 100 oor] by simp
  then have "(0 :: rat) < of_int (need_free oor (NewCleanupManager main_cleanup_options) 90 100)"
    by linarith
  then show ?thesis by simp
qed

theorem RunCleanup_removes_oldest_first_witness:
  "\<exists>w2. RunCleanup (\<lambda>_. 0) insertion_sort mem_etcd (NewCleanupManager main_cleanup_options)
       (Some wit_status) wit_kvs = Some w2
     \<and> set w2 \<subseteq> set wit_kvs \<and> sorted_wrt (\<lambda>x y. kv_Key x < kv_Key y) w2"
proof -
  have ep: "et_Endpoints mem_etcd \<noteq> []" by (simp add: mem_etcd_def)
  have q: "DbSizeQuota wit_status \<noteq> 0" by (simp add: wit_status_def)
  have need: "0 < need_free (\<lambda>_. 0) (NewCleanupManager main_cleanup_options)
      (DbSizeInUse wit_status) (DbSizeQuota wit_status)"
    by (simp add: wit_status_def wit_need)
  from RunCleanup_removes_oldest_first [OF insertion_sort_ok mem_etcd_ok(1,3,4,5) ep refl q need,
      of wit_kvs]
  obtain w2 P where "RunCleanup (\<lambda>_. 0) insertion_sort mem_etcd
      (NewCleanupManager main_cleanup_options) (Some wit_status) wit_kvs = Some w2"
    "w2 = filter P wit_kvs" by blast
  moreover have "sorted_wrt (\<lambda>x y. kv_Key x < kv_Key y) wit_kvs" by (simp add: wit_kvs_def) 
  ultimately show ?thesis by (simp add: sorted_wrt_filter)
qed

text \<open>
  C32. The target: with the ratio \<open>main\<close> passes, and sizes up to 2^53 bytes, the number of bytes to
  free is within four bytes of the usage above 60% of the quota, all roundings of \<open>float64\<close> and the
  truncation to \<open>int64\<close> included. So a cleanup that reaches its target brings the estimate to 60% of
  the quota, and one below it has nothing to do.
\<close>

theorem need_free_is_usage_above_60_percent:
  assumes "0 \<le> used" and "used \<le> 2 ^ 53" and "0 \<le> quota" and "quota \<le> 2 ^ 53"
  shows "\<bar>of_int (need_free oor (NewCleanupManager main_cleanup_options) used quota)
           - (of_int used - 3 / 5 * of_int quota)\<bar> \<le> (4 :: rat)
     \<and> (of_int used + 4 \<le> (3 / 5 * of_int quota :: rat) \<longrightarrow>
          RunCleanup oor srt cli (NewCleanupManager main_cleanup_options)
            (Some \<lparr>DbSizeInUse = used, DbSizeQuota = quota, Revision = hrev\<rparr>) w = Some w)"
proof -
  note close = need_free_close [OF assms, of oor]
  have "of_int (need_free oor (NewCleanupManager main_cleanup_options) used quota) \<le> (0 :: rat)"
    if "of_int used + 4 \<le> (3 / 5 * of_int quota :: rat)"
    using close that by linarith
  then show ?thesis using close by (auto simp: RunCleanup_def)
qed

theorem need_free_is_usage_above_60_percent_witness:
  "\<bar>of_int (need_free (\<lambda>_. 0) (NewCleanupManager main_cleanup_options) 90 100) - 30\<bar> \<le> (4 :: rat)
   \<and> RunCleanup (\<lambda>_. 0) insertion_sort mem_etcd (NewCleanupManager main_cleanup_options)
       (Some \<lparr>DbSizeInUse = 50, DbSizeQuota = 100, Revision = 7\<rparr>) wit_kvs = Some wit_kvs"
  using need_free_is_usage_above_60_percent [of 90 100 "\<lambda>_. 0"]
    need_free_is_usage_above_60_percent [of 50 100 "\<lambda>_. 0" insertion_sort mem_etcd 7 wit_kvs]
  by simp

text \<open>Which keys each of the two lists holds.\<close>

lemma listKeys_sets:
  assumes srt: "sort_slice_ok srt" and reads: "etcd_reads cli view"
    and l: "listKeys srt cli m w = (Inr (nonComp, comps), w')"
  shows "set nonComp = kv_info ` {x \<in> set (view w). strings_HasPrefix (kv_Key x) (m_prefix m) \<and> \<not> is_comp (m_prefix m) (kv_Key x)}"
    and "set comps = kv_info ` {x \<in> set (view w). strings_HasPrefix (kv_Key x) (m_prefix m) \<and> is_comp (m_prefix m) (kv_Key x)}"
proof -
  obtain kvs where get: "et_Get cli w (m_prefix m) [WithPrefix] = (Inr kvs, w')"
    and A: "nonComp = srt older (map kv_info (filter (\<lambda>x. \<not> is_comp (m_prefix m) (kv_Key x)) kvs))"
    and B: "comps = srt older (map kv_info (filter (\<lambda>x. is_comp (m_prefix m) (kv_Key x)) kvs))"
    using listKeys_cases [OF l] by metis
  have kvs: "kvs = filter (\<lambda>x. strings_HasPrefix (kv_Key x) (m_prefix m)) (view w)"
    using reads get unfolding etcd_reads_def range_select_prefix [symmetric] by (metis fst_conv)
  show "set nonComp = kv_info ` {x \<in> set (view w). strings_HasPrefix (kv_Key x) (m_prefix m) \<and> \<not> is_comp (m_prefix m) (kv_Key x)}"
    and "set comps = kv_info ` {x \<in> set (view w). strings_HasPrefix (kv_Key x) (m_prefix m) \<and> is_comp (m_prefix m) (kv_Key x)}"
    using srt by (auto simp: A B kvs sort_slice_set)
qed

lemma main_prefix [simp]: "m_prefix (NewCleanupManager main_cleanup_options) = ''''"
  by (simp add: NewCleanupManager_def main_cleanup_options_def)

text \<open>
  The sweeper as \<open>main\<close> configures it is not confined to the events: the prefix is empty, so the
  candidates for deletion are all the keys of the etcd cluster, and every key without a
  \<open>/comp-\<close> in it, event or not, is in the list that is deleted first. The README describes
  deletion of keys with the prefix \<open>krateo.io.events/\<close> only.
\<close>

theorem main_candidates_are_all_keys:
  assumes srt: "sort_slice_ok srt" and reads: "etcd_reads cli view"
    and l: "listKeys srt cli (NewCleanupManager main_cleanup_options) w = (Inr (nonComp, comps), w')"
  shows "ki_Key ` (set nonComp \<union> set comps) = kv_Key ` set (view w)
     \<and> (\<forall>x \<in> set (view w). \<not> strings_Contains (kv_Key x) ''/comp-'' \<longrightarrow>
          kv_Key x \<in> ki_Key ` set nonComp)"
using listKeys_sets [OF srt reads l] by (auto simp: image_Un image_image is_comp_def)

theorem main_candidates_are_all_keys_witness:
  "\<exists>nonComp comps w'. listKeys insertion_sort mem_etcd (NewCleanupManager main_cleanup_options) wit_kvs
       = (Inr (nonComp, comps), w') \<and> ''leader'' \<in> ki_Key ` set nonComp"
proof -
  obtain nonComp comps w' where l: "listKeys insertion_sort mem_etcd
      (NewCleanupManager main_cleanup_options) wit_kvs = (Inr (nonComp, comps), w')"
    using listKeys_view [OF insertion_sort_ok mem_etcd_ok(1,5)] by metis
  moreover have "wit_kvs ! 2 \<in> set wit_kvs" by (simp add: wit_kvs_def numeral_eq_Suc)
  moreover have "\<not> strings_Contains (kv_Key (wit_kvs ! 2)) ''/comp-''"
    by (simp add: wit_kvs_def numeral_eq_Suc)
  ultimately have "kv_Key (wit_kvs ! 2) \<in> ki_Key ` set nonComp"
    using main_candidates_are_all_keys [OF insertion_sort_ok mem_etcd_ok(1) l] by blast
  then have "''leader'' \<in> ki_Key ` set nonComp" by (simp add: wit_kvs_def numeral_eq_Suc)
  with l show ?thesis by blast
qed

section \<open>The order of deletion\<close>

text \<open>
  In the order of the two lists a key of the second goes only after all keys of the first, and an
  older key of the first list before a younger one.
\<close>

lemma gone_after_first_list:
  assumes "x \<notin> set ns" and "x \<in> set (take n (ns @ cs))" and "y \<in> set ns"
  shows "y \<in> set (take n (ns @ cs))"
  using assms by (cases "n \<le> length ns") (auto dest: in_set_takeD)

lemma gone_after_older:
  assumes "sorted (map f ns)" and "x \<in> set ns" and "y \<in> set (take n (ns @ cs))" and "y \<in> set ns \<Longrightarrow> f x < (f y :: int)"
  shows "x \<in> set (take n (ns @ cs))"
proof (cases "n \<le> length ns")
  case True
  then obtain i where i: "i < n" "i < length ns" "ns ! i = y" using assms(3) by (auto simp: in_set_conv_nth)
  obtain j where j: "j < length ns" "ns ! j = x" using assms(2) by (auto simp: in_set_conv_nth)
  have "f x < f y" using assms(4) i by auto
  then have "j < i" using sorted_nth_mono [OF assms(1), of i j] i j by (cases "i \<le> j") auto
  then show ?thesis using i j True by (auto simp: in_set_conv_nth intro!: exI [of _ j])
qed (use assms(2) in auto)

lemma key_space_unique: "key_space kvs \<Longrightarrow> x \<in> set kvs \<Longrightarrow> y \<in> set kvs \<Longrightarrow> kv_Key x = kv_Key y \<Longrightarrow> x = y"
  by (induction kvs) (auto simp: key_space_def)

text \<open>What is gone after a cleanup, read off the two lists.\<close>

lemma sweep_lists:
  assumes "sort_slice_ok srt" "etcd_reads cli view" "etcd_deletes cli view" "etcd_maintains cli view"
    "etcd_answers cli" "et_Endpoints cli \<noteq> []" and space: "key_space (view w)"
    and run: "RunCleanup oor srt cli (NewCleanupManager opts) status w = Some w'"
  obtains ns cs n where "sorted (map ki_CreateRev ns)"
    and "\<And>x. x \<in> set (view w) \<Longrightarrow> kv_info x \<in> set ns \<longleftrightarrow>
        strings_HasPrefix (kv_Key x) (opt_Prefix opts) \<and> \<not> is_comp (opt_Prefix opts) (kv_Key x)"
    and "\<And>x. x \<in> set (view w) \<Longrightarrow> x \<notin> set (view w') \<longleftrightarrow> kv_info x \<in> set (take n (ns @ cs))"
proof -
  have pre: "m_prefix (NewCleanupManager opts) = opt_Prefix opts" by (simp add: NewCleanupManager_def)
  obtain ns cs n where f: "mset ns + mset cs = mset (map kv_info (filter (\<lambda>x. strings_HasPrefix (kv_Key x) (opt_Prefix opts)) (view w)))"
    "\<forall>x \<in> set ns. \<not> is_comp (opt_Prefix opts) (ki_Key x)" "\<forall>x \<in> set cs. is_comp (opt_Prefix opts) (ki_Key x)"
    "sorted (map ki_CreateRev ns)"
    and v: "view w' = filter (\<lambda>x. kv_Key x \<notin> ki_Key ` set (take n (ns @ cs))) (view w)"
    using RunCleanup_effect [OF assms(1-6) refl, of oor opts status w] run unfolding pre by auto
  have sets: "set (ns @ cs) = kv_info ` {x \<in> set (view w). strings_HasPrefix (kv_Key x) (opt_Prefix opts)}"
    using arg_cong [OF f(1), of set_mset] by auto
  have "kv_info x \<in> set ns \<longleftrightarrow>
        strings_HasPrefix (kv_Key x) (opt_Prefix opts) \<and> \<not> is_comp (opt_Prefix opts) (kv_Key x)" if "x \<in> set (view w)" for x
  proof -
    have "kv_info x \<in> set (ns @ cs) \<longleftrightarrow> strings_HasPrefix (kv_Key x) (opt_Prefix opts)"
      unfolding sets using that by (auto simp: kv_info_def)
    then show ?thesis using f(2,3) by (auto simp: ki_info_simps)
  qed
  moreover have "x \<notin> set (view w') \<longleftrightarrow> kv_info x \<in> set (take n (ns @ cs))" if x: "x \<in> set (view w)" for x
  proof
    assume "x \<notin> set (view w')"
    then have "kv_Key x \<in> ki_Key ` set (take n (ns @ cs))" using x by (simp add: v del: take_append)
    then obtain k where k: "k \<in> set (take n (ns @ cs))" "ki_Key k = kv_Key x" by (metis imageE)
    then have "k \<in> set (ns @ cs)" by (meson in_set_takeD)
    then obtain y where y: "y \<in> set (view w)" "k = kv_info y" unfolding sets by blast
    then have "y = x" using key_space_unique [OF space y(1) x] k(2) by simp
    then show "kv_info x \<in> set (take n (ns @ cs))" using k y by simp
  qed (force simp: v)
  ultimately show ?thesis using that f(4) by blast
qed

end
