(* ===== verification/Watcher.thy ===== *)
theory Watcher
  imports Cleanup
begin

text \<open>
  The sweeper's usage watcher (\<open>sweeper/internal/util/etcd/monitor.go\<close>), its wiring in
  \<open>sweeper/main.go\<close> and the retrying constructor of the etcd client
  (\<open>sweeper/internal/util/etcd/client.go\<close>).

  The watcher loop, the goroutines that run a cleanup and the signal handler share one flag,
  \<open>suspended\<close>, each access under the mutex. They are modelled as a step relation: one rule per
  access to the flag, per status call and per goroutine event, so that every interleaving is a run.
\<close>

section \<open>Configuration and threshold\<close>

record UsageWatcherConfig =
  cfg_Threshold :: float64
  cfg_Interval :: int

record UsageWatcher =
  uw_threshold :: float64
  uw_interval :: int

definition NewUsageWatcher :: "UsageWatcherConfig \<Rightarrow> UsageWatcher" where
  "NewUsageWatcher cfg =
     \<lparr>uw_threshold =
        (if f64_le (cfg_Threshold cfg) (Fin 0) \<or> f64_less (Fin 1) (cfg_Threshold cfg)
         then f64 (8 / 10) else cfg_Threshold cfg),
      uw_interval = (if cfg_Interval cfg \<le> 0 then 15 * 10 ^ 9 else cfg_Interval cfg)\<rparr>"

definition usage_ratio :: "status_response \<Rightarrow> float64" where
  "usage_ratio st = f64_div (f64_of_int (DbSizeInUse st)) (f64_of_int (DbSizeQuota st))"

definition over_threshold :: "UsageWatcher \<Rightarrow> status_response \<Rightarrow> bool" where
  "over_threshold uw st = f64_le (uw_threshold uw) (usage_ratio st)"

text \<open>
  The methods on the flag; the mutex makes each of them one step. \<open>main\<close> passes a callback that
  suspends the watcher and starts a goroutine, which runs the cleanup and resumes the watcher.
\<close>

definition Suspend :: "bool \<Rightarrow> bool" where
  "Suspend suspended = (if \<not> suspended then True else suspended)"

definition Resume :: "bool \<Rightarrow> bool" where
  "Resume suspended = (if suspended then False else suspended)"

definition IsSuspended :: "bool \<Rightarrow> bool" where
  "IsSuspended suspended = suspended"

lemma flag_methods [simp]: "Suspend b = True" "Resume b = False" "IsSuspended b = b"
  by (simp_all add: Suspend_def Resume_def IsSuspended_def)

section \<open>The watcher and the cleanup goroutines\<close>

text \<open>
  Where the watcher goroutine is: waiting in the \<open>select\<close>, in \<open>checkUsage\<close> with the endpoints
  still to query, inside the callback before its call of \<open>Suspend\<close> or before it starts the
  goroutine, or about to make the call of \<open>Suspend\<close> that follows the callback.
\<close>

datatype watch_pc =
    AtSelect
  | Checking "string list"
  | InCallback status_response "string list"
  | Spawning status_response "string list"
  | Suspending "string list"
  | Stopped

record watch_sys =
  ws_pc :: watch_pc
  ws_suspended :: bool
  ws_cancelled :: bool
  ws_cleaning :: "status_response multiset"
  ws_resuming :: nat

definition watch_init :: "watch_sys \<Rightarrow> bool" where
  "watch_init s \<longleftrightarrow> s = \<lparr>ws_pc = AtSelect, ws_suspended = False, ws_cancelled = False,
                        ws_cleaning = {#}, ws_resuming = 0\<rparr>"

inductive watch_step :: "UsageWatcher \<Rightarrow> string list \<Rightarrow> watch_sys \<Rightarrow> watch_sys \<Rightarrow> bool"
  for uw :: UsageWatcher and eps :: "string list" where
  tick_suspended: "ws_pc s = AtSelect \<Longrightarrow> IsSuspended (ws_suspended s) \<Longrightarrow>
    watch_step uw eps s s"
| tick_check: "ws_pc s = AtSelect \<Longrightarrow> \<not> IsSuspended (ws_suspended s) \<Longrightarrow>
    watch_step uw eps s (s\<lparr>ws_pc := Checking eps\<rparr>)"
| check_done: "ws_pc s = Checking [] \<Longrightarrow> watch_step uw eps s (s\<lparr>ws_pc := AtSelect\<rparr>)"
| check_error: "ws_pc s = Checking (ep # es) \<Longrightarrow> watch_step uw eps s (s\<lparr>ws_pc := Checking es\<rparr>)"
| check_below: "ws_pc s = Checking (ep # es) \<Longrightarrow> \<not> over_threshold uw st \<Longrightarrow>
    watch_step uw eps s (s\<lparr>ws_pc := Checking es\<rparr>)"
| check_over: "ws_pc s = Checking (ep # es) \<Longrightarrow> over_threshold uw st \<Longrightarrow>
    watch_step uw eps s (s\<lparr>ws_pc := InCallback st es\<rparr>)"
| callback_suspend: "ws_pc s = InCallback st es \<Longrightarrow>
    watch_step uw eps s (s\<lparr>ws_pc := Spawning st es, ws_suspended := Suspend (ws_suspended s)\<rparr>)"
| callback_spawn: "ws_pc s = Spawning st es \<Longrightarrow>
    watch_step uw eps s (s\<lparr>ws_pc := Suspending es, ws_cleaning := add_mset st (ws_cleaning s)\<rparr>)"
| after_callback: "ws_pc s = Suspending es \<Longrightarrow>
    watch_step uw eps s (s\<lparr>ws_pc := Checking es, ws_suspended := Suspend (ws_suspended s)\<rparr>)"
| cleanup_returns: "st \<in># ws_cleaning s \<Longrightarrow>
    watch_step uw eps s (s\<lparr>ws_cleaning := ws_cleaning s - {#st#}, ws_resuming := ws_resuming s + 1\<rparr>)"
| cleanup_resumes: "0 < ws_resuming s \<Longrightarrow>
    watch_step uw eps s (s\<lparr>ws_suspended := Resume (ws_suspended s), ws_resuming := ws_resuming s - 1\<rparr>)"
| cancel: "watch_step uw eps s (s\<lparr>ws_cancelled := True\<rparr>)"
| stop: "ws_pc s = AtSelect \<Longrightarrow> ws_cancelled s \<Longrightarrow> watch_step uw eps s (s\<lparr>ws_pc := Stopped\<rparr>)"

inductive_cases watch_stepE: "watch_step uw eps s t"

section \<open>Invariants\<close>

text \<open>
  In every run: a status is only ever handed to a cleanup when it was over the threshold.
\<close>

fun pc_status_ok :: "UsageWatcher \<Rightarrow> watch_pc \<Rightarrow> bool" where
  "pc_status_ok uw (InCallback st es) = over_threshold uw st"
| "pc_status_ok uw (Spawning st es) = over_threshold uw st"
| "pc_status_ok uw pc = True"

definition only_over :: "UsageWatcher \<Rightarrow> watch_sys \<Rightarrow> bool" where
  "only_over uw s \<longleftrightarrow> pc_status_ok uw (ws_pc s) \<and> (\<forall>st \<in># ws_cleaning s. over_threshold uw st)"

interpretation watch_over: transition_system watch_init "watch_step uw eps" "only_over uw"
  for uw eps
proof
  fix s assume "watch_init s"
  then show "only_over uw s" by (simp add: watch_init_def only_over_def)
next
  fix s t assume "only_over uw s" and "watch_step uw eps s t"
  then show "only_over uw t"
    by (auto elim!: watch_stepE simp: only_over_def) (meson in_diffD)
qed

text \<open>
  With one endpoint, cleanups exclude each other. A cleanup in flight is one that was started and
  has not resumed the watcher; between the callback's \<open>Suspend\<close> and the next tick that finds the flag
  clear there is at most one.
\<close>

definition in_flight :: "watch_sys \<Rightarrow> nat" where
  "in_flight s = size (ws_cleaning s) + ws_resuming s"

fun one_endpoint_pc :: "watch_sys \<Rightarrow> watch_pc \<Rightarrow> bool" where
  "one_endpoint_pc s AtSelect = (in_flight s \<le> 1 \<and> (\<not> ws_suspended s \<longrightarrow> in_flight s = 0))"
| "one_endpoint_pc s (Checking es) =
     (length es \<le> 1 \<and> in_flight s \<le> 1 \<and> (es \<noteq> [] \<or> \<not> ws_suspended s \<longrightarrow> in_flight s = 0))"
| "one_endpoint_pc s (InCallback st es) = (es = [] \<and> in_flight s = 0)"
| "one_endpoint_pc s (Spawning st es) = (es = [] \<and> in_flight s = 0 \<and> ws_suspended s)"
| "one_endpoint_pc s (Suspending es) = (es = [] \<and> in_flight s \<le> 1)"
| "one_endpoint_pc s Stopped = (in_flight s \<le> 1)"

definition exclusive :: "watch_sys \<Rightarrow> bool" where
  "exclusive s \<longleftrightarrow> one_endpoint_pc s (ws_pc s)"

lemma size_remove1: "x \<in># M \<Longrightarrow> size (M - {#x#}) + 1 = size M"
  by (metis Suc_eq_plus1 insert_DiffM size_add_mset)

lemma watch_exclusive_step:
  assumes "exclusive s" and "watch_step uw [ep] s t"
  shows "exclusive t"
  using assms(2)
proof cases
  case (cleanup_returns st)
  then have "in_flight t = in_flight s"
    using size_remove1 [of st "ws_cleaning s"] by (simp add: in_flight_def)
  with cleanup_returns assms(1) show ?thesis
    by (cases "ws_pc s") (auto simp: exclusive_def)
next
  case cleanup_resumes
  then have "in_flight s = in_flight t + 1" by (simp add: in_flight_def)
  with cleanup_resumes assms(1) show ?thesis
    by (cases "ws_pc s") (auto simp: exclusive_def)
next
  case cancel
  have "in_flight t = in_flight s" using cancel by (simp add: in_flight_def)
  with cancel assms(1) show ?thesis
    by (cases "ws_pc s") (auto simp: exclusive_def)
qed (use assms(1) in \<open>auto simp: exclusive_def in_flight_def\<close>)

interpretation watch_excl: transition_system watch_init "watch_step uw [ep]" exclusive
  for uw ep
proof
  show "exclusive s" if "watch_init s" for s
    using that by (simp add: watch_init_def exclusive_def in_flight_def)
qed (rule watch_exclusive_step)

section \<open>The stalled watcher\<close>

text \<open>
  The callback suspends the watcher itself before it starts the cleanup, and \<open>checkUsage\<close> suspends
  it once more after the callback. A cleanup that finishes in between resumes first; the second
  call then leaves the flag set with nothing left that clears it.
\<close>

definition stalled :: "watch_sys \<Rightarrow> bool" where
  "stalled s \<longleftrightarrow> ws_suspended s \<and> (ws_pc s = AtSelect \<or> ws_pc s = Stopped)
     \<and> ws_cleaning s = {#} \<and> ws_resuming s = 0"

lemma stalled_step: "stalled s \<Longrightarrow> watch_step uw eps s t \<Longrightarrow> stalled t"
  by (auto elim!: watch_stepE simp: stalled_def)

lemma stalled_run:
  assumes "(watch_step uw eps)\<^sup>*\<^sup>* s t" and "stalled s"
  shows "stalled t"
  using assms by (induction rule: rtranclp_induct) (auto intro: stalled_step)

abbreviation watch_start :: watch_sys where
  "watch_start \<equiv> \<lparr>ws_pc = AtSelect, ws_suspended = False, ws_cancelled = False,
                   ws_cleaning = {#}, ws_resuming = 0\<rparr>"

lemma run_into_callback:
  assumes "over_threshold uw st"
  shows "(watch_step uw (ep # es))\<^sup>*\<^sup>* watch_start
           \<lparr>ws_pc = Suspending es, ws_suspended = True, ws_cancelled = False,
            ws_cleaning = {#st#}, ws_resuming = 0\<rparr>"
proof -
  let ?step = "watch_step uw (ep # es)"
  have "?step watch_start (watch_start\<lparr>ws_pc := Checking (ep # es)\<rparr>)"
    by (rule tick_check) simp_all
  also have "?step\<^sup>*\<^sup>* \<dots> (watch_start\<lparr>ws_pc := InCallback st es\<rparr>)"
    using check_over [of "watch_start\<lparr>ws_pc := Checking (ep # es)\<rparr>" ep es uw st "ep # es"] assms
    by (auto intro: r_into_rtranclp)
  also have "?step\<^sup>*\<^sup>* \<dots> (watch_start\<lparr>ws_pc := Spawning st es, ws_suspended := True\<rparr>)"
    using callback_suspend [of "watch_start\<lparr>ws_pc := InCallback st es\<rparr>" st es uw "ep # es"]
    by (auto intro: r_into_rtranclp)
  also have "?step\<^sup>*\<^sup>* \<dots> \<lparr>ws_pc = Suspending es, ws_suspended = True, ws_cancelled = False,
      ws_cleaning = {#st#}, ws_resuming = 0\<rparr>"
    using callback_spawn [of "watch_start\<lparr>ws_pc := Spawning st es, ws_suspended := True\<rparr>" st es uw
        "ep # es"]
    by (auto intro: r_into_rtranclp)
  finally show ?thesis .
qed

lemma run_cleanup_through:
  assumes "ws_cleaning s = {#st#}" and "ws_resuming s = 0"
  shows "(watch_step uw eps)\<^sup>*\<^sup>* s (s\<lparr>ws_suspended := False, ws_cleaning := {#}\<rparr>)"
proof -
  let ?m = "s\<lparr>ws_cleaning := {#}, ws_resuming := 1\<rparr>"
  have "watch_step uw eps s ?m"
    using cleanup_returns [of st s uw eps] assms by simp
  moreover have "watch_step uw eps ?m (s\<lparr>ws_suspended := False, ws_cleaning := {#}\<rparr>)"
    using cleanup_resumes [of ?m uw eps] assms by (cases s) simp
  ultimately show ?thesis by (meson converse_rtranclp_into_rtranclp r_into_rtranclp)
qed

section \<open>The threshold test\<close>

text \<open>
  The test compares rounded quotients. For sizes that are exact in \<open>float64\<close> and a threshold that is a
  float, it never misses a usage at or above the threshold, and it accepts no usage that is lower
  by more than two parts in 2^53.
\<close>

lemma usage_ratio_exact:
  assumes "0 \<le> used" "used \<le> quota" "0 < quota" "quota \<le> 2 ^ 53"
  shows "usage_ratio \<lparr>DbSizeInUse = used, DbSizeQuota = quota, Revision = hrev\<rparr>
           = Fin (fl64 (of_int used / of_int quota))"
proof -
  have "(of_int used :: rat) \<le> of_int quota" using assms(2) by (simp only: of_int_le_iff)
  then have "\<bar>of_int used / of_int quota\<bar> \<le> (1 :: rat)"
    using assms by (simp add: divide_le_eq)
  then have "f64 (of_int used / of_int quota) = Fin (fl64 (of_int used / of_int quota))"
    by (intro f64_small) simp
  with assms show ?thesis by (simp add: usage_ratio_def f64_of_int_exact)
qed

lemma over_threshold_iff:
  assumes "0 \<le> used" "used \<le> quota" "0 < quota" "quota \<le> 2 ^ 53" and "uw_threshold uw = Fin t"
  shows "over_threshold uw \<lparr>DbSizeInUse = used, DbSizeQuota = quota, Revision = hrev\<rparr>
           \<longleftrightarrow> t \<le> fl64 (of_int used / of_int quota)"
  using assms by (simp add: over_threshold_def usage_ratio_exact)

lemma over_threshold_lower:
  assumes used: "0 \<le> used" "used \<le> quota" "0 < quota" "quota \<le> 2 ^ 53"
    and t: "uw_threshold uw = Fin t"
    and ov: "over_threshold uw \<lparr>DbSizeInUse = used, DbSizeQuota = quota, Revision = hrev\<rparr>"
  shows "(t - 2 / 2 ^ 53) * of_int quota \<le> of_int used"
proof -
  let ?r = "of_int used / of_int quota :: rat"
  have q: "(0 :: rat) < of_int quota" using used by simp
  have "0 \<le> ?r" "?r \<le> 1" using used by (simp_all add: divide_le_eq)
  have "\<bar>fl64 ?r - ?r\<bar> \<le> (\<bar>?r\<bar> + 1) / 2 ^ 53" by (rule fl64_error)
  also have "\<dots> \<le> 2 / 2 ^ 53"
    using \<open>0 \<le> ?r\<close> \<open>?r \<le> 1\<close> by (intro divide_right_mono) simp_all
  finally have "fl64 ?r \<le> ?r + 2 / 2 ^ 53" by linarith
  moreover have "t \<le> fl64 ?r" using over_threshold_iff [OF used t] ov by blast
  ultimately have "t - 2 / 2 ^ 53 \<le> ?r" by linarith
  then show ?thesis using q by (simp add: le_divide_eq)
qed

section \<open>Retrying the connection\<close>

text \<open>
  \<open>fn\<close> is one attempt, \<open>ctx_err\<close> reads the context's error and \<open>sleep\<close> is the \<open>select\<close> between
  the delay and the context: its flag says that the context ended the wait.
\<close>

datatype ('c, 'e) retry_error = RetryCtx 'c | RetryExhausted int "'e option"

fun retry_loop ::
  "('w \<Rightarrow> 'c option) \<Rightarrow> ('w \<Rightarrow> bool \<times> 'w) \<Rightarrow> ('w \<Rightarrow> 'e option \<times> 'w) \<Rightarrow> int \<Rightarrow> nat \<Rightarrow> 'e option \<Rightarrow> 'w
     \<Rightarrow> ('c, 'e) retry_error option \<times> 'w" where
  "retry_loop ctx_err sleep fn attempts 0 err w = (Some (RetryExhausted attempts err), w)"
| "retry_loop ctx_err sleep fn attempts (Suc n) err w =
     (case ctx_err w of
        Some c \<Rightarrow> (Some (RetryCtx c), w)
      | None \<Rightarrow>
          (case fn w of
             (None, w1) \<Rightarrow> (None, w1)
           | (Some e, w1) \<Rightarrow>
               (case sleep w1 of
                  (True, w2) \<Rightarrow> (map_option RetryCtx (ctx_err w2), w2)
                | (False, w2) \<Rightarrow> retry_loop ctx_err sleep fn attempts n (Some e) w2)))"

definition retryWithContext ::
  "('w \<Rightarrow> 'c option) \<Rightarrow> ('w \<Rightarrow> bool \<times> 'w) \<Rightarrow> ('w \<Rightarrow> 'e option \<times> 'w) \<Rightarrow> int \<Rightarrow> 'w
     \<Rightarrow> ('c, 'e) retry_error option \<times> 'w" where
  "retryWithContext ctx_err sleep fn attempts w =
     retry_loop ctx_err sleep fn attempts (nat attempts) None w"

text \<open>
  \<open>NewEtcdClient\<close>: five attempts; \<open>new\<close> is \<open>clientv3.New\<close>, whose client the closure keeps in a
  variable of the caller.
\<close>

definition NewEtcdClient ::
  "('w \<Rightarrow> 'c option) \<Rightarrow> ('w \<Rightarrow> bool \<times> 'w) \<Rightarrow> ('w \<Rightarrow> ('e + 'cli) \<times> 'w) \<Rightarrow> 'w
     \<Rightarrow> (('c, 'e) retry_error + 'cli option) \<times> 'w" where
  "NewEtcdClient ctx_err sleep new w =
     (let attempt = (\<lambda>(cli, v). case new v of
                        (Inr c, v') \<Rightarrow> (None, (Some c, v'))
                      | (Inl e, v') \<Rightarrow> (Some e, (None, v')));
          (r, (cli, w')) = retryWithContext (\<lambda>(cli, v). ctx_err v)
              (\<lambda>(cli, v). case sleep v of (d, v') \<Rightarrow> (d, (cli, v'))) attempt 5 (None, w)
      in (case r of None \<Rightarrow> Inr cli | Some e \<Rightarrow> Inl e, w'))"

text \<open>\<open>failed_round w w'\<close>: the context is live, an attempt fails, and the delay passes.\<close>

definition failed_round ::
  "('w \<Rightarrow> 'c option) \<Rightarrow> ('w \<Rightarrow> bool \<times> 'w) \<Rightarrow> ('w \<Rightarrow> 'e option \<times> 'w) \<Rightarrow> 'w \<Rightarrow> 'w \<Rightarrow> bool" where
  "failed_round ctx_err sleep fn w w' \<longleftrightarrow>
     ctx_err w = None \<and> fst (fn w) \<noteq> None \<and> sleep (snd (fn w)) = (False, w')"

lemma relpowp_Suc_first: "(R ^^ Suc k) x z \<longleftrightarrow> (\<exists>y. R x y \<and> (R ^^ k) y z)"
  by (metis relpowp_Suc_D2 relpowp_Suc_I2)

lemma retry_loop_success:
  assumes live: "\<And>v v'. sleep v = (True, v') \<Longrightarrow> ctx_err v' \<noteq> None"
  shows "retry_loop ctx_err sleep fn a n err w = (None, w') \<longleftrightarrow>
     (\<exists>k < n. \<exists>v. (failed_round ctx_err sleep fn ^^ k) w v \<and> ctx_err v = None \<and> fn v = (None, w'))"
    (is "?L n err w \<longleftrightarrow> ?R n w")
proof (induction n arbitrary: err w)
  case 0
  then show ?case by simp
next
  case (Suc n)
  let ?F = "failed_round ctx_err sleep fn"
  have split: "?R (Suc n) w \<longleftrightarrow>
      ctx_err w = None \<and> fn w = (None, w') \<or> (\<exists>y. ?F w y \<and> ?R n y)"
  proof -
    have "?R (Suc n) w \<longleftrightarrow> (\<exists>v. (?F ^^ 0) w v \<and> ctx_err v = None \<and> fn v = (None, w'))
        \<or> (\<exists>k < n. \<exists>v. (?F ^^ Suc k) w v \<and> ctx_err v = None \<and> fn v = (None, w'))"
      by (metis Suc_less_eq less_Suc_eq_0_disj)
    also have "\<dots> \<longleftrightarrow> ctx_err w = None \<and> fn w = (None, w') \<or> (\<exists>y. ?F w y \<and> ?R n y)"
      unfolding relpowp_Suc_first relpowp.simps(1) by blast
    finally show ?thesis .
  qed
  obtain r w1 where fw: "fn w = (r, w1)" by fastforce
  obtain d w2 where sw: "sleep w1 = (d, w2)" by fastforce
  have round: "?F w y \<longleftrightarrow> ctx_err w = None \<and> r \<noteq> None \<and> \<not> d \<and> y = w2" for y
    by (auto simp: failed_round_def fw sw)
  show ?case
    unfolding split round using Suc.IH live [of w1 w2]
    by (cases "ctx_err w"; cases r; cases d) (simp_all add: fw sw)
qed


section \<open>What the watcher guarantees\<close>

definition default_watcher :: UsageWatcher where
  "default_watcher = NewUsageWatcher \<lparr>cfg_Threshold = Fin 0, cfg_Interval = 0\<rparr>"

definition high_status :: status_response where
  "high_status = \<lparr>DbSizeInUse = 3, DbSizeQuota = 2, Revision = 7\<rparr>"

lemma fl64_threshold: "fl64 (8 / 10) \<le> 1"
  using fl64_mono [of "8 / 10" 1] fl64_of_int [of 1] by simp

lemma default_threshold: "uw_threshold default_watcher = Fin (fl64 (8 / 10))"
  by (simp add: default_watcher_def NewUsageWatcher_def f64_small)

lemma usage_ratio_high: "usage_ratio high_status = Fin (3 / 2)"
proof -
  have "fl64 (of_int 3 * 2 powi (- 1)) = of_int 3 * 2 powi (- 1)"
    by (rule fl64_exact [of _ 3 "-1"]) simp_all
  then have "fl64 (3 / 2) = 3 / 2" by (simp add: power_int_minus)
  then show ?thesis
    by (simp add: usage_ratio_def high_status_def f64_of_int_exact f64_small)
qed

lemma default_over_high: "over_threshold default_watcher high_status"
  using fl64_threshold by (simp add: over_threshold_def usage_ratio_high default_threshold)

text \<open>
  In every interleaving of the watcher with the cleanups it starts, a cleanup is only ever run
  with a status whose used-to-quota ratio reached the configured threshold.
\<close>

theorem cleanups_are_over_threshold:
  assumes "watch_init s" and "(watch_step uw eps)\<^sup>*\<^sup>* s t" and "st \<in># ws_cleaning t"
  shows "over_threshold uw st"
  using watch_over.reachable_inv [OF assms(1,2)] assms(3) by (simp add: only_over_def)

theorem cleanups_are_over_threshold_witness:
  "\<exists>t. (watch_step default_watcher [''a''])\<^sup>*\<^sup>* watch_start t \<and> high_status \<in># ws_cleaning t
     \<and> over_threshold default_watcher high_status"
proof -
  let ?t = "\<lparr>ws_pc = Suspending [], ws_suspended = True, ws_cancelled = False,
             ws_cleaning = {#high_status#}, ws_resuming = 0\<rparr>"
  have run: "(watch_step default_watcher [''a''])\<^sup>*\<^sup>* watch_start ?t"
    by (rule run_into_callback) (rule default_over_high)
  moreover have "watch_init watch_start" by (simp add: watch_init_def)
  moreover have "high_status \<in># ws_cleaning ?t" by simp
  ultimately show ?thesis using cleanups_are_over_threshold by blast
qed

text \<open>
  C29. With a single endpoint the flag excludes overlapping cleanups: in every reachable state at most
  one cleanup has been started and has not yet resumed the watcher, and none when the watcher is
  waiting with the flag clear, so a tick that checks the usage finds no cleanup running.
\<close>

theorem one_endpoint_one_cleanup:
  assumes "watch_init s" and "(watch_step uw [ep])\<^sup>*\<^sup>* s t"
  shows "in_flight t \<le> 1 \<and> (ws_pc t = AtSelect \<and> \<not> ws_suspended t \<longrightarrow> in_flight t = 0)"
  using watch_excl.reachable_inv [OF assms] by (cases "ws_pc t") (auto simp: exclusive_def)

theorem one_endpoint_one_cleanup_witness:
  "\<exists>t. (watch_step default_watcher [''a''])\<^sup>*\<^sup>* watch_start t \<and> in_flight t = 1
     \<and> (in_flight t \<le> 1 \<and> (ws_pc t = AtSelect \<and> \<not> ws_suspended t \<longrightarrow> in_flight t = 0))"
proof -
  let ?t = "\<lparr>ws_pc = Suspending [], ws_suspended = True, ws_cancelled = False,
             ws_cleaning = {#high_status#}, ws_resuming = 0\<rparr>"
  have "(watch_step default_watcher [''a''])\<^sup>*\<^sup>* watch_start ?t"
    by (rule run_into_callback) (rule default_over_high)
  moreover have "watch_init watch_start" by (simp add: watch_init_def)
  moreover have "in_flight ?t = 1" by (simp add: in_flight_def)
  ultimately show ?thesis using one_endpoint_one_cleanup by blast
qed

lemma run_checks_fail:
  assumes "ws_pc s = Checking es"
  shows "(watch_step uw eps)\<^sup>*\<^sup>* s (s\<lparr>ws_pc := AtSelect\<rparr>)"
  using assms
proof (induction es arbitrary: s)
  case Nil
  then show ?case by (auto intro: check_done)
next
  case (Cons e es)
  then have "watch_step uw eps s (s\<lparr>ws_pc := Checking es\<rparr>)" by (auto intro: check_error)
  moreover have "(watch_step uw eps)\<^sup>*\<^sup>* (s\<lparr>ws_pc := Checking es\<rparr>) (s\<lparr>ws_pc := AtSelect\<rparr>)"
    using Cons.IH [of "s\<lparr>ws_pc := Checking es\<rparr>"] by simp
  ultimately show ?case by (rule converse_rtranclp_into_rtranclp)
qed

text \<open>
  C7. The watcher can switch itself off for good. When an endpoint is over the threshold, there is
  a run in which the cleanup goroutine finishes, and resumes the watcher, before \<open>checkUsage\<close> makes
  its own call of \<open>Suspend\<close>; the flag is then set with no cleanup left to clear it, and in no
  continuation does the watcher check the usage or start a cleanup again.
\<close>

theorem watcher_can_stall:
  assumes "over_threshold uw st"
  shows "\<exists>s. (watch_step uw (ep # es))\<^sup>*\<^sup>* watch_start s \<and> ws_pc s = AtSelect \<and> \<not> ws_cancelled s
     \<and> (\<forall>t. (watch_step uw (ep # es))\<^sup>*\<^sup>* s t \<longrightarrow>
           ws_suspended t \<and> (ws_pc t = AtSelect \<or> ws_pc t = Stopped) \<and> in_flight t = 0)"
proof -
  let ?step = "watch_step uw (ep # es)"
  let ?m = "\<lparr>ws_pc = Suspending es, ws_suspended = True, ws_cancelled = False,
             ws_cleaning = {#st#}, ws_resuming = 0\<rparr>"
  let ?n = "?m\<lparr>ws_suspended := False, ws_cleaning := {#}\<rparr>"
  let ?c = "?n\<lparr>ws_pc := Checking es, ws_suspended := True\<rparr>"
  let ?s = "?c\<lparr>ws_pc := AtSelect\<rparr>"
  have "?step\<^sup>*\<^sup>* watch_start ?m" by (rule run_into_callback) (rule assms)
  moreover have "?step\<^sup>*\<^sup>* ?m ?n" by (rule run_cleanup_through) simp_all
  moreover have "?step ?n ?c" using after_callback [of ?n es uw "ep # es"] by simp
  moreover have "?step\<^sup>*\<^sup>* ?c ?s" by (rule run_checks_fail) simp
  ultimately have "?step\<^sup>*\<^sup>* watch_start ?s"
    by (meson converse_rtranclp_into_rtranclp rtranclp_trans)
  moreover have "stalled t" if "?step\<^sup>*\<^sup>* ?s t" for t
    using that by (rule stalled_run) (simp add: stalled_def)
  ultimately show ?thesis
    by (intro exI [of _ ?s]) (auto simp: stalled_def in_flight_def)
qed

theorem watcher_can_stall_witness:
  "\<exists>s. (watch_step default_watcher [''a''])\<^sup>*\<^sup>* watch_start s \<and> ws_pc s = AtSelect \<and> \<not> ws_cancelled s
     \<and> (\<forall>t. (watch_step default_watcher [''a''])\<^sup>*\<^sup>* s t \<longrightarrow>
           ws_suspended t \<and> (ws_pc t = AtSelect \<or> ws_pc t = Stopped) \<and> in_flight t = 0)"
  by (rule watcher_can_stall [of default_watcher high_status]) (rule default_over_high)

text \<open>
  C30. With two endpoints over the threshold the cleanups overlap: there is a run in which the watcher
  waits with its flag clear, ready to check the usage again, while a cleanup is still running,
  because one goroutine's \<open>Resume\<close> undoes the suspension that the other one relies on.
\<close>

theorem two_endpoints_cleanups_overlap:
  assumes "over_threshold uw st" and "over_threshold uw st'"
  shows "\<exists>s. (watch_step uw [ep, ep'])\<^sup>*\<^sup>* watch_start s \<and> ws_pc s = AtSelect
     \<and> \<not> IsSuspended (ws_suspended s) \<and> ws_cleaning s = {#st'#}"
proof -
  let ?step = "watch_step uw [ep, ep']"
  let ?a = "\<lparr>ws_pc = Suspending [ep'], ws_suspended = True, ws_cancelled = False,
             ws_cleaning = {#st#}, ws_resuming = 0\<rparr>"
  let ?b = "?a\<lparr>ws_pc := Checking [ep']\<rparr>"
  let ?c = "?a\<lparr>ws_pc := InCallback st' []\<rparr>"
  let ?d = "?a\<lparr>ws_pc := Spawning st' []\<rparr>"
  let ?e = "?a\<lparr>ws_pc := Suspending [], ws_cleaning := {#st', st#}\<rparr>"
  let ?f = "?e\<lparr>ws_pc := Checking []\<rparr>"
  let ?g = "?e\<lparr>ws_pc := AtSelect\<rparr>"
  let ?h = "?g\<lparr>ws_cleaning := {#st'#}, ws_resuming := 1\<rparr>"
  let ?i = "?g\<lparr>ws_cleaning := {#st'#}, ws_suspended := False\<rparr>"
  have "?step\<^sup>*\<^sup>* watch_start ?a" by (rule run_into_callback) (rule assms)
  also have "?step ?a ?b" using after_callback [of ?a "[ep']" uw "[ep, ep']"] by simp
  also have "?step ?b ?c" using check_over [of ?b ep' "[]" uw st' "[ep, ep']"] assms by simp
  also have "?step ?c ?d" using callback_suspend [of ?c st' "[]" uw "[ep, ep']"] by simp
  also have "?step ?d ?e" using callback_spawn [of ?d st' "[]" uw "[ep, ep']"] by simp
  also have "?step ?e ?f" using after_callback [of ?e "[]" uw "[ep, ep']"] by simp
  also have "?step ?f ?g" using check_done [of ?f uw "[ep, ep']"] by simp
  also have "?step ?g ?h" using cleanup_returns [of st ?g uw "[ep, ep']"] by simp
  also have "?step ?h ?i" using cleanup_resumes [of ?h uw "[ep, ep']"] by simp
  finally have "?step\<^sup>*\<^sup>* watch_start ?i" .
  then show ?thesis by (intro exI [of _ ?i]) simp
qed

theorem two_endpoints_cleanups_overlap_witness:
  "\<exists>s. (watch_step default_watcher [''a'', ''b''])\<^sup>*\<^sup>* watch_start s \<and> ws_pc s = AtSelect
     \<and> \<not> IsSuspended (ws_suspended s) \<and> ws_cleaning s = {#high_status#}"
  by (rule two_endpoints_cleanups_overlap) (rule default_over_high)+

lemma threshold_leaves_work:
  fixes used quota :: int
  assumes used: "0 \<le> used" "used \<le> quota" "64 \<le> quota" "quota \<le> 2 ^ 53"
    and t: "uw_threshold uw = Fin t" "7 / 10 \<le> t"
    and ov: "over_threshold uw \<lparr>DbSizeInUse = used, DbSizeQuota = quota, Revision = hrev\<rparr>"
  shows "0 < need_free oor (NewCleanupManager main_cleanup_options) used quota"
proof -
  let ?q = "of_int quota :: rat" and ?u = "of_int used :: rat"
  let ?n = "of_int (need_free oor (NewCleanupManager main_cleanup_options) used quota) :: rat"
  have q: "64 \<le> ?q" using used(3) by simp
  have "(69 / 100) * ?q \<le> (t - 2 / 2 ^ 53) * ?q"
    using t(2) q by (intro mult_right_mono) simp_all
  also have "\<dots> \<le> ?u"
    using over_threshold_lower [OF _ _ _ _ t(1) ov] used by linarith
  finally have "4 < ?u - 3 / 5 * ?q" using q by linarith
  moreover have "\<bar>?n - (?u - 3 / 5 * ?q)\<bar> \<le> 4"
    using used by (intro need_free_close) linarith+
  ultimately have "0 < ?n" by linarith
  then show ?thesis by simp
qed

text \<open>
  C31. The threshold test on \<open>float64\<close>: for a threshold that is a float and sizes up to 2^53 bytes,
  a usage at or above the threshold is always seen, a usage the test accepts is below the threshold
  by at most two parts in 2^53 of the quota, and for a threshold of 0.7 or more (the default is
  0.8) and a quota of at least 64 bytes the cleanup it starts has bytes to free.
\<close>

theorem threshold_test_is_sharp:
  fixes used quota hrev :: int
  assumes "0 \<le> used" and "used \<le> quota" and "0 < quota" and "quota \<le> 2 ^ 53"
    and "uw_threshold uw = Fin t" and "fl64 t = t"
  defines "st \<equiv> \<lparr>DbSizeInUse = used, DbSizeQuota = quota, Revision = hrev\<rparr>"
  shows "(t * of_int quota \<le> of_int used \<longrightarrow> over_threshold uw st)
     \<and> (over_threshold uw st \<longrightarrow> (t - 2 / 2 ^ 53) * of_int quota \<le> of_int used)
     \<and> (over_threshold uw st \<and> 7 / 10 \<le> t \<and> 64 \<le> quota \<longrightarrow>
          0 < need_free oor (NewCleanupManager main_cleanup_options) used quota)"
proof -
  have "over_threshold uw st" if "t * of_int quota \<le> of_int used"
  proof -
    have "t \<le> of_int used / of_int quota"
      using that assms(3) by (simp add: le_divide_eq)
    then have "t \<le> fl64 (of_int used / of_int quota)" using fl64_mono assms(6) by metis
    then show ?thesis unfolding st_def using over_threshold_iff [OF assms(1-5)] by blast
  qed
  then show ?thesis
    using over_threshold_lower [OF assms(1-5)] threshold_leaves_work [OF assms(1,2) _ assms(4,5)]
    unfolding st_def by blast
qed

theorem threshold_test_is_sharp_witness:
  "over_threshold \<lparr>uw_threshold = Fin (3 / 4), uw_interval = 1\<rparr>
     \<lparr>DbSizeInUse = 75, DbSizeQuota = 100, Revision = 7\<rparr>
   \<and> 0 < need_free (\<lambda>_. 0) (NewCleanupManager main_cleanup_options) 75 100"
proof -
  have "fl64 (of_int 3 * 2 powi (- 2)) = of_int 3 * 2 powi (- 2)"
    by (rule fl64_exact [of _ 3 "-2"]) simp_all
  then have "fl64 (3 / 4) = 3 / 4" by (simp add: power_int_minus)
  then show ?thesis
    using threshold_test_is_sharp [of 75 100 "\<lparr>uw_threshold = Fin (3 / 4), uw_interval = 1\<rparr>"
        "3 / 4" 7 "\<lambda>_. 0"] by simp
qed

text \<open>
  \<open>NewUsageWatcher\<close> sanitises its configuration: the interval is always positive and a threshold
  that is a number lies in the half-open interval from 0 to 1. It lets one value through: NaN passes
  both comparisons, and a watcher with a NaN threshold never starts a cleanup, whatever the usage.
\<close>

theorem NewUsageWatcher_sanitises:
  "0 < uw_interval (NewUsageWatcher cfg)
   \<and> (case uw_threshold (NewUsageWatcher cfg) of
        Fin t \<Rightarrow> 0 < t \<and> t \<le> 1
      | NaN \<Rightarrow> cfg_Threshold cfg = NaN \<and> (\<forall>st. \<not> over_threshold (NewUsageWatcher cfg) st)
      | _ \<Rightarrow> False)"
proof -
  have "0 < fl64 (8 / 10)"
    by (rule fl64_pos) (use powi2_mono [of "- 1022" "- 1"] in \<open>simp_all add: power_int_minus\<close>)
  then show ?thesis
    using fl64_threshold
    by (cases "cfg_Threshold cfg")
       (auto simp: NewUsageWatcher_def f64_small over_threshold_def)
qed

text \<open>
  \<open>retryWithContext\<close> returns no error exactly when some attempt within the bound succeeds after
  failed ones whose delays all passed with the context alive; in particular it makes no attempt
  once the context has an error, and \<open>NewEtcdClient\<close> makes at most five.
\<close>

theorem retryWithContext_success:
  assumes "\<And>v v'. sleep v = (True, v') \<Longrightarrow> ctx_err v' \<noteq> None"
  shows "retryWithContext ctx_err sleep fn attempts w = (None, w') \<longleftrightarrow>
     (\<exists>k v. int k < attempts \<and> (failed_round ctx_err sleep fn ^^ k) w v
        \<and> ctx_err v = None \<and> fn v = (None, w'))"
proof -
  have "retryWithContext ctx_err sleep fn attempts w = (None, w') \<longleftrightarrow>
     (\<exists>k < nat attempts. \<exists>v. (failed_round ctx_err sleep fn ^^ k) w v
        \<and> ctx_err v = None \<and> fn v = (None, w'))"
    unfolding retryWithContext_def by (rule retry_loop_success) (rule assms)
  then show ?thesis by (simp add: zless_nat_eq_int_zless)
qed

text \<open>A connection that comes up at the third attempt; the world counts the attempts made.\<close>

definition wit_attempt :: "nat \<Rightarrow> string option \<times> nat" where
  "wit_attempt n = (if n < 2 then Some ''refused'' else None, n + 1)"

theorem retryWithContext_success_witness:
  "\<exists>k v. int k < 5 \<and> (failed_round (\<lambda>_. None :: unit option) (Pair False) wit_attempt ^^ k) 0 v
     \<and> wit_attempt v = (None, 3)"
proof -
  have "retryWithContext (\<lambda>_. None :: unit option) (Pair False) wit_attempt 5 0 = (None, 3)"
    by (simp add: retryWithContext_def wit_attempt_def numeral_eq_Suc)
  then show ?thesis
    using retryWithContext_success [of "Pair False" "\<lambda>_. None :: unit option" wit_attempt 5 0 3]
    by auto
qed

end
