(* ===== verification/Http.thy ===== *)
theory Http
  imports Prelude
begin

text \<open>
  What the HTTP handlers use of Go's \<open>net/http\<close>: the response writer with its header map, status
  line and body, \<open>http.Error\<close>, and the parts of a request the handlers read. The health handlers of
  the two servers follow: \<open>sweeper/internal/handlers/health.go\<close> and
  \<open>eventsse/internal/handlers/health/health.go\<close>.

  The status and the headers are fixed by the first \<open>WriteHeader\<close>, explicit or by the first
  \<open>Write\<close>; \<open>rw_Sent\<close> is the header map at that moment. \<open>Set\<close> is given keys in
  canonical form throughout the program; \<open>Get\<close> brings its key into that form.
\<close>

section \<open>The response writer\<close>

type_synonym header_map = "string \<rightharpoonup> string list"

record response =
  rw_Header :: header_map
  rw_Status :: "int option"
  rw_Sent :: header_map
  rw_Body :: string

definition new_response :: response where
  "new_response = \<lparr>rw_Header = Map.empty, rw_Status = None, rw_Sent = Map.empty, rw_Body = []\<rparr>"

definition Header_Set :: "string \<Rightarrow> string \<Rightarrow> response \<Rightarrow> response" where
  "Header_Set k v w = w\<lparr>rw_Header := (rw_Header w)(k \<mapsto> [v])\<rparr>"

text \<open>
  \<open>http.CanonicalHeaderKey\<close>: upper case at the start and after a hyphen, lower case elsewhere; a key
  with a byte that no header name has is left as it is.
\<close>

definition field_byte :: "char \<Rightarrow> bool" where
  "field_byte c \<longleftrightarrow>
     (let n = (of_char c :: nat)
      in 48 \<le> n \<and> n \<le> 57 \<or> 65 \<le> n \<and> n \<le> 90 \<or> 97 \<le> n \<and> n \<le> 122
         \<or> c \<in> set (''!#$%&*+-.^_|~'' @ [CHR 0x27, CHR 0x60]))"

fun canonical_case :: "bool \<Rightarrow> string \<Rightarrow> string" where
  "canonical_case upper [] = []"
| "canonical_case upper (c # s) =
     (let n = (of_char c :: nat)
      in if upper \<and> 97 \<le> n \<and> n \<le> 122 then char_of (n - 32)
         else if \<not> upper \<and> 65 \<le> n \<and> n \<le> 90 then char_of (n + 32) else c)
     # canonical_case (c = CHR ''-'') s"

definition CanonicalHeaderKey :: "string \<Rightarrow> string" where
  "CanonicalHeaderKey k = (if list_all field_byte k then canonical_case True k else k)"

definition Header_Get :: "header_map \<Rightarrow> string \<Rightarrow> string" where
  "Header_Get h k = (case h (CanonicalHeaderKey k) of Some (v # vs) \<Rightarrow> v | _ \<Rightarrow> [])"

lemma CanonicalHeaderKey_literals [simp]:
  "CanonicalHeaderKey ''Content-Type'' = ''Content-Type''"
  "CanonicalHeaderKey ''content-type'' = ''Content-Type''"
  "CanonicalHeaderKey ''Accept'' = ''Accept''"
  by code_simp+

definition WriteHeader :: "int \<Rightarrow> response \<Rightarrow> response" where
  "WriteHeader code w =
     (if rw_Status w = None then w\<lparr>rw_Status := Some code, rw_Sent := rw_Header w\<rparr> else w)"

definition body_allowed :: "int \<Rightarrow> bool" where
  "body_allowed code \<longleftrightarrow> \<not> (100 \<le> code \<and> code \<le> 199) \<and> code \<noteq> 204 \<and> code \<noteq> 304"

definition Write :: "string \<Rightarrow> response \<Rightarrow> response" where
  "Write bs w =
     (let w1 = WriteHeader 200 w
      in if body_allowed (the (rw_Status w1)) then w1\<lparr>rw_Body := rw_Body w1 @ bs\<rparr> else w1)"

definition newline :: string where
  "newline = [CHR 0x0A]"

definition http_Error :: "string \<Rightarrow> int \<Rightarrow> response \<Rightarrow> response" where
  "http_Error msg code w =
     Write (msg @ newline)
       (WriteHeader code
         (Header_Set ''X-Content-Type-Options'' ''nosniff''
           (Header_Set ''Content-Type'' ''text/plain; charset=utf-8''
             (w\<lparr>rw_Header := (rw_Header w)(''Content-Length'' := None)\<rparr>))))"

lemmas http_defs = Header_Set_def WriteHeader_def Write_def http_Error_def Let_def body_allowed_def

text \<open>A handler only adds to a response: this is what the calls keep of one that was begun.\<close>

definition extends_response :: "response \<Rightarrow> response \<Rightarrow> bool" where
  "extends_response w w' \<longleftrightarrow>
     (rw_Status w \<noteq> None \<longrightarrow> rw_Status w' = rw_Status w \<and> rw_Sent w' = rw_Sent w)
     \<and> prefix (rw_Body w) (rw_Body w')"

lemma extends_response_refl [simp]: "extends_response w w"
  by (simp add: extends_response_def)

lemma extends_response_trans:
  "extends_response w w' \<Longrightarrow> extends_response w' w'' \<Longrightarrow> extends_response w w''"
  by (fastforce simp: extends_response_def)

lemma response_calls_extend [simp]:
  "extends_response w (Header_Set k v w)" "extends_response w (WriteHeader code w)"
  "extends_response w (Write bs w)"
  by (auto simp: extends_response_def http_defs)

section \<open>Requests\<close>

record request =
  rq_Method :: string
  rq_Header :: header_map
  rq_PathValue :: "string \<Rightarrow> string"
  rq_Query :: "string \<Rightarrow> string"
  rq_RemoteAddr :: string

text \<open>The settings of a server; its durations are in nanoseconds.\<close>

record http_server =
  hs_Addr :: string
  hs_ReadTimeout :: int
  hs_WriteTimeout :: int
  hs_IdleTimeout :: int

section \<open>Sweeper: the probes\<close>

record HealthHandler =
  hh_ready :: bool

definition Health :: HealthHandler where
  "Health = \<lparr>hh_ready = False\<rparr>"

definition SetReady :: "bool \<Rightarrow> HealthHandler \<Rightarrow> HealthHandler" where
  "SetReady r h = h\<lparr>hh_ready := r\<rparr>"

definition LivenessProbe :: "HealthHandler \<Rightarrow> response \<Rightarrow> response" where
  "LivenessProbe h w = Write ''ok'' (WriteHeader 200 w)"

definition ReadinessProbe :: "HealthHandler \<Rightarrow> response \<Rightarrow> response" where
  "ReadinessProbe h w =
     (if hh_ready h then Write ''ready'' (WriteHeader 200 w)
      else http_Error ''not ready'' 503 w)"

section \<open>Eventsse: the health check\<close>

text \<open>
  \<open>healthy\<close> is the value the atomic load returns; \<open>enc\<close> is the JSON encoder on a map of strings,
  given as its key-value pairs.
\<close>

definition health_ServeHTTP ::
  "((string \<times> string) list \<Rightarrow> string) \<Rightarrow> int \<Rightarrow> string \<Rightarrow> request \<Rightarrow> response \<Rightarrow> response" where
  "health_ServeHTTP enc healthy serviceName req w =
     (if rq_Method req \<noteq> ''GET''
      then http_Error ''405 method not allowed'' 405 (Header_Set ''Allow'' ''GET'' w)
      else if healthy = 1
      then Write (enc [(''name'', serviceName)] @ newline)
             (WriteHeader 200 (Header_Set ''Content-Type'' ''application/json'' w))
      else WriteHeader 503 w)"

text \<open>
  The sweeper's probes: after any sequence of \<open>SetReady\<close> calls on a new handler the readiness
  probe answers 200 with body \<open>ready\<close> exactly when the last call set it ready, and 503 otherwise
  (so before the first call too); the liveness probe answers 200 in every state.
\<close>

theorem probes_follow_SetReady:
  "rw_Status (ReadinessProbe (foldl (\<lambda>h r. SetReady r h) Health rs) new_response)
       = Some (if rs \<noteq> [] \<and> last rs then 200 else 503)
   \<and> rw_Body (ReadinessProbe (foldl (\<lambda>h r. SetReady r h) Health rs) new_response)
       = (if rs \<noteq> [] \<and> last rs then ''ready'' else ''not ready'' @ newline)
   \<and> (\<forall>h. rw_Status (LivenessProbe h new_response) = Some 200
        \<and> rw_Body (LivenessProbe h new_response) = ''ok'')"
proof -
  have "hh_ready (foldl (\<lambda>h r. SetReady r h) Health rs) = (rs \<noteq> [] \<and> last rs)"
    by (cases rs rule: rev_cases) (simp_all add: SetReady_def Health_def)
  then show ?thesis
    by (simp add: ReadinessProbe_def LivenessProbe_def http_defs new_response_def)
qed

text \<open>
  The event server's health check answers with one of three status codes, and which one is
  decided by the method first: 405 with an \<open>Allow\<close> header for anything but GET, then 200 with the
  service's name as JSON exactly when the flag is 1, then 503.
\<close>

theorem health_check_answers:
  "rw_Status (health_ServeHTTP enc healthy name req new_response)
       = Some (if rq_Method req \<noteq> ''GET'' then 405 else if healthy = 1 then 200 else 503)
   \<and> rw_Sent (health_ServeHTTP enc healthy name req new_response) ''Allow''
       = (if rq_Method req \<noteq> ''GET'' then Some [''GET''] else None)
   \<and> rw_Body (health_ServeHTTP enc healthy name req new_response)
       = (if rq_Method req \<noteq> ''GET'' then ''405 method not allowed'' @ newline
          else if healthy = 1 then enc [(''name'', name)] @ newline else [])"
  by (simp add: health_ServeHTTP_def http_defs new_response_def)

end
