(* ===== verification/Pool.thy ===== *)
theory Pool
  imports Prelude
begin

text \<open>
  What the two queues of \<open>eventrouter/internal/helpers/queue\<close> share: the jobs (\<open>job.go\<close>), the
  worker goroutines with their pool of job channels (\<open>worker.go\<close>), the phases of \<open>Terminate\<close>, and
  the interface \<open>Queuer\<close> with what a client of it relies on (\<open>queue.go\<close>).

  A Go channel that carries values is a buffer with a closed flag; a worker's own channel is
  unbuffered, so that handing a job to it is one step of sender and receiver. The job channels in
  the pool are named by the index of their worker.
\<close>

section \<open>Jobs\<close>

text \<open>A callback acts on the world of the program.\<close>

record ('v, 'w) job =
  job_v :: 'v
  job_callback :: "'v \<Rightarrow> 'w \<Rightarrow> 'w"

definition NewJob :: "'v \<Rightarrow> ('v \<Rightarrow> 'w \<Rightarrow> 'w) \<Rightarrow> ('v, 'w) job" where
  "NewJob v fn = \<lparr>job_v = v, job_callback = fn\<rparr>"

definition job_Job :: "('v, 'w) job \<Rightarrow> 'w \<Rightarrow> 'w" where
  "job_Job j w = job_callback j (job_v j) w"

text \<open>
  A buffered channel: \<open>None\<close> is a panic (send on or close of a closed channel) or a send that
  blocks for ever because nobody else holds the channel.
\<close>

record 'a channel =
  ch_buf :: "'a list"
  ch_cap :: nat
  ch_closed :: bool

definition make_chan :: "nat \<Rightarrow> 'a channel" where
  "make_chan n = \<lparr>ch_buf = [], ch_cap = n, ch_closed = False\<rparr>"

definition chan_send :: "'a \<Rightarrow> 'a channel \<Rightarrow> 'a channel option" where
  "chan_send x c =
     (if ch_closed c \<or> ch_cap c \<le> length (ch_buf c) then None
      else Some (c\<lparr>ch_buf := ch_buf c @ [x]\<rparr>))"

definition chan_close :: "'a channel \<Rightarrow> 'a channel option" where
  "chan_close c = (if ch_closed c then None else Some (c\<lparr>ch_closed := True\<rparr>))"

text \<open>A receive yields the value and whether there was one; an open empty channel blocks.\<close>

definition chan_recv :: "'a channel \<Rightarrow> ('a option \<times> 'a channel) option" where
  "chan_recv c =
     (case ch_buf c of
        x # xs \<Rightarrow> Some (Some x, c\<lparr>ch_buf := xs\<rparr>)
      | [] \<Rightarrow> if ch_closed c then Some (None, c) else None)"

record ('v, 'r, 'e, 'w) syncJob =
  sj_err :: "'e option"
  sj_result :: "'r channel"
  sj_v :: 'v
  sj_callback :: "'v \<Rightarrow> 'w \<Rightarrow> ('e option \<times> 'r) \<times> 'w"

definition NewSyncJob ::
  "'v \<Rightarrow> ('v \<Rightarrow> 'w \<Rightarrow> ('e option \<times> 'r) \<times> 'w) \<Rightarrow> ('v, 'r, 'e, 'w) syncJob" where
  "NewSyncJob v fn = \<lparr>sj_err = None, sj_result = make_chan 1, sj_v = v, sj_callback = fn\<rparr>"

definition syncJob_Job ::
  "('v, 'r, 'e, 'w) syncJob \<Rightarrow> 'w \<Rightarrow> (('v, 'r, 'e, 'w) syncJob \<times> 'w) option" where
  "syncJob_Job j w =
     (case sj_callback j (sj_v j) w of
        ((Some e, r), w') \<Rightarrow>
          (case chan_close (sj_result j) of
             None \<Rightarrow> None
           | Some c \<Rightarrow> Some (j\<lparr>sj_err := Some e, sj_result := c\<rparr>, w'))
      | ((None, r), w') \<Rightarrow>
          (case chan_send r (sj_result j) of
             None \<Rightarrow> None
           | Some c \<Rightarrow>
               (case chan_close c of
                  None \<Rightarrow> None
                | Some c' \<Rightarrow> Some (j\<lparr>sj_result := c'\<rparr>, w'))))"

definition syncJob_Wait :: "('v, 'r, 'e, 'w) syncJob \<Rightarrow> 'r channel" where
  "syncJob_Wait j = sj_result j"

definition syncJob_Error :: "('v, 'r, 'e, 'w) syncJob \<Rightarrow> 'e option" where
  "syncJob_Error j = sj_err j"

lemmas channel_defs = make_chan_def chan_send_def chan_close_def chan_recv_def

text \<open>
  A synchronous job hands its outcome over exactly once. Before it has run, a receive from
  \<open>Wait\<close> blocks. After one run the world is the callback's, \<open>Error\<close> is the callback's error, and the
  receives yield the result (only when there is no error) and then the end of the channel for
  ever. A second run panics, whatever the callback returns, because the channel is closed.
\<close>

theorem syncJob_delivers_once:
  "chan_recv (syncJob_Wait (NewSyncJob v fn)) = None
   \<and> (\<exists>j. syncJob_Job (NewSyncJob v fn) w = Some (j, snd (fn v w))
        \<and> syncJob_Error j = fst (fst (fn v w))
        \<and> (case fst (fn v w) of
             (None, r) \<Rightarrow> \<exists>c. chan_recv (syncJob_Wait j) = Some (Some r, c) \<and> chan_recv c = Some (None, c)
           | (Some e, r) \<Rightarrow> chan_recv (syncJob_Wait j) = Some (None, syncJob_Wait j))
        \<and> (\<forall>w'. syncJob_Job j w' = None))"
proof -
  obtain e r w' where fn: "fn v w = ((e, r), w')" by (metis surj_pair)
  show ?thesis
    by (cases e)
       (auto simp: fn syncJob_Job_def syncJob_Wait_def syncJob_Error_def NewSyncJob_def channel_defs
          split: prod.splits option.splits)
qed

section \<open>The worker pool\<close>

text \<open>
  A worker waits in its \<open>select\<close>, runs a job, is about to send its channel back to the pool, is
  about to call \<open>wg.Done\<close>; or it took the \<open>quit\<close> branch and is about to receive from the pool, about to
  close its channel, or has returned.
\<close>

datatype 'j worker_pc =
    WSelect
  | WRunning 'j
  | WReturning
  | WFinishing
  | WDraining
  | WClosing
  | WStopped

datatype terminate_pc = TIdle | TWaiting | TClosing | TStopping nat | TDone

text \<open>
  \<open>p_executed\<close> is a ghost: the jobs whose \<open>Job\<close> method has returned. \<open>p_panic\<close> says that a
  goroutine panicked, which ends the process.
\<close>

record 'j pool =
  p_running :: bool
  p_workers :: "'j worker_pc list"
  p_pool :: "nat list"
  p_pool_closed :: bool
  p_wg :: nat
  p_terminate :: terminate_pc
  p_panic :: bool
  p_executed :: "'j multiset"

fun quit_closed :: "terminate_pc \<Rightarrow> nat \<Rightarrow> bool" where
  "quit_closed (TStopping k) i = (i < k)"
| "quit_closed TDone i = True"
| "quit_closed _ i = False"

text \<open>
  One step of worker \<open>i\<close> that does not involve the dispatcher. The pool channel has room for every
  worker; a send to it when it is closed, and a \<open>Done\<close> on a zero counter, panic.
\<close>

inductive worker_step :: "nat \<Rightarrow> ('j, 'z) pool_scheme \<Rightarrow> ('j, 'z) pool_scheme \<Rightarrow> bool" for i where
  work_run: "i < length (p_workers s) \<Longrightarrow> p_workers s ! i = WRunning j \<Longrightarrow>
    worker_step i s (s\<lparr>p_workers := (p_workers s)[i := WReturning],
                       p_executed := add_mset j (p_executed s)\<rparr>)"
| work_return: "i < length (p_workers s) \<Longrightarrow> p_workers s ! i = WReturning \<Longrightarrow>
    \<not> p_pool_closed s \<Longrightarrow> length (p_pool s) < length (p_workers s) \<Longrightarrow>
    worker_step i s (s\<lparr>p_workers := (p_workers s)[i := WFinishing], p_pool := p_pool s @ [i]\<rparr>)"
| work_return_panic: "i < length (p_workers s) \<Longrightarrow> p_workers s ! i = WReturning \<Longrightarrow>
    p_pool_closed s \<Longrightarrow> worker_step i s (s\<lparr>p_panic := True\<rparr>)"
| work_done: "i < length (p_workers s) \<Longrightarrow> p_workers s ! i = WFinishing \<Longrightarrow> 0 < p_wg s \<Longrightarrow>
    worker_step i s (s\<lparr>p_workers := (p_workers s)[i := WSelect], p_wg := p_wg s - 1\<rparr>)"
| work_done_panic: "i < length (p_workers s) \<Longrightarrow> p_workers s ! i = WFinishing \<Longrightarrow> p_wg s = 0 \<Longrightarrow>
    worker_step i s (s\<lparr>p_panic := True\<rparr>)"

inductive quit_step :: "nat \<Rightarrow> ('j, 'z) pool_scheme \<Rightarrow> ('j, 'z) pool_scheme \<Rightarrow> bool" for i where
  work_quit: "i < length (p_workers s) \<Longrightarrow> p_workers s ! i = WSelect \<Longrightarrow>
    quit_closed (p_terminate s) i \<Longrightarrow>
    quit_step i s (s\<lparr>p_workers := (p_workers s)[i := WDraining]\<rparr>)"
| work_drain: "i < length (p_workers s) \<Longrightarrow> p_workers s ! i = WDraining \<Longrightarrow> p_pool s = k # ks \<Longrightarrow>
    quit_step i s (s\<lparr>p_workers := (p_workers s)[i := WClosing], p_pool := ks\<rparr>)"
| work_drain_closed: "i < length (p_workers s) \<Longrightarrow> p_workers s ! i = WDraining \<Longrightarrow>
    p_pool s = [] \<Longrightarrow> p_pool_closed s \<Longrightarrow>
    quit_step i s (s\<lparr>p_workers := (p_workers s)[i := WClosing]\<rparr>)"
| work_close: "i < length (p_workers s) \<Longrightarrow> p_workers s ! i = WClosing \<Longrightarrow>
    quit_step i s (s\<lparr>p_workers := (p_workers s)[i := WStopped]\<rparr>)"

inductive_cases worker_stepE: "worker_step i s t"
inductive_cases quit_stepE: "quit_step i s t"

section \<open>Counting over the workers\<close>

fun worker_jobs :: "'j worker_pc \<Rightarrow> 'j multiset" where
  "worker_jobs (WRunning j) = {#j#}"
| "worker_jobs _ = {#}"

fun worker_owes :: "'j worker_pc \<Rightarrow> nat" where
  "worker_owes (WRunning j) = 1"
| "worker_owes WReturning = 1"
| "worker_owes WFinishing = 1"
| "worker_owes _ = 0"

fun worker_busy :: "'j worker_pc \<Rightarrow> nat" where
  "worker_busy (WRunning j) = 1"
| "worker_busy WReturning = 1"
| "worker_busy _ = 0"

fun worker_weight :: "'j worker_pc \<Rightarrow> nat" where
  "worker_weight (WRunning j) = 3"
| "worker_weight WReturning = 2"
| "worker_weight WFinishing = 1"
| "worker_weight _ = 0"

definition sum_workers :: "('j worker_pc \<Rightarrow> 'b :: comm_monoid_add) \<Rightarrow> ('j, 'z) pool_scheme \<Rightarrow> 'b" where
  "sum_workers f s = sum_list (map f (p_workers s))"

lemma sum_workers_cong [count_simps]:
  "p_workers t = p_workers s \<Longrightarrow> sum_workers f t = sum_workers f s"
  by (simp add: sum_workers_def)

lemma sum_workers_update:
  fixes f :: "'j worker_pc \<Rightarrow> 'b :: cancel_comm_monoid_add"
  assumes "i < length (p_workers s)" and "p_workers t = (p_workers s)[i := v]"
  shows "sum_workers f t + f (p_workers s ! i) = sum_workers f s + f v"
  using assms by (simp add: sum_workers_def sum_list_map_update)

lemma sum_workers_update_nat:
  fixes f :: "'j worker_pc \<Rightarrow> nat"
  assumes "i < length (p_workers s)" and "p_workers t = (p_workers s)[i := v]"
  shows "f (p_workers s ! i) \<le> sum_workers f s \<and> sum_workers f t = sum_workers f s - f (p_workers s ! i) + f v"
proof -
  have "f (p_workers s ! i) \<le> sum_workers f s"
    using assms(1) member_le_sum_list [of "f (p_workers s ! i)" "map f (p_workers s)"]
    by (simp add: sum_workers_def)
  then show ?thesis using sum_workers_update [OF assms, of f] by simp
qed

lemma sum_workers_0: "sum_workers f s = (0 :: nat) \<longleftrightarrow> (\<forall>i < length (p_workers s). f (p_workers s ! i) = 0)"
  by (simp add: sum_workers_def sum_list_map_eq_zero_iff_nat all_set_conv_all_nth)

lemma size_worker_jobs: "size (worker_jobs w) \<le> worker_owes w"
  by (cases w) simp_all

lemma size_sum_jobs: "size (sum_workers worker_jobs s) \<le> sum_workers worker_owes s"
proof -
  have "size (sum_list (map worker_jobs ws)) \<le> sum_list (map worker_owes ws)"
    for ws :: "'a worker_pc list"
    using size_worker_jobs by (induction ws) (auto intro: add_mono)
  then show ?thesis by (simp add: sum_workers_def)
qed

text \<open>
  What the steps of a worker keep: the fields of the queue around it, the jobs executed or held, the
  counter against what the workers owe it, and the channels in the pool or held by busy workers.
\<close>

lemma worker_step_frame:
  assumes "worker_step i s t"
  obtains ws po wg pa ex where
    "t = s\<lparr>p_workers := ws, p_pool := po, p_wg := wg, p_panic := pa, p_executed := ex\<rparr>"
proof -
  have "t = s\<lparr>p_workers := p_workers t, p_pool := p_pool t, p_wg := p_wg t,
            p_panic := p_panic t, p_executed := p_executed t\<rparr>"
    using assms by cases simp_all
  then show ?thesis by (rule that)
qed

lemma quit_step_frame:
  assumes "quit_step i s t"
  obtains ws po where "t = s\<lparr>p_workers := ws, p_pool := po\<rparr>"
proof -
  have "t = s\<lparr>p_workers := p_workers t, p_pool := p_pool t\<rparr>"
    using assms by cases simp_all
  then show ?thesis by (rule that)
qed

lemma worker_step_counts:
  assumes "worker_step i s t"
  shows "p_executed t + sum_workers worker_jobs t = p_executed s + sum_workers worker_jobs s
   \<and> p_wg t + sum_workers worker_owes s = p_wg s + sum_workers worker_owes t
   \<and> length (p_pool t) + sum_workers worker_busy t = length (p_pool s) + sum_workers worker_busy s
   \<and> set (p_pool t) \<subseteq> insert i (set (p_pool s))
   \<and> length (p_workers t) = length (p_workers s) \<and> i < length (p_workers s)"
  using assms
proof cases
  case (work_run j)
  note u = sum_workers_update [of i s t WReturning, symmetric]
  show ?thesis using u [of worker_jobs] u [of worker_owes] u [of worker_busy] work_run by auto
next
  case work_return
  note u = sum_workers_update [of i s t WFinishing, symmetric]
  show ?thesis using u [of worker_jobs] u [of worker_owes] u [of worker_busy] work_return by auto
next
  case work_done
  note u = sum_workers_update [of i s t WSelect, symmetric]
  show ?thesis using u [of worker_jobs] u [of worker_owes] u [of worker_busy] work_done by auto
qed (auto simp: sum_workers_def)

lemma quit_step_counts:
  assumes "quit_step i s t"
  shows "sum_workers worker_jobs t = sum_workers worker_jobs s
   \<and> sum_workers worker_owes t = sum_workers worker_owes s
   \<and> length (p_pool t) + sum_workers worker_busy t \<le> length (p_pool s) + sum_workers worker_busy s
   \<and> set (p_pool t) \<subseteq> set (p_pool s)
   \<and> length (p_workers t) = length (p_workers s)"
  using assms
proof cases
  case work_quit
  note u = sum_workers_update [of i s t WDraining, symmetric]
  show ?thesis using u [of worker_jobs] u [of worker_owes] u [of worker_busy] work_quit by simp
next
  case (work_drain k ks)
  note u = sum_workers_update [of i s t WClosing, symmetric]
  show ?thesis using u [of worker_jobs] u [of worker_owes] u [of worker_busy] work_drain by auto
next
  case work_drain_closed
  note u = sum_workers_update [of i s t WClosing, symmetric]
  show ?thesis
    using u [of worker_jobs] u [of worker_owes] u [of worker_busy] work_drain_closed by simp
next
  case work_close
  note u = sum_workers_update [of i s t WStopped, symmetric]
  show ?thesis using u [of worker_jobs] u [of worker_owes] u [of worker_busy] work_close by simp
qed

lemma worker_step_weight:
  assumes "worker_step i s t" and "\<not> p_panic t"
  shows "sum_workers worker_weight t < sum_workers worker_weight s"
  using assms(1)
proof cases
  case (work_run j)
  then show ?thesis using sum_workers_update [of i s t WReturning worker_weight] by simp
next
  case work_return
  then show ?thesis using sum_workers_update [of i s t WFinishing worker_weight] by simp
next
  case work_done
  then show ?thesis using sum_workers_update [of i s t WSelect worker_weight] by simp
qed (use assms(2) in simp_all)

section \<open>Interface: a queue that loses no job\<close>

text \<open>
  What a client of \<open>Queuer\<close> relies on. \<open>accepted\<close> are the jobs a \<open>Push\<close> has counted in the wait
  group, \<open>executed\<close> those that have run, \<open>pending\<close> those that are anywhere in between; the counter
  covers the pending jobs.
\<close>

locale queuer = transition_system init step inv
  for init :: "'s \<Rightarrow> bool" and step inv +
  fixes accepted executed pending :: "'s \<Rightarrow> 'j multiset"
    and counter :: "'s \<Rightarrow> nat"
  assumes accounted: "inv s \<Longrightarrow> accepted s = executed s + pending s"
    and counted: "inv s \<Longrightarrow> size (pending s) \<le> counter s"
begin

lemma reachable_accounted:
  assumes "init s" and "step\<^sup>*\<^sup>* s t"
  shows "accepted t = executed t + pending t"
  using accounted reachable_inv [OF assms] .

lemma executed_once:
  assumes "init s" and "step\<^sup>*\<^sup>* s t"
  shows "executed t \<subseteq># accepted t"
  using reachable_accounted [OF assms] by simp

lemma counter_zero:
  assumes "init s" and "step\<^sup>*\<^sup>* s t" and "counter t = 0"
  shows "accepted t = executed t"
  using reachable_accounted [OF assms(1,2)] counted [OF reachable_inv [OF assms(1,2)]] assms(3)
  by simp

end

end
