(* ===== verification/ChanQueue.thy ===== *)
theory ChanQueue
  imports Pool
begin

text \<open>
  The channel queue (\<open>eventrouter/internal/helpers/queue/chan_queue.go\<close>), the one \<open>main\<close> uses: its
  state, \<open>NewQueue\<close> and \<open>Run\<close> as functions, and the concurrent rest (any number of \<open>Push\<close> calls,
  one \<open>Terminate\<close>, the dispatcher and the workers) as a step relation with one rule per access to
  shared state. A second \<open>Terminate\<close> that overlaps the first, and a \<open>Run\<close> that overlaps either, are
  left out: \<open>main\<close> runs the queue before it hands it to anybody.

  Two fields are ghosts: \<open>q_accepted\<close> collects the jobs that were counted in the wait group, and
  \<open>q_late\<close> records that a \<open>Push\<close> counted its job after \<open>Terminate\<close> had waited for the counter.
\<close>

section \<open>State and steps\<close>

text \<open>
  The dispatcher waits for a job, for a worker, or sends to the worker's channel; \<open>None\<close> is the nil
  channel that a receive from the closed pool yields.
\<close>

datatype 'j disp_pc = DOff | DWait | DPool 'j | DSend 'j "nat option" | DExit

record 'j chan_queue = "'j pool" +
  q_maxWorkers :: nat
  q_cap :: nat
  q_adding :: "'j multiset"
  q_sending :: "'j multiset"
  q_jobs :: "'j list"
  q_jobs_closed :: bool
  q_disp :: "'j disp_pc"
  q_accepted :: "'j multiset"
  q_late :: bool

text \<open>\<open>make\<close> panics on a negative size.\<close>

definition NewQueue :: "int \<Rightarrow> int \<Rightarrow> 'j chan_queue option" where
  "NewQueue maxCapacity maxThread =
     (if maxCapacity < 0 \<or> maxThread < 0 then None
      else Some \<lparr>p_running = False, p_workers = [], p_pool = [], p_pool_closed = False, p_wg = 0,
                 p_terminate = TIdle, p_panic = False, p_executed = {#},
                 q_maxWorkers = nat maxThread, q_cap = nat maxCapacity, q_adding = {#},
                 q_sending = {#}, q_jobs = [], q_jobs_closed = False, q_disp = DOff,
                 q_accepted = {#}, q_late = False\<rparr>)"

text \<open>\<open>Run\<close> on a queue that was terminated sends on the closed pool.\<close>

definition Run :: "'j chan_queue \<Rightarrow> 'j chan_queue option" where
  "Run q =
     (if p_running q then Some q
      else if p_pool_closed q \<and> 0 < q_maxWorkers q then None
      else Some (q\<lparr>p_running := True, p_workers := replicate (q_maxWorkers q) WSelect,
                   p_pool := p_pool q @ [0..<q_maxWorkers q], q_disp := DWait\<rparr>))"

definition GetJobCount :: "'j chan_queue \<Rightarrow> nat" where
  "GetJobCount q = length (q_jobs q)"

definition chan_init :: "int \<Rightarrow> int \<Rightarrow> 'j chan_queue \<Rightarrow> bool" where
  "chan_init maxCapacity maxThread s \<longleftrightarrow>
     Option.bind (NewQueue maxCapacity maxThread) Run = Some s"

text \<open>The steps of the queue's own goroutines, and of calls of \<open>Push\<close> that already counted their job.\<close>

inductive queue_step :: "'j chan_queue \<Rightarrow> 'j chan_queue \<Rightarrow> bool" where
  push_send: "\<not> p_panic s \<Longrightarrow> j \<in># q_sending s \<Longrightarrow> \<not> q_jobs_closed s \<Longrightarrow>
    length (q_jobs s) < q_cap s \<Longrightarrow>
    queue_step s (s\<lparr>q_sending := q_sending s - {#j#}, q_jobs := q_jobs s @ [j]\<rparr>)"
| push_send_direct: "\<not> p_panic s \<Longrightarrow> j \<in># q_sending s \<Longrightarrow> \<not> q_jobs_closed s \<Longrightarrow>
    q_jobs s = [] \<Longrightarrow> q_disp s = DWait \<Longrightarrow>
    queue_step s (s\<lparr>q_sending := q_sending s - {#j#}, q_disp := DPool j\<rparr>)"
| push_send_panic: "\<not> p_panic s \<Longrightarrow> j \<in># q_sending s \<Longrightarrow> q_jobs_closed s \<Longrightarrow>
    queue_step s (s\<lparr>p_panic := True\<rparr>)"
| disp_recv: "\<not> p_panic s \<Longrightarrow> q_disp s = DWait \<Longrightarrow> q_jobs s = j # js \<Longrightarrow>
    queue_step s (s\<lparr>q_disp := DPool j, q_jobs := js\<rparr>)"
| disp_exit: "\<not> p_panic s \<Longrightarrow> q_disp s = DWait \<Longrightarrow> q_jobs s = [] \<Longrightarrow> q_jobs_closed s \<Longrightarrow>
    queue_step s (s\<lparr>q_disp := DExit\<rparr>)"
| disp_pool: "\<not> p_panic s \<Longrightarrow> q_disp s = DPool j \<Longrightarrow> p_pool s = i # is \<Longrightarrow>
    queue_step s (s\<lparr>q_disp := DSend j (Some i), p_pool := is\<rparr>)"
| disp_pool_closed: "\<not> p_panic s \<Longrightarrow> q_disp s = DPool j \<Longrightarrow> p_pool s = [] \<Longrightarrow> p_pool_closed s \<Longrightarrow>
    queue_step s (s\<lparr>q_disp := DSend j None\<rparr>)"
| disp_send: "\<not> p_panic s \<Longrightarrow> q_disp s = DSend j (Some i) \<Longrightarrow> i < length (p_workers s) \<Longrightarrow>
    p_workers s ! i = WSelect \<Longrightarrow>
    queue_step s (s\<lparr>q_disp := DWait, p_workers := (p_workers s)[i := WRunning j]\<rparr>)"
| disp_send_panic: "\<not> p_panic s \<Longrightarrow> q_disp s = DSend j (Some i) \<Longrightarrow> i < length (p_workers s) \<Longrightarrow>
    p_workers s ! i = WStopped \<Longrightarrow> queue_step s (s\<lparr>p_panic := True\<rparr>)"
| queue_worker: "\<not> p_panic s \<Longrightarrow> worker_step i s t \<Longrightarrow> queue_step s t"

inductive chan_step :: "'j chan_queue \<Rightarrow> 'j chan_queue \<Rightarrow> bool" where
  push: "\<not> p_panic s \<Longrightarrow> p_running s \<Longrightarrow> chan_step s (s\<lparr>q_adding := add_mset j (q_adding s)\<rparr>)"
| push_add: "\<not> p_panic s \<Longrightarrow> j \<in># q_adding s \<Longrightarrow>
    chan_step s (s\<lparr>q_adding := q_adding s - {#j#}, q_sending := add_mset j (q_sending s),
                   p_wg := p_wg s + 1, q_accepted := add_mset j (q_accepted s),
                   q_late := (q_late s \<or> p_terminate s \<notin> {TIdle, TWaiting})\<rparr>)"
| queue: "queue_step s t \<Longrightarrow> chan_step s t"
| queue_quit: "\<not> p_panic s \<Longrightarrow> quit_step i s t \<Longrightarrow> chan_step s t"
| term_start: "\<not> p_panic s \<Longrightarrow> p_running s \<Longrightarrow> p_terminate s = TIdle \<Longrightarrow>
    chan_step s (s\<lparr>p_running := False, p_terminate := TWaiting\<rparr>)"
| term_wait: "\<not> p_panic s \<Longrightarrow> p_terminate s = TWaiting \<Longrightarrow> p_wg s = 0 \<Longrightarrow>
    chan_step s (s\<lparr>p_terminate := TClosing\<rparr>)"
| term_close: "\<not> p_panic s \<Longrightarrow> p_terminate s = TClosing \<Longrightarrow>
    chan_step s (s\<lparr>q_jobs_closed := True, p_terminate := TStopping 0\<rparr>)"
| term_stop: "\<not> p_panic s \<Longrightarrow> p_terminate s = TStopping k \<Longrightarrow> k < q_maxWorkers s \<Longrightarrow>
    chan_step s (s\<lparr>p_terminate := TStopping (k + 1)\<rparr>)"
| term_pool: "\<not> p_panic s \<Longrightarrow> p_terminate s = TStopping k \<Longrightarrow> k = q_maxWorkers s \<Longrightarrow>
    chan_step s (s\<lparr>p_pool_closed := True, p_terminate := TDone\<rparr>)"

inductive_cases queue_stepE: "queue_step s t"
inductive_cases chan_stepE: "chan_step s t"

section \<open>Accounting\<close>

fun disp_jobs :: "'j disp_pc \<Rightarrow> 'j multiset" where
  "disp_jobs (DPool j) = {#j#}"
| "disp_jobs (DSend j i) = {#j#}"
| "disp_jobs _ = {#}"

fun disp_ids :: "'j disp_pc \<Rightarrow> nat set" where
  "disp_ids (DSend j (Some i)) = {i}"
| "disp_ids _ = {}"

definition q_pending :: "'j chan_queue \<Rightarrow> 'j multiset" where
  "q_pending s = q_sending s + mset (q_jobs s) + disp_jobs (q_disp s) + sum_workers worker_jobs s"

definition q_owed :: "'j chan_queue \<Rightarrow> nat" where
  "q_owed s = size (q_sending s) + length (q_jobs s) + size (disp_jobs (q_disp s))
     + sum_workers worker_owes s"

definition chan_acct :: "'j chan_queue \<Rightarrow> bool" where
  "chan_acct s \<longleftrightarrow> q_accepted s = p_executed s + q_pending s \<and> p_wg s = q_owed s"

lemma pending_le_owed: "size (q_pending s) \<le> q_owed s"
  using size_sum_jobs [of s] by (simp add: q_pending_def q_owed_def)

lemma worker_step_acct:
  assumes "worker_step i s t" and "chan_acct s"
  shows "chan_acct t"
proof -
  obtain ws po wg pa ex where t:
    "t = s\<lparr>p_workers := ws, p_pool := po, p_wg := wg, p_panic := pa, p_executed := ex\<rparr>"
    by (rule worker_step_frame [OF assms(1)])
  have fields: "q_sending t = q_sending s" "q_jobs t = q_jobs s" "q_disp t = q_disp s"
    "q_accepted t = q_accepted s"
    by (simp_all add: t)
  note c = worker_step_counts [OF assms(1)]
  have "p_executed t + q_pending t = p_executed s + q_pending s"
    using c unfolding q_pending_def fields by (intro add_middle) blast
  moreover have "p_wg t = q_owed t"
    using c assms(2) unfolding q_owed_def fields chan_acct_def by linarith
  ultimately show ?thesis using assms(2) by (simp add: chan_acct_def fields)
qed

lemma queue_step_acct:
  assumes "queue_step s t" and "chan_acct s"
  shows "chan_acct t"
  using assms(1)
proof cases
  case (disp_send j i)
  note u = sum_workers_update [of i s t "WRunning j"]
  show ?thesis
    using disp_send assms(2) u [of worker_jobs] u [of worker_owes]
    by (simp add: chan_acct_def q_pending_def q_owed_def)
next
  case (queue_worker i)
  then show ?thesis using assms(2) worker_step_acct by blast
qed (use assms(2) in \<open>auto simp: chan_acct_def q_pending_def q_owed_def sum_workers_def
      dest!: multi_member_split\<close>)

lemma chan_step_acct:
  assumes "chan_step s t" and "chan_acct s"
  shows "chan_acct t"
  using assms(1)
proof cases
  case queue
  then show ?thesis using assms(2) queue_step_acct by blast
next
  case (queue_quit i)
  obtain ws po where t: "t = s\<lparr>p_workers := ws, p_pool := po\<rparr>"
    by (rule quit_step_frame [OF queue_quit(2)])
  then show ?thesis
    using quit_step_counts [OF queue_quit(2)] assms(2)
    by (simp add: chan_acct_def q_pending_def q_owed_def)
qed (use assms(2) in \<open>auto simp: chan_acct_def q_pending_def q_owed_def sum_workers_def\<close>)

section \<open>Tokens and phases\<close>

text \<open>
  Every worker's channel is in the pool, with the dispatcher, or held by the worker while it is busy;
  the channels leave this cycle only when workers quit. The phases of \<open>Terminate\<close> say which channels
  are closed; once the wait is over nothing is counted any more unless a \<open>Push\<close> is late.
\<close>

definition tokens :: "'j chan_queue \<Rightarrow> nat" where
  "tokens s = length (p_pool s) + card (disp_ids (q_disp s)) + sum_workers worker_busy s"

definition before_stop :: "terminate_pc \<Rightarrow> bool" where
  "before_stop tp \<longleftrightarrow> tp = TIdle \<or> tp = TWaiting \<or> tp = TClosing \<or> tp = TStopping 0"

definition chan_tokens :: "'j chan_queue \<Rightarrow> bool" where
  "chan_tokens s \<longleftrightarrow>
     length (p_workers s) = q_maxWorkers s
     \<and> tokens s \<le> q_maxWorkers s
     \<and> (before_stop (p_terminate s) \<longrightarrow> tokens s = q_maxWorkers s)
     \<and> (\<forall>i \<in> set (p_pool s) \<union> disp_ids (q_disp s). i < q_maxWorkers s)
     \<and> length (q_jobs s) \<le> q_cap s"

fun quitting :: "'j worker_pc \<Rightarrow> bool" where
  "quitting WDraining = True"
| "quitting WClosing = True"
| "quitting WStopped = True"
| "quitting _ = False"

definition chan_phase :: "'j chan_queue \<Rightarrow> bool" where
  "chan_phase s \<longleftrightarrow>
     (p_running s \<longleftrightarrow> p_terminate s = TIdle)
     \<and> (q_jobs_closed s \<longleftrightarrow> p_terminate s \<notin> {TIdle, TWaiting, TClosing})
     \<and> (p_pool_closed s \<longleftrightarrow> p_terminate s = TDone)
     \<and> q_disp s \<noteq> DOff \<and> (q_disp s = DExit \<longrightarrow> q_jobs_closed s \<and> q_jobs s = [])
     \<and> (\<forall>j. q_disp s = DSend j None \<longrightarrow> p_pool_closed s)
     \<and> (\<forall>i < length (p_workers s). quitting (p_workers s ! i) \<longrightarrow> quit_closed (p_terminate s) i)
     \<and> (\<forall>k. p_terminate s = TStopping k \<longrightarrow> k \<le> q_maxWorkers s)"

definition chan_safe :: "'j chan_queue \<Rightarrow> bool" where
  "chan_safe s \<longleftrightarrow>
     (q_late s \<longrightarrow> p_terminate s \<notin> {TIdle, TWaiting})
     \<and> (\<not> q_late s \<longrightarrow> \<not> p_panic s \<and> (p_terminate s \<notin> {TIdle, TWaiting} \<longrightarrow> p_wg s = 0))"

definition chan_inv :: "'j chan_queue \<Rightarrow> bool" where
  "chan_inv s \<longleftrightarrow> chan_acct s \<and> chan_tokens s \<and> chan_phase s \<and> chan_safe s"

lemma worker_step_quitting:
  assumes "worker_step i s t" and "\<forall>k < length (p_workers s). quitting (p_workers s ! k) \<longrightarrow> P k"
  shows "\<forall>k < length (p_workers s). quitting (p_workers t ! k) \<longrightarrow> P k"
  using assms(1)
  by cases (use assms(2) in \<open>auto simp: nth_list_update\<close>)

lemma quit_step_quitting:
  assumes "quit_step i s t" and "\<forall>k < length (p_workers s). quitting (p_workers s ! k) \<longrightarrow> P k"
    and "quit_closed (p_terminate s) i \<Longrightarrow> P i"
  shows "\<forall>k < length (p_workers s). quitting (p_workers t ! k) \<longrightarrow> P k"
  using assms(1)
  by cases (use assms(2,3) in \<open>auto simp: nth_list_update\<close>)

lemma quit_closed_not_before_stop: "quit_closed tp i \<Longrightarrow> \<not> before_stop tp"
  by (cases tp) (auto simp: before_stop_def)

lemma queue_step_frame:
  assumes "queue_step s t"
  shows "q_maxWorkers t = q_maxWorkers s \<and> q_cap t = q_cap s \<and> p_terminate t = p_terminate s
    \<and> p_running t = p_running s \<and> q_jobs_closed t = q_jobs_closed s
    \<and> p_pool_closed t = p_pool_closed s \<and> q_adding t = q_adding s
    \<and> q_accepted t = q_accepted s \<and> q_late t = q_late s"
  using assms
proof cases
  case (queue_worker i)
  then show ?thesis by (elim worker_step_frame) simp
qed simp_all

lemma queue_step_tokens:
  assumes "queue_step s t" and inv: "chan_tokens s"
  shows "chan_tokens t"
  using assms(1)
proof cases
  case (disp_send j i)
  note u = sum_workers_update [of i s t "WRunning j" worker_busy]
  show ?thesis
    using disp_send inv u by (auto simp: chan_tokens_def tokens_def)
next
  case (queue_worker i)
  obtain ws po wg pa ex where t:
    "t = s\<lparr>p_workers := ws, p_pool := po, p_wg := wg, p_panic := pa, p_executed := ex\<rparr>"
    by (rule worker_step_frame [OF queue_worker(2)])
  have fields: "q_jobs t = q_jobs s" "q_disp t = q_disp s" "q_cap t = q_cap s"
    "q_maxWorkers t = q_maxWorkers s" "p_terminate t = p_terminate s"
    by (simp_all add: t)
  note c = worker_step_counts [OF queue_worker(2)]
  have "tokens t = tokens s" using c unfolding tokens_def fields by linarith
  with c inv show ?thesis unfolding chan_tokens_def fields by auto
qed (use inv in \<open>auto simp: chan_tokens_def tokens_def sum_workers_def\<close>)

lemma quit_step_closed:
  assumes "quit_step i s t" and "chan_phase s"
  shows "quit_closed (p_terminate s) i"
  using assms(1) by cases (use assms(2) in \<open>auto simp: chan_phase_def\<close>)

lemma chan_step_tokens:
  assumes "chan_step s t" and inv: "chan_tokens s" and "chan_phase s"
  shows "chan_tokens t"
  using assms(1)
proof cases
  case queue
  then show ?thesis using inv queue_step_tokens by blast
next
  case (queue_quit i)
  obtain ws po where t: "t = s\<lparr>p_workers := ws, p_pool := po\<rparr>"
    by (rule quit_step_frame [OF queue_quit(2)])
  have fields: "q_jobs t = q_jobs s" "q_disp t = q_disp s" "q_cap t = q_cap s"
    "q_maxWorkers t = q_maxWorkers s" "p_terminate t = p_terminate s"
    by (simp_all add: t)
  note c = quit_step_counts [OF queue_quit(2)]
  have "\<not> before_stop (p_terminate s)"
    using quit_step_closed [OF queue_quit(2) assms(3)] by (rule quit_closed_not_before_stop)
  moreover have "tokens t \<le> tokens s" using c unfolding tokens_def fields by linarith
  ultimately show ?thesis using c inv unfolding chan_tokens_def fields by auto
qed (use inv in \<open>auto simp: chan_tokens_def tokens_def sum_workers_def before_stop_def\<close>)

lemma worker_step_phase:
  assumes "worker_step i s t" and inv: "chan_phase s"
  shows "chan_phase t"
proof -
  obtain ws po wg pa ex where t:
    "t = s\<lparr>p_workers := ws, p_pool := po, p_wg := wg, p_panic := pa, p_executed := ex\<rparr>"
    by (rule worker_step_frame [OF assms(1)])
  have "\<forall>k < length (p_workers s). quitting (p_workers t ! k) \<longrightarrow> quit_closed (p_terminate s) k"
    by (rule worker_step_quitting [OF assms(1)]) (use inv in \<open>simp add: chan_phase_def\<close>)
  then show ?thesis
    using worker_step_counts [OF assms(1)] inv unfolding chan_phase_def t by auto
qed

lemma queue_step_phase:
  assumes "queue_step s t" and inv: "chan_phase s"
  shows "chan_phase t"
  using assms(1)
proof cases
  case (disp_send j i)
  then show ?thesis using inv by (auto simp: chan_phase_def nth_list_update)
next
  case (queue_worker i)
  then show ?thesis using inv worker_step_phase by blast
qed (use inv in \<open>auto simp: chan_phase_def\<close>)

lemma chan_step_phase:
  assumes "chan_step s t" and inv: "chan_phase s"
  shows "chan_phase t"
  using assms(1)
proof cases
  case queue
  then show ?thesis using inv queue_step_phase by blast
next
  case (queue_quit i)
  obtain ws po where t: "t = s\<lparr>p_workers := ws, p_pool := po\<rparr>"
    by (rule quit_step_frame [OF queue_quit(2)])
  have "\<forall>k < length (p_workers s). quitting (p_workers t ! k) \<longrightarrow> quit_closed (p_terminate s) k"
    by (rule quit_step_quitting [OF queue_quit(2)]) (use inv in \<open>simp_all add: chan_phase_def\<close>)
  then show ?thesis
    using quit_step_counts [OF queue_quit(2)] inv unfolding chan_phase_def t by auto
next
  case (term_stop k)
  then show ?thesis using inv by (auto simp: chan_phase_def less_Suc_eq)
qed (use inv in \<open>auto simp: chan_phase_def\<close>)

lemma sum_workers_pos:
  assumes "i < length (p_workers s)" and "0 < f (p_workers s ! i)"
  shows "0 < (sum_workers f s :: nat)"
  using assms sum_workers_0 [of f s] by (metis gr0I)

lemma worker_step_safe:
  assumes "worker_step i s t" and inv: "chan_acct s" "chan_phase s" "chan_safe s"
  shows "chan_safe t"
proof (cases "q_late s")
  case True
  then show ?thesis using assms(1,4) by (elim worker_step_frame) (simp add: chan_safe_def)
next
  case False
  obtain ws po wg pa ex where t:
    "t = s\<lparr>p_workers := ws, p_pool := po, p_wg := wg, p_panic := pa, p_executed := ex\<rparr>"
    by (rule worker_step_frame [OF assms(1)])
  have zero: "p_wg s = 0 \<Longrightarrow> sum_workers worker_owes s = 0"
    using inv(1) by (simp add: chan_acct_def q_owed_def)
  have "\<not> p_panic t \<and> p_wg t \<le> p_wg s"
    using assms(1)
  proof cases
    case work_return_panic
    then have "p_terminate s = TDone" using inv(2) by (simp add: chan_phase_def)
    then have "sum_workers worker_owes s = 0" using inv(3) False zero by (simp add: chan_safe_def)
    then show ?thesis using work_return_panic sum_workers_pos [of i s worker_owes] by simp
  next
    case work_done_panic
    then show ?thesis using zero sum_workers_pos [of i s worker_owes] by simp
  qed (use inv(3) False in \<open>simp_all add: chan_safe_def\<close>)
  then show ?thesis using inv(3) False by (auto simp: chan_safe_def t)
qed

lemma queue_step_safe:
  assumes "queue_step s t" and inv: "chan_acct s" "chan_phase s" "chan_safe s"
  shows "chan_safe t"
  using assms(1)
proof cases
  case (push_send_panic j)
  have "p_wg s \<noteq> 0" using push_send_panic inv(1) by (auto simp: chan_acct_def q_owed_def)
  moreover have "p_terminate s \<notin> {TIdle, TWaiting}"
    using push_send_panic inv(2) by (auto simp: chan_phase_def)
  ultimately have "q_late s" using inv(3) by (auto simp: chan_safe_def)
  then show ?thesis using push_send_panic inv(3) by (simp add: chan_safe_def)
next
  case (disp_send_panic j i)
  have "p_wg s \<noteq> 0" using disp_send_panic inv(1) by (auto simp: chan_acct_def q_owed_def)
  moreover have "quit_closed (p_terminate s) i"
    using disp_send_panic inv(2) by (simp add: chan_phase_def)
  then have "p_terminate s \<notin> {TIdle, TWaiting}" by auto
  ultimately have "q_late s" using inv(3) by (auto simp: chan_safe_def)
  then show ?thesis using disp_send_panic inv(3) by (simp add: chan_safe_def)
next
  case (queue_worker i)
  then show ?thesis using inv worker_step_safe by blast
qed (use inv(3) in \<open>auto simp: chan_safe_def\<close>)

lemma chan_step_safe:
  assumes "chan_step s t" and inv: "chan_acct s" "chan_phase s" "chan_safe s"
  shows "chan_safe t"
  using assms(1)
proof cases
  case queue
  then show ?thesis using inv queue_step_safe by blast
next
  case (queue_quit i)
  then show ?thesis using inv(3) by (elim quit_step_frame) (auto simp: chan_safe_def)
qed (use inv(3) in \<open>auto simp: chan_safe_def\<close>)

lemma chan_step_inv:
  assumes "chan_inv s" and "chan_step s t"
  shows "chan_inv t"
  using assms chan_step_acct chan_step_tokens chan_step_phase chan_step_safe
  unfolding chan_inv_def by blast

lemma chan_init_inv:
  assumes "chan_init maxCapacity maxThread s"
  shows "chan_inv s"
proof -
  have "sum_workers f s = 0" if "f WSelect = 0" for f :: "'a worker_pc \<Rightarrow> 'b :: comm_monoid_add"
    using assms that
    by (auto simp: chan_init_def NewQueue_def Run_def sum_workers_def split: if_splits
        intro!: sum_list_map_zero)
  note zero = this
  have zeros: "sum_workers worker_jobs s = {#}" "sum_workers worker_owes s = 0"
    "sum_workers worker_busy s = 0"
    by (simp_all add: zero)
  show ?thesis
    using assms zeros
    by (auto simp: chan_init_def NewQueue_def Run_def chan_inv_def chan_acct_def q_pending_def
        q_owed_def chan_tokens_def tokens_def chan_phase_def chan_safe_def split: if_splits)
qed

text \<open>
  The channel queue is a queue that loses no job. The facts the properties use are those of the
  interface, at \<open>cq\<close>.
\<close>

interpretation cq: queuer "chan_init maxCapacity maxThread" chan_step chan_inv
    q_accepted p_executed q_pending p_wg
  for maxCapacity maxThread
proof
  show "chan_inv s" if "chan_init maxCapacity maxThread s" for s :: "'a chan_queue"
    using that by (rule chan_init_inv)
  show "chan_inv t" if "chan_inv s" and "chan_step s t" for s t :: "'a chan_queue"
    using that by (rule chan_step_inv)
  show "q_accepted s = p_executed s + q_pending s" if "chan_inv s" for s :: "'a chan_queue"
    using that by (simp add: chan_inv_def chan_acct_def)
  show "size (q_pending s) \<le> p_wg s" if "chan_inv s" for s :: "'a chan_queue"
    using that pending_le_owed [of s] by (simp add: chan_inv_def chan_acct_def)
qed

section \<open>Draining\<close>

text \<open>
  Every step of the queue's own goroutines brings some job closer to its end: \<open>q_weight\<close> adds up how
  far the jobs are from it.
\<close>

fun disp_weight :: "'j disp_pc \<Rightarrow> nat" where
  "disp_weight DWait = 1"
| "disp_weight (DPool j) = 6"
| "disp_weight (DSend j i) = 5"
| "disp_weight _ = 0"

definition q_weight :: "'j chan_queue \<Rightarrow> nat" where
  "q_weight s = 8 * size (q_sending s) + 7 * length (q_jobs s) + disp_weight (q_disp s)
     + sum_workers worker_weight s + (if p_panic s then 0 else 1)"

lemma worker_step_q_weight:
  assumes "worker_step i s t" and "\<not> p_panic s"
  shows "q_weight t < q_weight s"
proof -
  obtain ws po wg pa ex where t:
    "t = s\<lparr>p_workers := ws, p_pool := po, p_wg := wg, p_panic := pa, p_executed := ex\<rparr>"
    by (rule worker_step_frame [OF assms(1)])
  have fields: "q_sending t = q_sending s" "q_jobs t = q_jobs s" "q_disp t = q_disp s"
    by (simp_all add: t)
  have "p_panic t \<Longrightarrow> p_workers t = p_workers s"
    using assms by cases simp_all
  then have "p_panic t \<Longrightarrow> sum_workers worker_weight t = sum_workers worker_weight s"
    by (simp add: sum_workers_def)
  then show ?thesis
    using worker_step_weight [OF assms(1)] assms(2) unfolding q_weight_def fields
    by (cases "p_panic t") simp_all
qed

lemma queue_step_weight:
  assumes "queue_step s t"
  shows "q_weight t < q_weight s"
  using assms
proof cases
  case (disp_send j i)
  then show ?thesis
    using sum_workers_update [of i s t "WRunning j" worker_weight] by (simp add: q_weight_def)
next
  case (queue_worker i)
  then show ?thesis by (intro worker_step_q_weight)
qed (auto simp: q_weight_def sum_workers_def dest!: multi_member_split)

lemma queue_steps_weight:
  assumes "(queue_step ^^ k) s t"
  shows "k + q_weight t \<le> q_weight s"
  using assms
proof (induction k arbitrary: t)
  case 0
  then show ?case by simp
next
  case (Suc k)
  then obtain u where "(queue_step ^^ k) s u" "queue_step u t" by auto
  then show ?case using Suc.IH [of u] queue_step_weight [of u t] by simp
qed

lemma weight_le_owes: "sum_workers worker_weight s \<le> 8 * sum_workers worker_owes s"
proof -
  have "worker_weight w \<le> 8 * worker_owes w" for w :: "'a worker_pc" by (cases w) simp_all
  then have "sum_list (map worker_weight ws) \<le> 8 * sum_list (map worker_owes ws)"
    for ws :: "'a worker_pc list"
    by (induction ws) (auto intro: add_mono simp: add_mult_distrib2)
  then show ?thesis by (simp add: sum_workers_def)
qed

lemma weight_le_owed: "q_weight s \<le> 8 * q_owed s + 2"
proof -
  have "disp_weight (q_disp s) \<le> 8 * size (disp_jobs (q_disp s)) + 1"
    by (cases "q_disp s") simp_all
  then show ?thesis
    using weight_le_owes [of s] unfolding q_weight_def q_owed_def by (cases "p_panic s") simp_all
qed

lemma worker_can_step:
  assumes "i < length (p_workers s)" and "0 < worker_owes (p_workers s ! i)"
    and "\<not> p_pool_closed s" and "worker_busy (p_workers s ! i) + length (p_pool s) \<le> length (p_workers s)"
  shows "\<exists>t. worker_step i s t"
proof (cases "p_workers s ! i")
  case (WRunning j)
  then show ?thesis using assms(1) by (blast intro: work_run)
next
  case WReturning
  then show ?thesis using work_return [of i s] assms by auto
next
  case WFinishing
  then show ?thesis
    using assms(1) by (cases "p_wg s = 0") (auto intro: work_done work_done_panic)
qed (use assms(2) in simp_all)

lemma queue_progress:
  assumes inv: "chan_inv s" and live: "\<not> p_panic s" "p_terminate s \<in> {TIdle, TWaiting}"
    and n: "0 < q_maxWorkers s" and wg: "0 < p_wg s"
  shows "\<exists>t. queue_step s t"
proof -
  have phase: "chan_phase s" and tok: "chan_tokens s" and acct: "chan_acct s"
    using inv by (simp_all add: chan_inv_def)
  have open_pool: "\<not> p_pool_closed s" and open_jobs: "\<not> q_jobs_closed s"
    using phase live by (auto simp: chan_phase_def)
  have full: "tokens s = q_maxWorkers s" and len: "length (p_workers s) = q_maxWorkers s"
    using tok live by (auto simp: chan_tokens_def before_stop_def)
  have worker: "\<exists>t. queue_step s t" if "i < length (p_workers s)" "0 < worker_owes (p_workers s ! i)" for i
  proof -
    have "worker_busy (p_workers s ! i) \<le> sum_workers worker_busy s"
      using that(1) member_le_sum_list [of "worker_busy (p_workers s ! i)" "map worker_busy (p_workers s)"]
      by (simp add: sum_workers_def)
    then have "\<exists>t. worker_step i s t"
      using that open_pool full len by (intro worker_can_step) (simp_all add: tokens_def)
    then show ?thesis using live(1) by (blast intro: queue_worker)
  qed
  show ?thesis
  proof (cases "q_disp s")
    case DOff
    then show ?thesis using phase by (simp add: chan_phase_def)
  next
    case DExit
    then show ?thesis using phase open_jobs by (simp add: chan_phase_def)
  next
    case (DPool j)
    show ?thesis
    proof (cases "p_pool s")
      case Nil
      then have "sum_workers worker_busy s \<noteq> 0" using full n DPool by (simp add: tokens_def)
      then obtain i where "i < length (p_workers s)" "worker_busy (p_workers s ! i) \<noteq> 0"
        by (metis sum_workers_0)
      then show ?thesis by (intro worker [of i]) (cases "p_workers s ! i"; simp)+
    next
      case (Cons i ks)
      then show ?thesis using disp_pool [OF live(1) DPool] by blast
    qed
  next
    case (DSend j ch)
    then obtain i where ch: "ch = Some i" using phase open_pool by (cases ch) (auto simp: chan_phase_def)
    have i: "i < length (p_workers s)" using tok DSend ch len by (simp add: chan_tokens_def)
    moreover have "\<not> quitting (p_workers s ! i)"
      using phase i live(2) by (auto simp: chan_phase_def)
    ultimately show ?thesis
      using worker [OF i] disp_send [OF live(1) _ i, of j] DSend ch
      by (cases "p_workers s ! i") (simp_all, blast)
  next
    case DWait
    show ?thesis
    proof (cases "q_jobs s = [] \<and> q_sending s = {#}")
      case True
      then have "sum_workers worker_owes s \<noteq> 0"
        using acct wg DWait by (simp add: chan_acct_def q_owed_def)
      then show ?thesis using worker by (metis gr0I sum_workers_0)
    next
      case False
      then show ?thesis
        using disp_recv [OF live(1) DWait] push_send_direct [OF live(1) _ open_jobs _ DWait]
        by (cases "q_jobs s") (simp, metis multiset_nonemptyE, blast)
    qed
  qed
qed

section \<open>What the queue guarantees\<close>

lemma chan_init_fields:
  assumes "chan_init maxCapacity maxThread s"
  shows "q_maxWorkers s = nat maxThread" "q_cap s = nat maxCapacity" "p_running s" "\<not> p_panic s"
    "p_terminate s = TIdle" "q_adding s = {#}" "q_sending s = {#}" "p_wg s = 0" "q_jobs s = []"
    "\<not> q_jobs_closed s" "q_disp s = DWait" "0 \<le> maxThread"
  using assms by (auto simp: chan_init_def NewQueue_def Run_def split: if_splits)

lemma chan_step_sizes: "chan_step s t \<Longrightarrow> q_maxWorkers t = q_maxWorkers s \<and> q_cap t = q_cap s"
  by (elim chan_stepE) (auto dest: queue_step_frame elim: quit_step_frame)

lemma chan_run_sizes:
  "chan_step\<^sup>*\<^sup>* s t \<Longrightarrow> q_maxWorkers t = q_maxWorkers s \<and> q_cap t = q_cap s"
  by (induction rule: rtranclp_induct) (auto dest: chan_step_sizes)

text \<open>
  C2. Accounting, in every state of every interleaving of pushes, dispatcher, workers and
  termination: the jobs counted by \<open>Push\<close> are those that have run together with those that sit in
  a blocked push, in the channel, with the dispatcher or on a worker, none lost and none run twice;
  when the wait group's counter is zero all of them have run; and the channel and the pool
  never hold more than their capacities.
\<close>

theorem queue_loses_no_job:
  assumes "chan_init maxCapacity maxThread s" and "chan_step\<^sup>*\<^sup>* s t"
  shows "q_accepted t = p_executed t + q_pending t
     \<and> (p_wg t = 0 \<longrightarrow> p_executed t = q_accepted t)
     \<and> int (length (q_jobs t)) \<le> maxCapacity \<and> int (length (p_pool t)) \<le> maxThread"
proof -
  have "chan_tokens t" using cq.reachable_inv [OF assms] by (simp add: chan_inv_def)
  moreover have "q_maxWorkers t = nat maxThread \<and> q_cap t = nat maxCapacity"
    and "0 \<le> maxThread" "0 \<le> maxCapacity"
    using chan_run_sizes [OF assms(2)] assms(1)
    by (auto simp: chan_init_def NewQueue_def Run_def split: if_splits)
  ultimately have "int (length (q_jobs t)) \<le> maxCapacity \<and> int (length (p_pool t)) \<le> maxThread"
    by (auto simp: chan_tokens_def tokens_def)
  then show ?thesis
    using cq.reachable_accounted [OF assms] cq.counter_zero [OF assms] by auto
qed

definition wit_queue :: "nat chan_queue" where
  "wit_queue = the (Option.bind (NewQueue 2 1) Run)"

lemma wit_queue_init: "chan_init 2 1 wit_queue"
  by (simp add: chan_init_def wit_queue_def NewQueue_def Run_def)

lemma run_push:
  assumes "chan_init maxCapacity maxThread s"
  shows "chan_step\<^sup>*\<^sup>* s (s\<lparr>q_adding := {#j#}\<rparr>)"
    and "chan_step\<^sup>*\<^sup>* s (s\<lparr>q_sending := {#j#}, p_wg := 1, q_accepted := {#j#}\<rparr>)"
proof -
  let ?a = "s\<lparr>q_adding := {#j#}\<rparr>"
  let ?b = "s\<lparr>q_sending := {#j#}, p_wg := 1, q_accepted := {#j#}\<rparr>"
  note f = chan_init_fields [OF assms]
  have acc: "q_accepted s = {#}" "q_late s = False"
    using assms by (auto simp: chan_init_def NewQueue_def Run_def split: if_splits)
  have "chan_step s ?a" using push [of s j] f by simp
  moreover have "?a\<lparr>q_adding := q_adding ?a - {#j#}, q_sending := add_mset j (q_sending ?a),
      p_wg := p_wg ?a + 1, q_accepted := add_mset j (q_accepted ?a),
      q_late := (q_late ?a \<or> p_terminate ?a \<notin> {TIdle, TWaiting})\<rparr> = ?b"
    using f acc by (cases s) simp
  then have "chan_step ?a ?b" using push_add [of ?a j] f by simp
  ultimately show "chan_step\<^sup>*\<^sup>* s ?a" "chan_step\<^sup>*\<^sup>* s ?b" by auto
qed

theorem queue_loses_no_job_witness:
  "\<exists>t. chan_step\<^sup>*\<^sup>* wit_queue t \<and> q_accepted t = {#7#} \<and> p_executed t + q_pending t = {#7#}
     \<and> int (length (p_pool t)) \<le> 1"
proof -
  let ?t = "wit_queue\<lparr>q_sending := {#7#}, p_wg := 1, q_accepted := {#7#}\<rparr>"
  have run: "chan_step\<^sup>*\<^sup>* wit_queue ?t" by (rule run_push(2) [OF wit_queue_init])
  show ?thesis
    using queue_loses_no_job [OF wit_queue_init run] run by (intro exI [of _ ?t]) auto
qed

text \<open>
  C11. \<open>Terminate\<close> on a queue to which no job is added late (after the wait for the counter): no
  goroutine panics, and from the end of the wait on, whatever the workers still do, every job that
  was ever accepted has been executed and nothing is pending.
\<close>

theorem terminate_waits_for_all_jobs:
  assumes "chan_init maxCapacity maxThread s" and "chan_step\<^sup>*\<^sup>* s t" and "\<not> q_late t"
  shows "\<not> p_panic t
     \<and> (p_terminate t \<notin> {TIdle, TWaiting} \<longrightarrow> q_pending t = {#} \<and> p_executed t = q_accepted t)"
proof -
  have inv: "chan_safe t" "q_accepted t = p_executed t + q_pending t"
    using cq.reachable_inv [OF assms(1,2)] by (simp_all add: chan_inv_def chan_acct_def)
  then show ?thesis
    using cq.counter_zero [OF assms(1,2)] assms(3) by (auto simp: chan_safe_def)
qed

lemma run_terminate:
  assumes "\<not> p_panic s" and "p_running s" and "p_terminate s = TIdle" and "p_wg s = 0"
  shows "chan_step\<^sup>*\<^sup>* s (s\<lparr>p_running := False, q_jobs_closed := True, p_terminate := TStopping 0\<rparr>)"
proof -
  let ?a = "s\<lparr>p_running := False, p_terminate := TWaiting\<rparr>"
  let ?b = "s\<lparr>p_running := False, p_terminate := TClosing\<rparr>"
  have "chan_step s ?a" using term_start assms by blast
  moreover have "chan_step ?a ?b" using term_wait [of ?a] assms by simp
  moreover have "chan_step ?b (s\<lparr>p_running := False, q_jobs_closed := True, p_terminate := TStopping 0\<rparr>)"
    using term_close [of ?b] assms by (cases s) simp
  ultimately show ?thesis by (meson converse_rtranclp_into_rtranclp r_into_rtranclp)
qed

theorem terminate_waits_for_all_jobs_witness:
  "\<exists>t. chan_step\<^sup>*\<^sup>* wit_queue t \<and> p_terminate t = TStopping 0 \<and> \<not> p_panic t \<and> q_pending t = {#}"
proof -
  let ?t = "wit_queue\<lparr>p_running := False, q_jobs_closed := True, p_terminate := TStopping 0\<rparr>"
  note f = chan_init_fields [OF wit_queue_init]
  have run: "chan_step\<^sup>*\<^sup>* wit_queue ?t" by (rule run_terminate) (use f in simp_all)
  moreover have "\<not> q_late ?t" by (simp add: wit_queue_def NewQueue_def Run_def)
  ultimately show ?thesis
    using terminate_waits_for_all_jobs [OF wit_queue_init run] by (intro exI [of _ ?t]) auto
qed

lemma queue_run_frame:
  assumes "queue_step\<^sup>*\<^sup>* t u" and "chan_inv t"
  shows "chan_inv u \<and> chan_step\<^sup>*\<^sup>* t u \<and> p_terminate u = p_terminate t \<and> q_accepted u = q_accepted t"
  using assms(1)
proof (induction rule: rtranclp_induct)
  case base
  then show ?case using assms(2) by simp
next
  case (step u v)
  from step(2) have "chan_step u v" by (rule queue)
  with step.IH queue_step_frame [OF step(2)] show ?case
    by (metis chan_step_inv rtranclp.rtrancl_into_rtrancl)
qed

text \<open>Where the queue's own goroutines rest, nothing is left to execute; and they come to rest.\<close>

lemma queue_at_rest:
  assumes "chan_init maxCapacity maxThread s" and "chan_step\<^sup>*\<^sup>* s t" and "0 < maxThread"
    and "p_terminate t \<in> {TIdle, TWaiting}" and "queue_step\<^sup>*\<^sup>* t u" and "\<nexists>v. queue_step u v"
  shows "p_wg u = 0 \<and> p_executed u = q_accepted t"
proof -
  have frame: "chan_inv u \<and> chan_step\<^sup>*\<^sup>* t u \<and> p_terminate u = p_terminate t \<and> q_accepted u = q_accepted t"
    using queue_run_frame [OF assms(5) cq.reachable_inv [OF assms(1,2)]] .
  then have run: "chan_step\<^sup>*\<^sup>* s u" using assms(2) by (metis rtranclp_trans)
  have "\<not> p_panic u" using frame assms(4) by (auto simp: chan_inv_def chan_safe_def)
  moreover have "0 < q_maxWorkers u"
    using chan_run_sizes [OF run] chan_init_fields(1) [OF assms(1)] assms(3) by simp
  ultimately have "p_wg u = 0" using queue_progress [of u] frame assms(4,6) by auto
  then show ?thesis using cq.counter_zero [OF assms(1) run] frame by simp
qed

lemma queue_comes_to_rest: "\<exists>u. queue_step\<^sup>*\<^sup>* t u \<and> (\<nexists>v. queue_step u v)"
proof (induction "q_weight t" arbitrary: t rule: less_induct)
  case less
  show ?case
  proof (cases "\<exists>t'. queue_step t t'")
    case True
    then obtain t' where t': "queue_step t t'" by blast
    then have "(queue_step ^^ 1) t t'" by (simp only: relpowp_1)
    from queue_steps_weight [OF this] have "q_weight t' < q_weight t" by simp
    from less [OF this] t' show ?thesis by (meson converse_rtranclp_into_rtranclp)
  qed blast
qed

text \<open>
  C12. The queue drains. From any reachable state before the end of \<open>Terminate\<close>'s wait, with at least
  one worker, the queue's own goroutines can make at most eight steps per job in the queue (and two
  more), and once they can make no further step every job accepted so far has been executed and the
  counter is zero: there is no deadlock between the pool, the dispatcher and the workers, so the
  wait of \<open>Terminate\<close> ends.
\<close>

theorem queue_drains:
  assumes "chan_init maxCapacity maxThread s" and "chan_step\<^sup>*\<^sup>* s t" and "0 < maxThread"
    and "p_terminate t \<in> {TIdle, TWaiting}" and "(queue_step ^^ k) t u"
  shows "k \<le> 8 * p_wg t + 2
     \<and> ((\<nexists>v. queue_step u v) \<longrightarrow> p_wg u = 0 \<and> p_executed u = q_accepted t)"
proof -
  have "queue_step\<^sup>*\<^sup>* t u" using assms(5) by (rule relpowp_imp_rtranclp)
  moreover have "k \<le> 8 * p_wg t + 2"
    using queue_steps_weight [OF assms(5)] weight_le_owed [of t] cq.reachable_inv [OF assms(1,2)]
    by (simp add: chan_inv_def chan_acct_def)
  ultimately show ?thesis using queue_at_rest [OF assms(1-4)] by blast
qed

theorem queue_drains_witness:
  "\<exists>t u. chan_step\<^sup>*\<^sup>* wit_queue t \<and> (queue_step ^^ 1) t u \<and> p_wg t = 1
     \<and> 1 \<le> 8 * p_wg t + 2 \<and> ((\<nexists>v. queue_step u v) \<longrightarrow> p_executed u = {#7#})"
proof -
  let ?t = "wit_queue\<lparr>q_sending := {#7#}, p_wg := 1, q_accepted := {#7#}\<rparr>"
  let ?u = "?t\<lparr>q_sending := {#}, q_disp := DPool 7\<rparr>"
  note f = chan_init_fields [OF wit_queue_init]
  have run: "chan_step\<^sup>*\<^sup>* wit_queue ?t" by (rule run_push(2) [OF wit_queue_init])
  have "queue_step ?t ?u" using push_send_direct [of ?t 7] f by simp
  then have step: "(queue_step ^^ 1) ?t ?u" by (simp only: relpowp_1)
  have "p_terminate ?t \<in> {TIdle, TWaiting}" using f by simp
  from queue_drains [OF wit_queue_init run _ this step]
  have "1 \<le> 8 * p_wg ?t + 2 \<and> ((\<nexists>v. queue_step ?u v) \<longrightarrow> p_executed ?u = q_accepted ?t)" by simp
  then show ?thesis using run step by (intro exI [of _ ?t] exI [of _ ?u]) simp
qed

text \<open>
  C28. \<open>Push\<close> and \<open>Terminate\<close> race. A push that has passed its test of \<open>running\<close> is not seen by the wait
  of a \<open>Terminate\<close> that starts then; when the push goes on after the job channel was closed it sends
  on a closed channel, and the process panics. This happens for every size of the queue.
\<close>

theorem push_terminate_race_panics:
  assumes "chan_init maxCapacity maxThread s"
  shows "\<exists>t. chan_step\<^sup>*\<^sup>* s t \<and> p_panic t \<and> j \<in># q_accepted t \<and> j \<notin># p_executed t"
proof -
  let ?a = "s\<lparr>q_adding := {#j#}\<rparr>"
  let ?b = "?a\<lparr>p_running := False, q_jobs_closed := True, p_terminate := TStopping 0\<rparr>"
  let ?c = "?b\<lparr>q_adding := {#}, q_sending := {#j#}, p_wg := 1, q_accepted := {#j#}, q_late := True\<rparr>"
  note f = chan_init_fields [OF assms]
  have acc: "q_accepted s = {#}" "p_executed s = {#}"
    using assms by (auto simp: chan_init_def NewQueue_def Run_def split: if_splits)
  have "chan_step\<^sup>*\<^sup>* s ?a" by (rule run_push(1) [OF assms])
  moreover have "chan_step\<^sup>*\<^sup>* ?a ?b" using run_terminate [of ?a] f by simp
  moreover have "chan_step ?b ?c" using push_add [of ?b j] f acc by simp
  moreover have "chan_step ?c (?c\<lparr>p_panic := True\<rparr>)"
    using push_send_panic [of ?c j] f by (intro queue) simp
  ultimately have "chan_step\<^sup>*\<^sup>* s (?c\<lparr>p_panic := True\<rparr>)"
    by (meson rtranclp.rtrancl_into_rtrancl rtranclp_trans)
  then show ?thesis using acc by (intro exI [of _ "?c\<lparr>p_panic := True\<rparr>"]) simp
qed

theorem push_terminate_race_panics_witness:
  "\<exists>t. chan_step\<^sup>*\<^sup>* wit_queue t \<and> p_panic t \<and> 7 \<in># q_accepted t \<and> 7 \<notin># p_executed t"
  by (rule push_terminate_race_panics [OF wit_queue_init])

end
