(* ===== verification/ListQueue.thy ===== *)
theory ListQueue
  imports Pool
begin

text \<open>
  The list queue (\<open>eventrouter/internal/helpers/queue/list_queue.go\<close>): an unbounded or bounded list
  under a read-write lock in place of the job channel. Constructor and \<open>Run\<close> are functions, the
  rest is a step relation as for the channel queue; a section under the lock is one step. The
  element the dispatcher works on stays at the front of the list until a worker has taken it.
\<close>

section \<open>State and steps\<close>

text \<open>The dispatcher: at its test, waiting for a worker, sending, about to remove the element, or gone.\<close>

datatype 'j ldisp_pc = LOff | LCheck | LPool 'j | LSend 'j "nat option" | LRemove | LExit

text \<open>
  The pushes are counted by where they are: past the test of \<open>running\<close>, past the test of the length,
  and between \<open>wg.Add\<close> and \<open>PushBack\<close>.
\<close>

record 'j list_queue = "'j pool" +
  l_maxWorker :: nat
  l_maxLen :: int
  l_checking :: "'j multiset"
  l_adding :: "'j multiset"
  l_pushing :: "'j multiset"
  l_list :: "'j list"
  l_disp :: "'j ldisp_pc"
  l_accepted :: "'j multiset"

definition NewListQueueWithMaxLen :: "int \<Rightarrow> int \<Rightarrow> 'j list_queue option" where
  "NewListQueueWithMaxLen maxThread maxLen =
     (if maxThread < 0 then None
      else Some \<lparr>p_running = False, p_workers = [], p_pool = [], p_pool_closed = False, p_wg = 0,
                 p_terminate = TIdle, p_panic = False, p_executed = {#},
                 l_maxWorker = nat maxThread, l_maxLen = maxLen, l_checking = {#},
                 l_adding = {#}, l_pushing = {#}, l_list = [], l_disp = LOff, l_accepted = {#}\<rparr>)"

definition NewListQueue :: "int \<Rightarrow> 'j list_queue option" where
  "NewListQueue maxThread = NewListQueueWithMaxLen maxThread 0"

definition list_Run :: "'j list_queue \<Rightarrow> 'j list_queue option" where
  "list_Run q =
     (if p_running q then Some q
      else if p_pool_closed q \<and> 0 < l_maxWorker q then None
      else Some (q\<lparr>p_running := True, p_workers := replicate (l_maxWorker q) WSelect,
                   p_pool := p_pool q @ [0..<l_maxWorker q], l_disp := LCheck\<rparr>))"

definition list_init :: "int \<Rightarrow> int \<Rightarrow> 'j list_queue \<Rightarrow> bool" where
  "list_init maxThread maxLen s \<longleftrightarrow>
     Option.bind (NewListQueueWithMaxLen maxThread maxLen) list_Run = Some s"

definition list_full :: "'j list_queue \<Rightarrow> bool" where
  "list_full s \<longleftrightarrow> 0 < l_maxLen s \<and> l_maxLen s < int (length (l_list s))"

inductive list_step :: "'j list_queue \<Rightarrow> 'j list_queue \<Rightarrow> bool" where
  list_push: "\<not> p_panic s \<Longrightarrow> p_running s \<Longrightarrow>
    list_step s (s\<lparr>l_checking := add_mset j (l_checking s)\<rparr>)"
| list_reject: "\<not> p_panic s \<Longrightarrow> j \<in># l_checking s \<Longrightarrow> list_full s \<Longrightarrow>
    list_step s (s\<lparr>l_checking := l_checking s - {#j#}\<rparr>)"
| list_admit: "\<not> p_panic s \<Longrightarrow> j \<in># l_checking s \<Longrightarrow> \<not> list_full s \<Longrightarrow>
    list_step s (s\<lparr>l_checking := l_checking s - {#j#}, l_adding := add_mset j (l_adding s)\<rparr>)"
| list_add: "\<not> p_panic s \<Longrightarrow> j \<in># l_adding s \<Longrightarrow>
    list_step s (s\<lparr>l_adding := l_adding s - {#j#}, l_pushing := add_mset j (l_pushing s),
                   p_wg := p_wg s + 1, l_accepted := add_mset j (l_accepted s)\<rparr>)"
| list_pushback: "\<not> p_panic s \<Longrightarrow> j \<in># l_pushing s \<Longrightarrow>
    list_step s (s\<lparr>l_pushing := l_pushing s - {#j#}, l_list := l_list s @ [j]\<rparr>)"
| list_exit: "\<not> p_panic s \<Longrightarrow> l_disp s = LCheck \<Longrightarrow> \<not> p_running s \<Longrightarrow> l_list s = [] \<Longrightarrow>
    list_step s (s\<lparr>l_disp := LExit\<rparr>)"
| list_sleep: "\<not> p_panic s \<Longrightarrow> l_disp s = LCheck \<Longrightarrow> p_running s \<Longrightarrow> l_list s = [] \<Longrightarrow> list_step s s"
| list_front: "\<not> p_panic s \<Longrightarrow> l_disp s = LCheck \<Longrightarrow> l_list s = j # js \<Longrightarrow>
    list_step s (s\<lparr>l_disp := LPool j\<rparr>)"
| list_pool: "\<not> p_panic s \<Longrightarrow> l_disp s = LPool j \<Longrightarrow> p_pool s = i # is \<Longrightarrow>
    list_step s (s\<lparr>l_disp := LSend j (Some i), p_pool := is\<rparr>)"
| list_pool_closed: "\<not> p_panic s \<Longrightarrow> l_disp s = LPool j \<Longrightarrow> p_pool s = [] \<Longrightarrow> p_pool_closed s \<Longrightarrow>
    list_step s (s\<lparr>l_disp := LSend j None\<rparr>)"
| list_send: "\<not> p_panic s \<Longrightarrow> l_disp s = LSend j (Some i) \<Longrightarrow> i < length (p_workers s) \<Longrightarrow>
    p_workers s ! i = WSelect \<Longrightarrow>
    list_step s (s\<lparr>l_disp := LRemove, p_workers := (p_workers s)[i := WRunning j]\<rparr>)"
| list_send_panic: "\<not> p_panic s \<Longrightarrow> l_disp s = LSend j (Some i) \<Longrightarrow> i < length (p_workers s) \<Longrightarrow>
    p_workers s ! i = WStopped \<Longrightarrow> list_step s (s\<lparr>p_panic := True\<rparr>)"
| list_remove: "\<not> p_panic s \<Longrightarrow> l_disp s = LRemove \<Longrightarrow>
    list_step s (s\<lparr>l_disp := LCheck, l_list := tl (l_list s)\<rparr>)"
| list_worker: "\<not> p_panic s \<Longrightarrow> worker_step i s t \<Longrightarrow> list_step s t"
| list_quit: "\<not> p_panic s \<Longrightarrow> quit_step i s t \<Longrightarrow> list_step s t"
| list_term_start: "\<not> p_panic s \<Longrightarrow> p_running s \<Longrightarrow> p_terminate s = TIdle \<Longrightarrow>
    list_step s (s\<lparr>p_running := False, p_terminate := TWaiting\<rparr>)"
| list_term_wait: "\<not> p_panic s \<Longrightarrow> p_terminate s = TWaiting \<Longrightarrow> p_wg s = 0 \<Longrightarrow>
    list_step s (s\<lparr>p_terminate := TStopping 0\<rparr>)"
| list_term_stop: "\<not> p_panic s \<Longrightarrow> p_terminate s = TStopping k \<Longrightarrow> k < l_maxWorker s \<Longrightarrow>
    list_step s (s\<lparr>p_terminate := TStopping (k + 1)\<rparr>)"
| list_term_pool: "\<not> p_panic s \<Longrightarrow> p_terminate s = TStopping k \<Longrightarrow> k = l_maxWorker s \<Longrightarrow>
    list_step s (s\<lparr>p_pool_closed := True, p_terminate := TDone\<rparr>)"

inductive_cases list_stepE: "list_step s t"

section \<open>Accounting\<close>

text \<open>Once a worker has taken the front element, it is still in the list but no longer to be delivered.\<close>

definition undelivered :: "'j list_queue \<Rightarrow> 'j list" where
  "undelivered s = (if l_disp s = LRemove then tl (l_list s) else l_list s)"

definition l_pending :: "'j list_queue \<Rightarrow> 'j multiset" where
  "l_pending s = l_pushing s + mset (undelivered s) + sum_workers worker_jobs s"

fun front_ok :: "'j ldisp_pc \<Rightarrow> 'j list \<Rightarrow> bool" where
  "front_ok (LPool j) xs = (xs \<noteq> [] \<and> hd xs = j)"
| "front_ok (LSend j i) xs = (xs \<noteq> [] \<and> hd xs = j)"
| "front_ok LRemove xs = (xs \<noteq> [])"
| "front_ok _ xs = True"

definition list_inv :: "'j list_queue \<Rightarrow> bool" where
  "list_inv s \<longleftrightarrow>
     l_accepted s = p_executed s + l_pending s
     \<and> p_wg s = size (l_pushing s) + length (undelivered s) + sum_workers worker_owes s
     \<and> front_ok (l_disp s) (l_list s)"

lemmas list_inv_defs = list_inv_def l_pending_def undelivered_def sum_workers_def

lemma front_ok_append: "front_ok d xs \<Longrightarrow> front_ok d (xs @ ys)"
  by (cases "(d, xs)" rule: front_ok.cases) auto

lemma list_worker_inv:
  assumes "worker_step i s t" and "list_inv s"
  shows "list_inv t"
proof -
  obtain ws po wg pa ex where t:
    "t = s\<lparr>p_workers := ws, p_pool := po, p_wg := wg, p_panic := pa, p_executed := ex\<rparr>"
    by (rule worker_step_frame [OF assms(1)])
  have fields: "l_pushing t = l_pushing s" "undelivered t = undelivered s" "l_disp t = l_disp s"
    "l_accepted t = l_accepted s" "l_list t = l_list s"
    by (simp_all add: t undelivered_def)
  note c = worker_step_counts [OF assms(1)]
  have "p_executed t + l_pending t = p_executed s + l_pending s"
    using c unfolding l_pending_def fields by (intro add_middle) blast
  moreover have "p_wg t = size (l_pushing t) + length (undelivered t) + sum_workers worker_owes t"
    using c assms(2) unfolding fields list_inv_def by linarith
  ultimately show ?thesis using assms(2) unfolding list_inv_def fields by simp
qed

lemma list_step_inv:
  assumes "list_inv s" and "list_step s t"
  shows "list_inv t"
  using assms(2)
proof cases
  case (list_pushback j)
  then show ?thesis
    using assms(1) front_ok_append [of "l_disp s" "l_list s" "[j]"]
    by (cases "l_list s") (auto simp: list_inv_defs dest!: multi_member_split)
next
  case (list_send j i)
  note u = sum_workers_update [of i s t "WRunning j"]
  show ?thesis
    using list_send assms(1) u [of worker_jobs] u [of worker_owes]
    by (cases "l_list s") (simp_all add: list_inv_def l_pending_def undelivered_def)
next
  case (list_worker i)
  then show ?thesis using assms(1) list_worker_inv by blast
next
  case (list_quit i)
  obtain ws po where t: "t = s\<lparr>p_workers := ws, p_pool := po\<rparr>"
    by (rule quit_step_frame [OF list_quit(2)])
  then show ?thesis
    using quit_step_counts [OF list_quit(2)] assms(1)
    by (simp add: list_inv_def l_pending_def undelivered_def)
qed (use assms(1) in \<open>auto simp: list_inv_defs dest!: multi_member_split\<close>)

lemma list_init_inv:
  assumes "list_init maxThread maxLen s"
  shows "list_inv s"
proof -
  have "s = \<lparr>p_running = True, p_workers = replicate (nat maxThread) WSelect,
      p_pool = [0..<nat maxThread], p_pool_closed = False, p_wg = 0, p_terminate = TIdle,
      p_panic = False, p_executed = {#}, l_maxWorker = nat maxThread, l_maxLen = maxLen,
      l_checking = {#}, l_adding = {#}, l_pushing = {#}, l_list = [], l_disp = LCheck,
      l_accepted = {#}\<rparr>"
    using assms by (auto simp: list_init_def NewListQueueWithMaxLen_def list_Run_def split: if_splits)
  then show ?thesis by (auto simp: list_inv_defs simp del: map_replicate intro!: sum_list_map_zero)
qed

text \<open>The list queue satisfies the same interface; its facts are at \<open>lq\<close>.\<close>

interpretation lq: queuer "list_init maxThread maxLen" list_step list_inv
    l_accepted p_executed l_pending p_wg
  for maxThread maxLen
proof
  show "list_inv s" if "list_init maxThread maxLen s" for s :: "'a list_queue"
    using that by (rule list_init_inv)
  show "list_inv t" if "list_inv s" and "list_step s t" for s t :: "'a list_queue"
    using that by (rule list_step_inv)
  show "l_accepted s = p_executed s + l_pending s" if "list_inv s" for s :: "'a list_queue"
    using that by (simp add: list_inv_def)
  show "size (l_pending s) \<le> p_wg s" if "list_inv s" for s :: "'a list_queue"
    using that size_sum_jobs [of s] by (simp add: list_inv_def l_pending_def)
qed

section \<open>What the list queue guarantees, and what not\<close>

definition started_list :: "nat \<Rightarrow> int \<Rightarrow> 'j list_queue" where
  "started_list n maxLen =
     \<lparr>p_running = True, p_workers = replicate n WSelect, p_pool = [0..<n], p_pool_closed = False,
      p_wg = 0, p_terminate = TIdle, p_panic = False, p_executed = {#}, l_maxWorker = n,
      l_maxLen = maxLen, l_checking = {#}, l_adding = {#}, l_pushing = {#}, l_list = [],
      l_disp = LCheck, l_accepted = {#}\<rparr>"

lemma list_init_started: "list_init maxThread maxLen s \<longleftrightarrow> 0 \<le> maxThread \<and> s = started_list (nat maxThread) maxLen"
  by (auto simp: list_init_def NewListQueueWithMaxLen_def list_Run_def started_list_def)

text \<open>A whole call of \<open>Push\<close> on a running queue that is not full, with no other call in between.\<close>

lemma run_list_push:
  assumes "p_running s" and "\<not> p_panic s" and "\<not> list_full s"
    and "l_checking s = {#}" and "l_adding s = {#}" and "l_pushing s = {#}"
  shows "list_step\<^sup>*\<^sup>* s (s\<lparr>l_list := l_list s @ [j], p_wg := p_wg s + 1,
                             l_accepted := add_mset j (l_accepted s)\<rparr>)"
proof -
  let ?a = "s\<lparr>l_checking := {#j#}\<rparr>"
  let ?b = "s\<lparr>l_adding := {#j#}\<rparr>"
  let ?c = "s\<lparr>l_pushing := {#j#}, p_wg := p_wg s + 1, l_accepted := add_mset j (l_accepted s)\<rparr>"
  let ?d = "s\<lparr>l_list := l_list s @ [j], p_wg := p_wg s + 1, l_accepted := add_mset j (l_accepted s)\<rparr>"
  have "list_step s ?a" using list_push [of s j] assms by simp
  moreover have "list_step ?a ?b"
    using list_admit [of ?a j] assms by (cases s) (simp add: list_full_def)
  moreover have "list_step ?b ?c" using list_add [of ?b j] assms by (cases s) simp
  moreover have "list_step ?c ?d" using list_pushback [of ?c j] assms by (cases s) simp
  ultimately show ?thesis by (meson converse_rtranclp_into_rtranclp r_into_rtranclp)
qed

text \<open>
  The list queue accounts for its jobs as the channel queue does: in every reachable state the
  accepted jobs are the executed ones together with those in a push, in the list (without the front
  element a worker has already taken) or on a worker; a counter of zero means that all have run.
\<close>

theorem list_queue_loses_no_job:
  assumes "list_init maxThread maxLen s" and "list_step\<^sup>*\<^sup>* s t"
  shows "l_accepted t = p_executed t + l_pending t \<and> p_executed t \<subseteq># l_accepted t
     \<and> (p_wg t = 0 \<longrightarrow> p_executed t = l_accepted t)"
  using lq.reachable_accounted [OF assms] lq.executed_once [OF assms] lq.counter_zero [OF assms]
  by auto

theorem list_queue_loses_no_job_witness:
  "\<exists>t. list_step\<^sup>*\<^sup>* (started_list 1 0) t \<and> l_accepted t = {#7 :: nat#}
     \<and> {#7#} = p_executed t + l_pending t"
proof -
  let ?s = "started_list 1 0 :: nat list_queue"
  let ?t = "?s\<lparr>l_list := [7], p_wg := 1, l_accepted := {#7#}\<rparr>"
  have init: "list_init 1 0 ?s" by (simp add: list_init_started)
  have run: "list_step\<^sup>*\<^sup>* ?s ?t"
    using run_list_push [of ?s 7] by (simp add: started_list_def list_full_def)
  show ?thesis
    using list_queue_loses_no_job [OF init run] run by (intro exI [of _ ?t]) simp
qed

text \<open>
  The bound of \<open>NewListQueueWithMaxLen\<close> is off by one: the test is \<open>Len() > maxLen\<close>, so a queue
  with a maximum of \<open>n > 0\<close> elements accepts \<open>n + 1\<close>, with one push after the other and no other
  goroutine in between.
\<close>

theorem max_len_exceeded:
  assumes "list_init maxThread maxLen s" and "0 < maxLen"
  shows "\<exists>t. list_step\<^sup>*\<^sup>* s t \<and> int (length (l_list t)) = maxLen + 1 \<and> l_list t = replicate (nat maxLen + 1) j"
proof -
  have "\<exists>t. list_step\<^sup>*\<^sup>* s t \<and> l_list t = replicate k j \<and> p_running t \<and> \<not> p_panic t
      \<and> l_maxLen t = maxLen \<and> l_checking t = {#} \<and> l_adding t = {#} \<and> l_pushing t = {#}"
    if "int k \<le> maxLen + 1" for k
    using that
  proof (induction k)
    case 0
    then show ?case using assms by (auto simp: list_init_started started_list_def)
  next
    case (Suc k)
    then obtain t where t: "list_step\<^sup>*\<^sup>* s t" "l_list t = replicate k j" "p_running t" "\<not> p_panic t"
      "l_maxLen t = maxLen" "l_checking t = {#}" "l_adding t = {#}" "l_pushing t = {#}"
      by auto
    let ?u = "t\<lparr>l_list := l_list t @ [j], p_wg := p_wg t + 1, l_accepted := add_mset j (l_accepted t)\<rparr>"
    have "\<not> list_full t" using t Suc.prems by (simp add: list_full_def)
    from run_list_push [OF t(3,4) this t(6-8), of j] t(1)
    have "list_step\<^sup>*\<^sup>* s ?u" by (rule rtranclp_trans [rotated])
    then show ?case using t by (intro exI [of _ ?u]) (simp add: replicate_append_same)
  qed
  from this [of "nat maxLen + 1"] show ?thesis using assms(2) by auto
qed

theorem max_len_exceeded_witness:
  "\<exists>t. list_step\<^sup>*\<^sup>* (started_list 2 1) t \<and> int (length (l_list t)) = 1 + 1
     \<and> l_list t = replicate (nat 1 + 1) ''job''"
  by (rule max_len_exceeded [of 2 1]) (simp_all add: list_init_started)

text \<open>
  C27. \<open>Terminate\<close> of the list queue can wait for ever. A push counts its job before it appends it to
  the list; when the dispatcher sees the queue stopped and the list empty in between, it returns,
  and the job is appended to a list that nobody reads. In the state reached no goroutine can make any
  step: the counter is one, the job never runs, and the wait of \<open>Terminate\<close> does not end.
\<close>

theorem list_terminate_can_hang:
  assumes "list_init maxThread maxLen s"
  shows "\<exists>t. list_step\<^sup>*\<^sup>* s t \<and> p_terminate t = TWaiting \<and> p_wg t = 1 \<and> l_list t = [j]
     \<and> p_executed t = {#} \<and> (\<nexists>u. list_step t u)"
proof -
  define n where "n = nat maxThread"
  have s: "s = started_list n maxLen" using assms by (simp add: list_init_started n_def)
  let ?a = "s\<lparr>l_checking := {#j#}\<rparr>"
  let ?b = "s\<lparr>l_adding := {#j#}\<rparr>"
  let ?c = "s\<lparr>l_pushing := {#j#}, p_wg := 1, l_accepted := {#j#}\<rparr>"
  let ?d = "?c\<lparr>p_running := False, p_terminate := TWaiting\<rparr>"
  let ?e = "?d\<lparr>l_disp := LExit\<rparr>"
  let ?f = "?e\<lparr>l_pushing := {#}, l_list := [j]\<rparr>"
  note d = s started_list_def
  have "list_step s ?a" using list_push [of s j] by (simp add: d)
  moreover have "list_step ?a ?b" using list_admit [of ?a j] by (simp add: d list_full_def)
  moreover have "list_step ?b ?c" using list_add [of ?b j] by (simp add: d)
  moreover have "list_step ?c ?d" using list_term_start [of ?c] by (simp add: d)
  moreover have "list_step ?d ?e" using list_exit [of ?d] by (simp add: d)
  moreover have "list_step ?e ?f" using list_pushback [of ?e j] by (simp add: d)
  ultimately have "list_step\<^sup>*\<^sup>* s ?f" by (meson converse_rtranclp_into_rtranclp r_into_rtranclp)
  moreover have "\<not> list_step ?f u" for u
  proof
    assume "list_step ?f u"
    then show False
      by cases (auto simp: d elim!: worker_stepE quit_stepE)
  qed
  ultimately show ?thesis by (intro exI [of _ ?f]) (simp add: d)
qed

theorem list_terminate_can_hang_witness:
  "\<exists>t. list_step\<^sup>*\<^sup>* (started_list 2 0) t \<and> p_terminate t = TWaiting \<and> p_wg t = 1 \<and> l_list t = [''job'']
     \<and> p_executed t = {#} \<and> (\<nexists>u. list_step t u)"
  by (rule list_terminate_can_hang [of 2 0]) (simp add: list_init_started)

end
