(* ===== verification/Queues.thy ===== *)
theory Queues
  imports ChanQueue ListQueue
begin

text \<open>
  The package-level functions of \<open>eventrouter/internal/helpers/queue/queue.go\<close>: one queue in a
  package variable behind the interface \<open>Queuer\<close>. \<open>Push\<close> and \<open>Terminate\<close> on the variable are the
  steps of the queue it holds, and no step when it holds none.
\<close>

datatype 'j Queuer = QChan "'j chan_queue" | QList "'j list_queue"

text \<open>\<open>internalQueue\<close> is \<open>None\<close> for nil; the outer option is \<open>None\<close> for a panic.\<close>

fun Queuer_Run :: "'j Queuer \<Rightarrow> 'j Queuer option" where
  "Queuer_Run (QChan q) = map_option QChan (Run q)"
| "Queuer_Run (QList q) = map_option QList (list_Run q)"

definition pkg_Run :: "int \<Rightarrow> int \<Rightarrow> 'j Queuer option \<Rightarrow> 'j Queuer option option" where
  "pkg_Run maxCapacity maxThread internalQueue =
     (case (case internalQueue of
              None \<Rightarrow> map_option QChan (NewQueue maxCapacity maxThread)
            | Some q \<Rightarrow> Some q) of
        None \<Rightarrow> None
      | Some q \<Rightarrow> map_option Some (Queuer_Run q))"

definition pkg_RunListQueue :: "int \<Rightarrow> 'j Queuer option \<Rightarrow> 'j Queuer option option" where
  "pkg_RunListQueue maxThread internalQueue =
     (case (case internalQueue of
              None \<Rightarrow> map_option QList (NewListQueue maxThread)
            | Some q \<Rightarrow> Some q) of
        None \<Rightarrow> None
      | Some q \<Rightarrow> map_option Some (Queuer_Run q))"

text \<open>The first step of a \<open>Push\<close> of \<open>j\<close> and of a \<open>Terminate\<close> through the package variable.\<close>

fun pkg_Push :: "'j \<Rightarrow> 'j Queuer option \<Rightarrow> 'j Queuer option" where
  "pkg_Push j None = None"
| "pkg_Push j (Some (QChan q)) =
     Some (QChan (if p_running q then q\<lparr>q_adding := add_mset j (q_adding q)\<rparr> else q))"
| "pkg_Push j (Some (QList q)) =
     Some (QList (if p_running q then q\<lparr>l_checking := add_mset j (l_checking q)\<rparr> else q))"

fun pkg_Terminate :: "'j Queuer option \<Rightarrow> 'j Queuer option" where
  "pkg_Terminate None = None"
| "pkg_Terminate (Some (QChan q)) =
     Some (QChan (if p_running q then q\<lparr>p_running := False, p_terminate := TWaiting\<rparr> else q))"
| "pkg_Terminate (Some (QList q)) =
     Some (QList (if p_running q then q\<lparr>p_running := False, p_terminate := TWaiting\<rparr> else q))"

text \<open>The entry points are steps of the queues, so the theorems on the queues apply to them.\<close>

lemma pkg_Push_chan:
  "\<not> p_panic q \<Longrightarrow> pkg_Push j (Some (QChan q)) = Some (QChan q') \<Longrightarrow> chan_step\<^sup>*\<^sup>* q q'"
  by (auto split: if_splits intro: r_into_rtranclp push)

lemma pkg_Push_list:
  "\<not> p_panic q \<Longrightarrow> pkg_Push j (Some (QList q)) = Some (QList q') \<Longrightarrow> list_step\<^sup>*\<^sup>* q q'"
  by (auto split: if_splits intro: r_into_rtranclp list_push)

text \<open>
  The package variable is set once: the first successful \<open>Run\<close> creates a queue in its initial
  state, and a later \<open>Run\<close> or \<open>RunListQueue\<close>, whatever kind and sizes it asks for, keeps that queue as it
  is while it runs. A push before the first \<open>Run\<close> is dropped without an error.
\<close>

theorem package_queue_is_set_once:
  assumes "pkg_Run maxCapacity maxThread None = Some q"
  shows "(\<exists>s. q = Some (QChan s) \<and> chan_init maxCapacity maxThread s)
     \<and> pkg_Run c n q = Some q \<and> pkg_RunListQueue n q = Some q
     \<and> pkg_Push j None = None"
proof -
  obtain s where s: "NewQueue maxCapacity maxThread = Some s" and "Run s \<noteq> None"
    and q: "q = Some (QChan (the (Run s)))"
    using assms by (auto simp: pkg_Run_def split: option.splits)
  moreover have "p_running (the (Run s))" using \<open>Run s \<noteq> None\<close> by (auto simp: Run_def)
  then have "Run (the (Run s)) = Some (the (Run s))" by (simp add: Run_def)
  ultimately show ?thesis
    by (auto simp: pkg_Run_def pkg_RunListQueue_def chan_init_def)
qed

theorem package_queue_is_set_once_witness:
  "\<exists>q :: string Queuer option. pkg_Run 2 1 None = Some q \<and> pkg_RunListQueue 5 q = Some q \<and> pkg_Push ''job'' None = None"
proof -
  have "\<exists>q :: string Queuer option. pkg_Run 2 1 None = Some q"
    by (simp add: pkg_Run_def NewQueue_def Run_def)
  then obtain q :: "string Queuer option" where "pkg_Run 2 1 None = Some q" ..
  then show ?thesis using package_queue_is_set_once [of 2 1 q 0 5 "''job''"] by blast
qed

end
