(* ===== verification/Event.thy ===== *)
theory Event
  imports Prelude
begin

text \<open>
  Events as both services see them, and their labels: \<open>eventsse/internal/labels/labels.go\<close> and the
  test of \<open>eventrouter/internal/router/labels.go\<close>. The event type is Kubernetes' \<open>corev1.Event\<close>; the
  record has the fields the programs read or write, and the rest of it in \<open>ev_rest\<close>.

  A time is the number of nanoseconds since the zero \<open>time.Time\<close>. Maps of labels are association
  lists read by the first entry of a key, so that \<open>len\<close> is computable; the nil map and the empty map
  behave alike in every function below.
\<close>

section \<open>Timestamps\<close>

datatype timestamp = Timestamp (nanos: int)

instantiation timestamp :: linorder
begin

definition less_eq_timestamp :: "timestamp \<Rightarrow> timestamp \<Rightarrow> bool" where
  "less_eq_timestamp t u \<longleftrightarrow> nanos t \<le> nanos u"

definition less_timestamp :: "timestamp \<Rightarrow> timestamp \<Rightarrow> bool" where
  "less_timestamp t u \<longleftrightarrow> nanos t < nanos u"

instance
  by intro_classes (auto simp: less_eq_timestamp_def less_timestamp_def intro: timestamp.expand)

end

definition time_zero :: timestamp where
  "time_zero = Timestamp 0"

definition time_After :: "timestamp \<Rightarrow> timestamp \<Rightarrow> bool" where
  "time_After t u \<longleftrightarrow> nanos u < nanos t"

text \<open>
  \<open>time.Since\<close>: the difference saturates at the ends of the range of \<open>Duration\<close>.
\<close>

definition duration_max :: int where "duration_max = 2 ^ 63 - 1"
definition duration_min :: int where "duration_min = - (2 ^ 63)"

definition time_Since :: "timestamp \<Rightarrow> timestamp \<Rightarrow> int" where
  "time_Since now t = max duration_min (min duration_max (nanos now - nanos t))"

lemma time_After_less [simp]: "time_After t u \<longleftrightarrow> u < t"
  by (simp add: time_After_def less_timestamp_def)

section \<open>Events\<close>

type_synonym label_map = "(string \<times> string) list"

record object_reference =
  ref_Group :: string
  ref_Version :: string
  ref_Kind :: string
  ref_Name :: string
  ref_Namespace :: string

record 'x event =
  ev_UID :: string
  ev_Labels :: label_map
  ev_LastTimestamp :: timestamp
  ev_InvolvedObject :: object_reference
  ev_rest :: 'x

definition GetLabels :: "'x event \<Rightarrow> label_map" where
  "GetLabels e = ev_Labels e"

text \<open>Indexing a map yields the zero value for a missing key.\<close>

definition map_index :: "label_map \<Rightarrow> string \<Rightarrow> string" where
  "map_index m k = (case map_of m k of None \<Rightarrow> [] | Some v \<Rightarrow> v)"

definition map_put :: "string \<Rightarrow> string \<Rightarrow> label_map \<Rightarrow> label_map" where
  "map_put k v m = (k, v) # filter (\<lambda>(k', v'). k' \<noteq> k) m"

lemma map_of_map_put [simp]: "map_of (map_put k v m) = (map_of m)(k \<mapsto> v)"
proof -
  have "map_of (filter (\<lambda>(k', v'). k' \<noteq> k) m) = (map_of m)(k := None)"
    by (induction m) (auto simp: fun_eq_iff)
  then show ?thesis by (simp add: map_put_def)
qed

lemma map_put_not_Nil [simp]: "map_put k v m \<noteq> []"
  by (simp add: map_put_def)

lemma map_index_put [simp]: "map_index (map_put k v m) k' = (if k' = k then v else map_index m k')"
  by (simp add: map_index_def)

section \<open>Labels\<close>

definition keyCompositionID :: string where
  "keyCompositionID = ''krateo.io/composition-id''"

definition keyPatchedBy :: string where
  "keyPatchedBy = ''krateo.io/patched-by''"

definition WasPatchedByKrateo :: "'x event \<Rightarrow> bool" where
  "WasPatchedByKrateo e =
     (let labels = GetLabels e
      in if length labels = 0 then False else map_of labels keyPatchedBy \<noteq> None)"

definition CompositionID :: "'x event \<Rightarrow> string" where
  "CompositionID e =
     (let labels = GetLabels e
      in if length labels = 0 then []
         else (case map_of labels keyCompositionID of Some val \<Rightarrow> val | None \<Rightarrow> []))"

definition hasCompositionId :: "'x event \<Rightarrow> bool" where
  "hasCompositionId e =
     (let labels = GetLabels e
      in if length labels = 0 then False
         else
           (let val = map_index labels keyCompositionID; found = (map_of labels keyCompositionID \<noteq> None)
            in if length val = 0 then False else found))"

lemma CompositionID_index: "CompositionID e = map_index (ev_Labels e) keyCompositionID"
  by (auto simp: CompositionID_def GetLabels_def map_index_def Let_def split: option.splits)

lemma hasCompositionId_iff: "hasCompositionId e \<longleftrightarrow> CompositionID e \<noteq> []"
  by (auto simp: hasCompositionId_def CompositionID_def GetLabels_def map_index_def Let_def
      split: option.splits)

end
