(* ===== verification/Keys.thy ===== *)
theory Keys
  imports Event
begin

text \<open>
  Store keys (\<open>PrepareKey\<close> of \<open>eventsse/internal/store/store.go\<close>), with the functions of Go's package
  \<open>path\<close> it calls. \<open>path.Clean\<close> is modelled by its documented rules over the elements of the path:
  empty elements and \<open>.\<close> go away, \<open>..\<close> removes the element before it, and a leading \<open>..\<close> stays in a
  relative path.
\<close>

section \<open>Package path\<close>

fun clean_elems :: "bool \<Rightarrow> string list \<Rightarrow> string list \<Rightarrow> string list" where
  "clean_elems rooted stack [] = rev stack"
| "clean_elems rooted stack (e # es) =
     (if e = [] \<or> e = ''.'' then clean_elems rooted stack es
      else if e = ''..'' then
        (case stack of
           [] \<Rightarrow> clean_elems rooted (if rooted then [] else [''..'']) es
         | t # ts \<Rightarrow> clean_elems rooted (if t = ''..'' then ''..'' # t # ts else ts) es)
      else clean_elems rooted (e # stack) es)"

fun join_elems :: "string list \<Rightarrow> string" where
  "join_elems [] = []"
| "join_elems [e] = e"
| "join_elems (e # es) = e @ ''/'' @ join_elems es"

definition path_Clean :: "string \<Rightarrow> string" where
  "path_Clean p =
     (if p = [] then ''.''
      else
        (let rooted = (hd p = CHR ''/'');
             body = join_elems (clean_elems rooted [] (strings_Split (CHR ''/'') p))
         in if rooted then ''/'' @ body else if body = [] then ''.'' else body))"

fun join_buf :: "string \<Rightarrow> string list \<Rightarrow> string" where
  "join_buf buf [] = buf"
| "join_buf buf (e # es) =
     join_buf (if buf \<noteq> [] \<or> e \<noteq> [] then (if buf \<noteq> [] then buf @ ''/'' @ e else e) else buf) es"

definition path_Join :: "string list \<Rightarrow> string" where
  "path_Join es = (if list_all (\<lambda>e. e = []) es then [] else path_Clean (join_buf [] es))"

section \<open>Keys\<close>

definition RootKey :: string where
  "RootKey = ''krateo.io.events''"

definition PrepareKey :: "(string \<Rightarrow> string) \<Rightarrow> string \<Rightarrow> string \<Rightarrow> string" where
  "PrepareKey ulow eventId compositionId =
     (let key = [];
          key = (if 0 < length compositionId then path_Join [key, ''comp-'' @ compositionId] else key);
          key = (if 0 < length eventId then path_Join [key, eventId] else key)
      in path_Join [RootKey, strings_ToLower ulow key])"

section \<open>Lemmas on paths\<close>

text \<open>An element that \<open>Clean\<close> keeps as it is.\<close>

definition plain_elem :: "string \<Rightarrow> bool" where
  "plain_elem e \<longleftrightarrow> e \<noteq> [] \<and> e \<noteq> ''.'' \<and> e \<noteq> ''..'' \<and> CHR ''/'' \<notin> set e"

lemma clean_plain:
  "list_all plain_elem es \<Longrightarrow> clean_elems rooted stack (es @ fs) = clean_elems rooted (rev es @ stack) fs"
  by (induction es arbitrary: stack) (auto simp: plain_elem_def)

lemma Split_append_sep:
  "d \<notin> set e \<Longrightarrow> strings_Split d (e @ d # s) = e # strings_Split d s"
  by (induction e) auto

lemma Split_join:
  assumes "list_all (\<lambda>e. CHR ''/'' \<notin> set e) es" and "es \<noteq> []"
  shows "strings_Split (CHR ''/'') (join_elems es) = es"
  using assms
proof (induction es rule: join_elems.induct)
  case (3 e f es)
  then show ?case by (simp add: Split_append_sep)
qed (auto simp: Split_no_sep)

lemma join_elems_Cons: "es \<noteq> [] \<Longrightarrow> join_elems (e # es) = e @ ''/'' @ join_elems es"
  by (cases es) simp_all

lemma join_elems_eq_Nil: "list_all plain_elem es \<Longrightarrow> join_elems es = [] \<longleftrightarrow> es = []"
  by (cases es rule: join_elems.cases) (auto simp: plain_elem_def)

lemma plain_no_slash: "list_all plain_elem es \<Longrightarrow> list_all (\<lambda>e. CHR ''/'' \<notin> set e) es"
  by (auto simp: list_all_iff plain_elem_def)

lemma hd_plain: "plain_elem e \<Longrightarrow> e \<noteq> [] \<and> hd e \<noteq> CHR ''/''"
  by (metis list.set_sel(1) plain_elem_def)

lemma hd_join_plain: "list_all plain_elem es \<Longrightarrow> es \<noteq> [] \<Longrightarrow> hd (join_elems es) \<noteq> CHR ''/''"
  using hd_plain [of "hd es"] by (cases es rule: join_elems.cases) (simp_all add: hd_append)

lemma path_Clean_plain:
  assumes "list_all plain_elem es" and "es \<noteq> []"
  shows "path_Clean (join_elems es) = join_elems es"
  using assms clean_plain [OF assms(1), of False "[]" "[]"] hd_join_plain [OF assms]
  by (simp add: path_Clean_def Split_join plain_no_slash join_elems_eq_Nil)

lemma join_elems_append:
  "es \<noteq> [] \<Longrightarrow> fs \<noteq> [] \<Longrightarrow> join_elems (es @ fs) = join_elems es @ ''/'' @ join_elems fs"
  by (induction es rule: join_elems.induct) (simp_all add: join_elems_Cons)

lemma path_Join_plain:
  assumes "list_all plain_elem es" "es \<noteq> []" and "list_all plain_elem fs" "fs \<noteq> []"
  shows "path_Join [join_elems es, join_elems fs] = join_elems (es @ fs)"
  using assms path_Clean_plain [of "es @ fs"]
  by (simp add: path_Join_def join_elems_eq_Nil join_elems_append)

lemma path_Join_first: 
  assumes "list_all plain_elem es" "es \<noteq> []"
  shows "path_Join [[], join_elems es] = join_elems es" and "path_Join [join_elems es, []] = join_elems es"
proof -
  show "path_Join [[], join_elems es] = join_elems es"
    using assms by (simp add: path_Join_def join_elems_eq_Nil path_Clean_plain)
  let ?p = "join_elems es @ ''/''"
  have "?p = join_elems (es @ [[]])" using assms(2) by (simp add: join_elems_append)
  moreover have "strings_Split (CHR ''/'') (join_elems (es @ [[]])) = es @ [[]]"
    using assms by (intro Split_join) (simp_all add: plain_no_slash)
  ultimately have "strings_Split (CHR ''/'') ?p = es @ [[]]" by simp
  moreover have "?p \<noteq> []" "hd ?p \<noteq> CHR ''/''"
    using assms hd_join_plain [OF assms] by (simp_all add: join_elems_eq_Nil hd_append)
  ultimately have "path_Clean ?p = join_elems es"
    using assms clean_plain [OF assms(1), of False "[]" "[[]]"]
    by (simp add: path_Clean_def join_elems_eq_Nil Let_def)
  then show "path_Join [join_elems es, []] = join_elems es"
    using assms by (simp add: path_Join_def join_elems_eq_Nil)
qed

lemma ascii_lower_fixes:
  assumes "\<not> (65 \<le> (of_char d :: nat) \<and> (of_char d :: nat) \<le> 122)"
  shows "ascii_lower c = d \<longleftrightarrow> c = d"
proof -
  have "ascii_lower c = d \<longleftrightarrow> (of_char (ascii_lower c) :: nat) = of_char d" by simp
  also have "\<dots> \<longleftrightarrow> (of_char c :: nat) = of_char d" using assms by (auto simp: of_char_ascii_lower)
  finally show ?thesis by simp
qed

lemma ascii_lower_slash_dot:
  "ascii_lower c = CHR ''/'' \<longleftrightarrow> c = CHR ''/''" "ascii_lower c = CHR ''.'' \<longleftrightarrow> c = CHR ''.''"
  by (rule ascii_lower_fixes, simp)+

lemma plain_elem_lower: "plain_elem e \<Longrightarrow> plain_elem (map ascii_lower e)"
  by (auto simp: plain_elem_def ascii_lower_slash_dot map_eq_Cons_conv image_iff)
    (metis ascii_lower_slash_dot(1))

section \<open>What the keys are\<close>

lemma map_lower_join:
  "map ascii_lower (join_elems es) = join_elems (map (map ascii_lower) es)"
proof (induction es rule: join_elems.induct)
  case (3 e f es)
  have "ascii_lower (CHR ''/'') = CHR ''/''" by (simp add: ascii_lower_slash_dot)
  with 3 show ?case by simp
qed simp_all

lemma ascii_join: "list_all (list_all is_ascii) es \<Longrightarrow> list_all is_ascii (join_elems es)"
  by (induction es rule: join_elems.induct) (simp_all add: is_ascii_def)

lemma plain_comp: "CHR ''/'' \<notin> set c \<Longrightarrow> plain_elem (''comp-'' @ c)"
  by (simp add: plain_elem_def)

lemma plain_root: "plain_elem RootKey"
  by (simp add: plain_elem_def RootKey_def)

text \<open>The identifiers the services use: no slash, ASCII, and an event id that is not a dot or two.\<close>

definition ids_ok :: "string \<Rightarrow> string \<Rightarrow> bool" where
  "ids_ok e c \<longleftrightarrow> (e = [] \<or> plain_elem e) \<and> CHR ''/'' \<notin> set c \<and> list_all is_ascii e \<and> list_all is_ascii c"

definition key_elems :: "string \<Rightarrow> string \<Rightarrow> string list" where
  "key_elems e c =
     (if c = [] then [] else [''comp-'' @ map ascii_lower c]) @ (if e = [] then [] else [map ascii_lower e])"

lemma lower_comp: "map ascii_lower (''comp-'' @ c) = ''comp-'' @ map ascii_lower c"
  by (simp add: ascii_lower_def)

lemma PrepareKey_elems:
  assumes "ids_ok e c"
  shows "PrepareKey ulow e c = join_elems (RootKey # key_elems e c)"
proof -
  let ?es = "(if c = [] then [] else [''comp-'' @ c]) @ (if e = [] then [] else [e])"
  have plain: "list_all plain_elem ?es" and ascii: "list_all (list_all is_ascii) ?es"
    using assms plain_comp [of c] by (auto simp: ids_ok_def is_ascii_def)
  have step1: "(if 0 < length c then path_Join [[], ''comp-'' @ c] else []) = (if c = [] then [] else ''comp-'' @ c)"
    using path_Join_first(1) [of "[''comp-'' @ c]"] plain_comp [of c] assms by (auto simp: ids_ok_def)
  have step2: "path_Join [if c = [] then [] else ''comp-'' @ c, e] = join_elems ?es" if "e \<noteq> []"
    using that assms path_Join_first(1) [of "[e]"] path_Join_plain [of "[''comp-'' @ c]" "[e]"]
      plain_comp [of c] by (auto simp: ids_ok_def)
  have lower: "map (map ascii_lower) ?es = key_elems e c"
    using lower_comp [of c] by (simp add: key_elems_def)
  have "strings_ToLower ulow (join_elems ?es) = join_elems (key_elems e c)"
    unfolding ToLower_ascii [OF ascii_join [OF ascii]] map_lower_join lower ..
  then have "PrepareKey ulow e c = path_Join [RootKey, join_elems (key_elems e c)]"
    unfolding PrepareKey_def Let_def step1 using step2 by auto
  also have "path_Join [RootKey, join_elems (key_elems e c)] = join_elems (RootKey # key_elems e c)"
  proof (cases "key_elems e c = []")
    case True
    then show ?thesis using path_Join_first(2) [of "[RootKey]"] plain_root by simp
  next
    case False
    have "list_all plain_elem (key_elems e c)"
      using plain plain_elem_lower unfolding lower [symmetric] by (auto simp: list_all_iff)
    then show ?thesis using path_Join_plain [of "[RootKey]" "key_elems e c"] plain_root False by simp
  qed
  finally show ?thesis .
qed

lemma key_elems_no_slash:
  "ids_ok e c \<Longrightarrow> list_all (\<lambda>x. CHR ''/'' \<notin> set x) (RootKey # key_elems e c)"
  by (auto simp: key_elems_def ids_ok_def RootKey_def ascii_lower_slash_dot image_iff plain_elem_def)
    (metis ascii_lower_slash_dot(1))+

text \<open>
  C21. The layout of the keys: for identifiers without a slash, in ASCII, the key is the root, then
  \<open>/comp-\<close> and the composition id if there is one, then \<open>/\<close> and the event id if there is one, all in
  lower case; so two events have the same key exactly when their ids agree up to case.
\<close>

theorem PrepareKey_layout:
  assumes "ids_ok e c"
  shows "PrepareKey ulow e c =
       ''krateo.io.events'' @ (if c = [] then [] else ''/comp-'' @ map ascii_lower c)
         @ (if e = [] then [] else ''/'' @ map ascii_lower e)
     \<and> (\<forall>e' c'. ids_ok e' c' \<and> e \<noteq> [] \<and> e' \<noteq> [] \<longrightarrow>
          (PrepareKey ulow e c = PrepareKey ulow e' c' \<longleftrightarrow>
             map ascii_lower e = map ascii_lower e' \<and> map ascii_lower c = map ascii_lower c'))"
proof -
  have inj: "PrepareKey ulow e c = PrepareKey ulow e' c' \<longleftrightarrow> key_elems e c = key_elems e' c'"
    if "ids_ok e' c'" for e' c'
    unfolding PrepareKey_elems [OF assms] PrepareKey_elems [OF that]
    using Split_join [OF key_elems_no_slash [OF assms]] Split_join [OF key_elems_no_slash [OF that]]
    by (metis list.distinct(1) list.inject)
  have "key_elems e c = key_elems e' c' \<longleftrightarrow>
      map ascii_lower e = map ascii_lower e' \<and> map ascii_lower c = map ascii_lower c'"
    if "e \<noteq> []" "e' \<noteq> []" for e' c'
    using that by (auto simp: key_elems_def)
  moreover have "PrepareKey ulow e c =
      ''krateo.io.events'' @ (if c = [] then [] else ''/comp-'' @ map ascii_lower c)
        @ (if e = [] then [] else ''/'' @ map ascii_lower e)"
    by (simp add: PrepareKey_elems [OF assms] key_elems_def RootKey_def)
  ultimately show ?thesis using inj by blast
qed

theorem PrepareKey_layout_witness:
  "PrepareKey id ''123'' ''Abc'' = ''krateo.io.events/comp-abc/123''"
proof -
  have "ids_ok ''123'' ''Abc''" by (simp add: ids_ok_def plain_elem_def is_ascii_def)
  then show ?thesis
    using PrepareKey_layout [of "''123''" "''Abc''" id]
    by (simp add: ascii_lower_def char_of_def bit_Suc_0_iff)
qed

text \<open>The elements of a cleaned path are not empty and have no slash, so a relative path stays relative.\<close>

definition proper_elem :: "string \<Rightarrow> bool" where
  "proper_elem e \<longleftrightarrow> e \<noteq> [] \<and> CHR ''/'' \<notin> set e"

lemma clean_elems_proper:
  assumes "list_all (\<lambda>e. CHR ''/'' \<notin> set e) es" and "list_all proper_elem stack"
  shows "list_all proper_elem (clean_elems rooted stack es)"
  using assms
proof (induction rooted stack es rule: clean_elems.induct)
  case (1 rooted stack)
  then show ?case by (simp add: list_all_rev)
next
  case (2 rooted stack e es)
  have dots: "proper_elem ''..''" by (simp add: proper_elem_def)
  show ?case
  proof (cases "e = [] \<or> e = ''.'' \<or> e = ''..''")
    case True
    with 2 dots show ?thesis by (cases stack) auto
  next
    case False
    with 2 have "proper_elem e" by (simp add: proper_elem_def)
    with False 2 show ?thesis by simp
  qed
qed

lemma hd_join_proper:
  assumes "list_all proper_elem es" and "es \<noteq> []"
  shows "join_elems es \<noteq> [] \<and> hd (join_elems es) \<noteq> CHR ''/''"
proof -
  have "proper_elem (hd es)" using assms by (cases es) simp_all
  then have "hd es \<noteq> []" "hd (hd es) \<noteq> CHR ''/''" by (auto simp: proper_elem_def dest: hd_in_set)
  then show ?thesis using assms(2) by (cases es rule: join_elems.cases) (simp_all add: hd_append)
qed

lemma path_Clean_relative:
  assumes "p \<noteq> []" and "hd p \<noteq> CHR ''/''"
  shows "path_Clean p \<noteq> [] \<and> hd (path_Clean p) \<noteq> CHR ''/''"
proof -
  let ?es = "clean_elems False [] (strings_Split (CHR ''/'') p)"
  have "list_all proper_elem ?es"
    by (rule clean_elems_proper) (simp_all add: list_all_iff Split_pieces)
  then show ?thesis
    using assms hd_join_proper [of ?es] by (cases "?es = []") (simp_all add: path_Clean_def Let_def)
qed

lemma PrepareKey_relative: "PrepareKey ulow e c \<noteq> [] \<and> hd (PrepareKey ulow e c) \<noteq> CHR ''/''"
proof -
  have "path_Join [RootKey, k] \<noteq> [] \<and> hd (path_Join [RootKey, k]) \<noteq> CHR ''/''" for k
    using path_Clean_relative [of "join_buf [] [RootKey, k]"] by (simp add: path_Join_def RootKey_def)
  then show ?thesis by (simp add: PrepareKey_def Let_def)
qed

text \<open>
  C22. A composition id is not confined to the root: an id with \<open>..\<close> elements (the query parameter of
  \<open>/events\<close> and the label of a posted event are taken as they come) yields any key that is a clean
  relative path of ASCII characters in lower case, whatever its first element, and also the root key
  itself, under which all compositions lie. A key with a leading slash is out of reach: no ids
  yield one.
\<close>

theorem PrepareKey_escapes_root:
  assumes "list_all plain_elem es" and "es \<noteq> []" and "list_all (list_all is_ascii) es"
    and "map (map ascii_lower) es = es"
  shows "PrepareKey ulow [] (''x/../../'' @ join_elems es) = join_elems es
     \<and> PrepareKey ulow [] ''x/..'' = RootKey
     \<and> hd (PrepareKey ulow e c) \<noteq> CHR ''/''"
proof -
  have plain_x: "plain_elem ''comp-x''" by (simp add: plain_elem_def)
  have esc: "path_Clean (join_elems (a # ''..'' # fs)) = join_elems (clean_elems False [] fs)"
    if "plain_elem a" "clean_elems False [] fs \<noteq> []" "join_elems (clean_elems False [] fs) \<noteq> []"
      "list_all (\<lambda>e. CHR ''/'' \<notin> set e) fs" for a fs
  proof -
    have "join_elems (a # ''..'' # fs) \<noteq> []" "hd (join_elems (a # ''..'' # fs)) \<noteq> CHR ''/''"
      using hd_plain [OF that(1)] by (simp_all add: hd_append)
    moreover have "strings_Split (CHR ''/'') (join_elems (a # ''..'' # fs)) = a # ''..'' # fs"
      using that(1,4) by (intro Split_join) (simp_all add: plain_elem_def)
    moreover have "clean_elems False [] (a # ''..'' # fs) = clean_elems False [] fs"
      using that(1) by (simp add: plain_elem_def)
    ultimately show ?thesis using that by (simp add: path_Clean_def Let_def)
  qed
  have dots: "clean_elems False [] (''..'' # es) = ''..'' # es"
    using clean_plain [OF assms(1), of False "[''..'']" "[]"] by simp
  have clean: "clean_elems False [] es = es"
    using clean_plain [OF assms(1), of False "[]" "[]"] by simp
  have slash: "list_all (\<lambda>e. CHR ''/'' \<notin> set e) es" using assms(1) by (rule plain_no_slash)
  have ne: "join_elems es \<noteq> []" using assms by (simp add: join_elems_eq_Nil)
  have "''comp-'' @ ''x/../../'' @ join_elems es = join_elems (''comp-x'' # ''..'' # ''..'' # es)"
    using assms(2) by (simp add: join_elems_Cons)
  then have k1: "path_Join [[], ''comp-'' @ ''x/../../'' @ join_elems es] = join_elems (''..'' # es)"
    using esc [OF plain_x, of "''..'' # es"] dots slash assms(2)
    by (simp add: path_Join_def join_elems_Cons)
  have "list_all is_ascii (join_elems (''..'' # es))"
    using assms(3) by (intro ascii_join) (simp add: is_ascii_def)
  moreover have "map ascii_lower (join_elems (''..'' # es)) = join_elems (''..'' # es)"
    using assms(4) by (simp add: map_lower_join ascii_lower_def [of "CHR ''.''"])
  ultimately have k2: "strings_ToLower ulow (join_elems (''..'' # es)) = join_elems (''..'' # es)"
    by (simp add: ToLower_ascii)
  have "RootKey @ ''/'' @ join_elems (''..'' # es) = join_elems (RootKey # ''..'' # es)"
    by simp
  then have "path_Join [RootKey, join_elems (''..'' # es)] = join_elems es"
    using esc [OF plain_root, of es] clean slash assms(2) ne
    by (simp add: path_Join_def join_elems_Cons plain_root RootKey_def)
  with k1 k2 have escape: "PrepareKey ulow [] (''x/../../'' @ join_elems es) = join_elems es"
    by (simp add: PrepareKey_def)
  have "path_Clean ''comp-x/..'' = ''.''"
    by (simp add: path_Clean_def Let_def)
  then have "path_Join [[], ''comp-'' @ ''x/..''] = ''.''" by (simp add: path_Join_def)
  moreover have "strings_ToLower ulow ''.'' = ''.''"
    by (simp add: strings_ToLower_def is_ascii_def ascii_lower_def)
  moreover have "strings_Split (CHR ''/'') (RootKey @ ''/.'') = [RootKey, ''.'']"
    using plain_root Split_append_sep [of "CHR ''/''" RootKey "''.''"] by (simp add: plain_elem_def)
  then have "path_Join [RootKey, ''.''] = RootKey"
    using plain_root hd_plain [OF plain_root]
    by (simp add: path_Join_def path_Clean_def Let_def hd_append plain_elem_def)
  ultimately have "PrepareKey ulow [] ''x/..'' = RootKey"
    by (simp add: PrepareKey_def)
  with escape PrepareKey_relative show ?thesis by blast
qed

theorem PrepareKey_escapes_root_witness:
  "PrepareKey id [] ''x/../../registry/secrets'' = ''registry/secrets''"
proof -
  have "list_all plain_elem [''registry'', ''secrets'']"
    and "list_all (list_all is_ascii) [''registry'', ''secrets'']"
    and "map (map ascii_lower) [''registry'', ''secrets''] = [''registry'', ''secrets'']"
    by (simp_all add: plain_elem_def is_ascii_def ascii_lower_def)
  then show ?thesis
    using PrepareKey_escapes_root [of "[''registry'', ''secrets'']" id] by simp
qed

end
