(* ===== verification/Store.thy ===== *)
theory Store
  imports Etcd Http Keys
begin

text \<open>
  The event store of eventsse (\<open>eventsse/internal/store/store.go\<close>, \<open>watcher.go\<close>): the interface
  \<open>Store\<close> the handlers use, as a record of operations, and its etcd implementation. The client is a
  parameter (\<open>Etcd\<close>), and so are the JSON encoder and decoder for events: \<open>enc\<close> without the newline that
  \<open>Encoder.Encode\<close> adds, and \<open>dec\<close>, each with an error of the type of the client's errors.
\<close>

section \<open>The interface\<close>

record GetOptions =
  go_Limit :: int
  go_EndKey :: string

record ('w, 'e, 'x) Store =
  st_PrepareKey :: "string \<Rightarrow> string \<Rightarrow> string"
  st_Set :: "'w \<Rightarrow> string \<Rightarrow> 'x event \<Rightarrow> 'e option \<times> 'w"
  st_Get :: "'w \<Rightarrow> string \<Rightarrow> GetOptions \<Rightarrow> ('x event list \<times> bool \<times> 'e option) \<times> 'w"
  st_Delete :: "'w \<Rightarrow> string \<Rightarrow> 'e option \<times> 'w"
  st_Keys :: "'w \<Rightarrow> int \<Rightarrow> (string list \<times> 'e option) \<times> 'w"

text \<open>
  What the handlers rely on. \<open>contract\<close> is the documented behaviour of the backend and \<open>readable\<close> holds
  of the events that survive encoding and decoding.
\<close>

locale event_store =
  fixes st :: "('w, 'e, 'x) Store" and contract :: bool and readable :: "'x event \<Rightarrow> bool"
  assumes get_found: "st_Get st w k opts = ((data, found, None), w') \<Longrightarrow> found \<longleftrightarrow> data \<noteq> []"
    and get_bound: "contract \<Longrightarrow> st_Get st w k opts = ((data, found, None), w') \<Longrightarrow> 0 < go_Limit opts \<Longrightarrow>
        int (length data) \<le> go_Limit opts"
    and get_after_set: "contract \<Longrightarrow> readable v \<Longrightarrow> st_Set st w k v = (None, w1) \<Longrightarrow>
        strings_HasPrefix k k0 \<Longrightarrow> st_Get st w1 k0 \<lparr>go_Limit = 0, go_EndKey = []\<rparr> = ((data, found, None), w2) \<Longrightarrow> v \<in> set data"
begin

lemma set_then_found:
  assumes "contract" and "readable v" and "st_Set st w k v = (None, w1)" and "strings_HasPrefix k k0"
    and "st_Get st w1 k0 \<lparr>go_Limit = 0, go_EndKey = []\<rparr> = ((data, found, None), w2)"
  shows "found \<and> v \<in> set data"
  using get_after_set [OF assms] get_found [OF assms(5)] by auto

end

section \<open>The etcd client\<close>

record Client =
  c_timeOut :: int
  c_ttl :: int

definition SetTTL :: "int \<Rightarrow> Client \<Rightarrow> Client" where
  "SetTTL ttl c = c\<lparr>c_ttl := ttl\<rparr>"

definition lease_opts :: "('w, 'e) etcd \<Rightarrow> Client \<Rightarrow> 'w \<Rightarrow> ('e + op_option list) \<times> 'w" where
  "lease_opts cli c w =
     (if 0 < c_ttl c then
        (case et_Grant cli w (c_ttl c) of
           (Inl e, w') \<Rightarrow> (Inl e, w')
         | (Inr lease, w') \<Rightarrow> (Inr [WithLease lease], w'))
      else (Inr [], w))"

definition client_Set ::
  "('x event \<Rightarrow> 'e + string) \<Rightarrow> ('w, 'e) etcd \<Rightarrow> Client \<Rightarrow> 'w \<Rightarrow> string \<Rightarrow> 'x event \<Rightarrow> 'e option \<times> 'w" where
  "client_Set enc cli c w k v =
     (case enc v of
        Inl e \<Rightarrow> (Some e, w)
      | Inr js \<Rightarrow>
          (case lease_opts cli c w of
             (Inl e, w1) \<Rightarrow> (Some e, w1)
           | (Inr opts, w1) \<Rightarrow> et_Put cli w1 k (js @ newline) opts))"

fun decode_all :: "(string \<Rightarrow> 'e + 'x event) \<Rightarrow> kv list \<Rightarrow> 'x event list \<Rightarrow> 'x event list \<times> 'e option" where
  "decode_all dec [] data = (data, None)"
| "decode_all dec (el # kvs) data =
     (case dec (kv_Value el) of
        Inl e \<Rightarrow> (data, Some e)
      | Inr obj \<Rightarrow> decode_all dec kvs (data @ [obj]))"

definition get_ops :: "GetOptions \<Rightarrow> op_option list" where
  "get_ops opts =
     [WithLimit (go_Limit opts), WithSortByKeyDescend]
     @ (if 0 < length (go_EndKey opts) then [WithRange (go_EndKey opts)] else [WithPrefix])"

definition client_Get ::
  "(string \<Rightarrow> 'e + 'x event) \<Rightarrow> ('w, 'e) etcd \<Rightarrow> 'w \<Rightarrow> string \<Rightarrow> GetOptions
     \<Rightarrow> ('x event list \<times> bool \<times> 'e option) \<times> 'w" where
  "client_Get dec cli w k opts =
     (case et_Get cli w k (get_ops opts) of
        (Inl e, w') \<Rightarrow> (([], False, Some e), w')
      | (Inr kvs, w') \<Rightarrow>
          if length kvs = 0 then (([], False, None), w')
          else (case decode_all dec kvs [] of
                  (data, Some e) \<Rightarrow> ((data, False, Some e), w')
                | (data, None) \<Rightarrow> ((data, True, None), w')))"

definition client_Delete :: "('w, 'e) etcd \<Rightarrow> 'w \<Rightarrow> string \<Rightarrow> 'e option \<times> 'w" where
  "client_Delete cli w k = et_Delete cli w k"

fun collect_keys :: "kv list \<Rightarrow> string list \<Rightarrow> string list" where
  "collect_keys [] all = all"
| "collect_keys (x # kvs) all =
     (if kv_Key x \<noteq> [] \<and> hd (kv_Key x) = CHR 0x00 then collect_keys kvs all
      else collect_keys kvs (all @ [strings_TrimSpace (kv_Key x)]))"

definition client_Keys :: "('w, 'e) etcd \<Rightarrow> 'w \<Rightarrow> int \<Rightarrow> (string list \<times> 'e option) \<times> 'w" where
  "client_Keys cli w limit =
     (case et_Get cli w [] [WithLimit limit, WithPrefix] of
        (Inl e, w') \<Rightarrow> (([], Some e), w')
      | (Inr kvs, w') \<Rightarrow> ((collect_keys kvs [], None), w'))"

definition client_store ::
  "(string \<Rightarrow> string) \<Rightarrow> ('x event \<Rightarrow> 'e + string) \<Rightarrow> (string \<Rightarrow> 'e + 'x event) \<Rightarrow> ('w, 'e) etcd \<Rightarrow> Client
     \<Rightarrow> ('w, 'e, 'x) Store" where
  "client_store ulow enc dec cli c =
     \<lparr>st_PrepareKey = PrepareKey ulow, st_Set = client_Set enc cli c, st_Get = client_Get dec cli,
      st_Delete = client_Delete cli, st_Keys = client_Keys cli\<rparr>"

text \<open>
  The constructors. \<open>new\<close> is \<open>clientv3.New\<close> on a list of endpoints; \<open>status\<close> yields whether the
  response was there.
\<close>

datatype 'e client_error = ClientError 'e | NilStatus

definition default_endpoints :: "string list \<Rightarrow> string list" where
  "default_endpoints eps = (if length eps = 0 then [''localhost:2379''] else eps)"

definition NewClient ::
  "(string list \<Rightarrow> 'w \<Rightarrow> ('e + 'cli) \<times> 'w) \<Rightarrow> ('cli \<Rightarrow> string \<Rightarrow> 'w \<Rightarrow> ('e + bool) \<times> 'w) \<Rightarrow> string list \<Rightarrow> 'w
     \<Rightarrow> ('e client_error + 'cli \<times> Client) \<times> 'w" where
  "NewClient new status eps w =
     (let eps = default_endpoints eps
      in case new eps w of
           (Inl e, w1) \<Rightarrow> (Inl (ClientError e), w1)
         | (Inr cli, w1) \<Rightarrow>
             (case status cli (hd eps) w1 of
                (Inl e, w2) \<Rightarrow> (Inl (ClientError e), w2)
              | (Inr present, w2) \<Rightarrow>
                  (if \<not> present then Inl NilStatus
                   else Inr (cli, \<lparr>c_timeOut = 200 * 10 ^ 6, c_ttl = 0\<rparr>), w2)))"

definition NewWatcher ::
  "(string list \<Rightarrow> 'w \<Rightarrow> ('e + 'cli) \<times> 'w) \<Rightarrow> ('cli \<Rightarrow> 'watcher) \<Rightarrow> string list \<Rightarrow> 'w
     \<Rightarrow> ('e + 'watcher) \<times> 'w" where
  "NewWatcher new watcher eps w =
     (case new (default_endpoints eps) w of
        (Inl e, w1) \<Rightarrow> (Inl e, w1)
      | (Inr cli, w1) \<Rightarrow> (Inr (watcher cli), w1))"

text \<open>What \<open>main\<close> makes of its flags for the limit and the time to live.\<close>

definition main_limit :: "int \<Rightarrow> int" where
  "main_limit limit = (if limit \<le> 0 then 100 else limit)"

definition main_ttl :: "int \<Rightarrow> int" where
  "main_ttl ttlSecs = (if ttlSecs \<le> 0 then 180 else ttlSecs)"

section \<open>The client satisfies the interface\<close>

lemma get_ops_sel:
  "go_EndKey opts = [] \<Longrightarrow>
   range_select (get_ops opts) k kvs =
     limit_take (go_Limit opts) (rev (filter (\<lambda>x. strings_HasPrefix (kv_Key x) k) kvs))"
  by (simp add: range_select_def get_ops_def limit_of_def in_range_def)

lemma limit_of_get_ops [simp]: "limit_of (get_ops opts) = go_Limit opts"
  by (simp add: limit_of_def get_ops_def)

lemma decode_all_map:
  "decode_all dec kvs data = (data', None) \<Longrightarrow>
     list_all2 (\<lambda>x v. dec (kv_Value x) = Inr v) kvs (drop (length data) data')
     \<and> take (length data) data' = data"
proof (induction kvs arbitrary: data)
  case Nil
  then show ?case by simp
next
  case (Cons x kvs)
  then obtain v where v: "dec (kv_Value x) = Inr v" and r: "decode_all dec kvs (data @ [v]) = (data', None)"
    by (auto split: sum.splits)
  have IH: "list_all2 (\<lambda>x v. dec (kv_Value x) = Inr v) kvs (drop (Suc (length data)) data')"
    "take (Suc (length data)) data' = data @ [v]"
    using Cons.IH [OF r] by simp_all
  have "length data < length data'" using arg_cong [OF IH(2), of length] by (simp split: if_splits)
  then have "drop (length data) data' = v # drop (Suc (length data)) data'" "take (length data) data' = data"
    using IH(2) by (auto simp: Cons_nth_drop_Suc [symmetric] take_Suc_conv_app_nth)
  then show ?case using IH(1) v by simp
qed

lemma client_Get_ok:
  assumes "client_Get dec cli w k opts = ((data, found, None), w')"
  obtains kvs where "et_Get cli w k (get_ops opts) = (Inr kvs, w')"
    and "list_all2 (\<lambda>x v. dec (kv_Value x) = Inr v) kvs data" and "found \<longleftrightarrow> data \<noteq> []"
proof -
  obtain kvs where get: "et_Get cli w k (get_ops opts) = (Inr kvs, w')"
    using assms by (auto simp: client_Get_def split: prod.splits sum.splits if_splits option.splits)
  show ?thesis
  proof (cases "kvs = []")
    case True
    then show ?thesis using that [OF get] assms get by (auto simp: client_Get_def)
  next
    case False
    then have d: "decode_all dec kvs [] = (data, None)" and f: "found"
      using assms get by (auto simp: client_Get_def split: prod.splits option.splits)
    from decode_all_map [OF d] have "list_all2 (\<lambda>x v. dec (kv_Value x) = Inr v) kvs data" by simp
    moreover from this have "data \<noteq> []" using False by auto
    ultimately show ?thesis using that [OF get] f by blast
  qed
qed

definition etcd_contract :: "('w, 'e) etcd \<Rightarrow> ('w \<Rightarrow> kv list) \<Rightarrow> bool" where
  "etcd_contract cli view \<longleftrightarrow> etcd_reads cli view \<and> etcd_writes cli view \<and> (\<forall>w. key_space (view w))"

definition json_ok :: "('x event \<Rightarrow> 'e + string) \<Rightarrow> (string \<Rightarrow> 'e + 'x event) \<Rightarrow> 'x event \<Rightarrow> bool" where
  "json_ok enc dec v \<longleftrightarrow> (\<exists>js. enc v = Inr js \<and> dec (js @ newline) = Inr v)"

lemma client_Set_view:
  assumes "etcd_contract cli view" and "client_Set enc cli c w k v = (None, w')"
  obtains js where "enc v = Inr js"
    and "\<And>k'. kv_lookup (view w') k' = (if k' = k then Some (js @ newline) else kv_lookup (view w) k')"
proof -
  obtain js opts w1 where js: "enc v = Inr js" and l: "lease_opts cli c w = (Inr opts, w1)"
    and put: "et_Put cli w1 k (js @ newline) opts = (None, w')"
    using assms(2) by (auto simp: client_Set_def split: sum.splits prod.splits)
  have "view w1 = view w"
    using assms(1) l
    by (auto simp: lease_opts_def etcd_contract_def etcd_writes_def split: if_splits prod.splits sum.splits)
      (metis snd_conv)
  moreover obtain r where "view w' = kv_store \<lparr>kv_Key = k, kv_Value = js @ newline, kv_CreateRevision = r\<rparr> (view w1)"
    using assms(1) put unfolding etcd_contract_def etcd_writes_def by (metis fst_conv snd_conv)
  moreover have "key_space (view w)" using assms(1) by (simp add: etcd_contract_def)
  ultimately have "kv_lookup (view w') k' = (if k' = k then Some (js @ newline) else kv_lookup (view w) k')" for k'
    by (simp add: kv_lookup_store)
  with js show ?thesis by (rule that)
qed

lemma kv_lookup_in: "kv_lookup kvs k = Some v \<Longrightarrow> \<exists>x \<in> set kvs. kv_Key x = k \<and> kv_Value x = v"
  by (auto simp: kv_lookup_def find_Some_iff)

lemma reads_select:
  "etcd_reads cli view \<Longrightarrow> et_Get cli w k opts = (Inr kvs, w') \<Longrightarrow>
     kvs = range_select opts k (view w) \<and> view w' = view w"
  unfolding etcd_reads_def by (metis fst_conv snd_conv)

interpretation client: event_store "client_store ulow enc dec cli c" "etcd_contract cli view" "json_ok enc dec"
  for ulow enc dec cli c view
proof
  fix w k opts data found w'
  assume "st_Get (client_store ulow enc dec cli c) w k opts = ((data, found, None), w')"
  then have get: "client_Get dec cli w k opts = ((data, found, None), w')" by (simp add: client_store_def)
  show "found \<longleftrightarrow> data \<noteq> []" using client_Get_ok [OF get] by metis
  show "int (length data) \<le> go_Limit opts" if "etcd_contract cli view" "0 < go_Limit opts"
  proof -
    obtain kvs where g: "et_Get cli w k (get_ops opts) = (Inr kvs, w')"
      and d: "list_all2 (\<lambda>x v. dec (kv_Value x) = Inr v) kvs data"
      using client_Get_ok [OF get] by metis
    have "kvs = range_select (get_ops opts) k (view w)"
      using reads_select g that(1) by (metis etcd_contract_def)
    then have "length kvs \<le> nat (go_Limit opts)"
      using that(2) by (simp add: range_select_def limit_take_length)
    then show ?thesis using list_all2_lengthD [OF d] that(2) by simp
  qed
next
  fix v w k w1 k0 data found w2
  assume c: "etcd_contract cli view" and v: "json_ok enc dec v"
    and s: "st_Set (client_store ulow enc dec cli c) w k v = (None, w1)"
    and pre: "strings_HasPrefix k k0"
    and g: "st_Get (client_store ulow enc dec cli c) w1 k0 \<lparr>go_Limit = 0, go_EndKey = []\<rparr>
              = ((data, found, None), w2)"
  let ?o = "\<lparr>go_Limit = 0, go_EndKey = []\<rparr>"
  have get: "client_Get dec cli w1 k0 ?o = ((data, found, None), w2)" using g by (simp add: client_store_def)
  obtain kvs where e: "et_Get cli w1 k0 (get_ops ?o) = (Inr kvs, w2)"
    and d: "list_all2 (\<lambda>x v. dec (kv_Value x) = Inr v) kvs data"
    using client_Get_ok [OF get] by metis
  have kvs: "kvs = rev (filter (\<lambda>x. strings_HasPrefix (kv_Key x) k0) (view w1))"
    using reads_select [OF _ e] c by (simp add: etcd_contract_def get_ops_sel limit_take_def)
  have set: "client_Set enc cli c w k v = (None, w1)" using s by (simp add: client_store_def)
  obtain js where js: "enc v = Inr js"
    and look: "\<And>k'. kv_lookup (view w1) k' = (if k' = k then Some (js @ newline) else kv_lookup (view w) k')"
    using client_Set_view [OF c set] by metis
  obtain x where x: "x \<in> set (view w1)" "kv_Key x = k" "kv_Value x = js @ newline"
    using look [of k] kv_lookup_in by fastforce
  then have "x \<in> set kvs" using pre by (simp add: kvs)
  then obtain i where i: "i < length kvs" "kvs ! i = x" by (auto simp: in_set_conv_nth)
  have "dec (kv_Value x) = Inr (data ! i)" using list_all2_nthD [OF d i(1)] i(2) by simp
  moreover have "data ! i \<in> set data" using i(1) list_all2_lengthD [OF d] by simp
  ultimately show "v \<in> set data" using v x js by (auto simp: json_ok_def)
qed

section \<open>Reading and writing events\<close>

lemma decode_all_ok:
  "\<forall>x \<in> set kvs. is_ok (dec (kv_Value x)) \<Longrightarrow>
     decode_all dec kvs data = (data @ map (\<lambda>x. projr (dec (kv_Value x))) kvs, None)"
  by (induction kvs arbitrary: data) (auto simp: is_ok_def split: sum.splits)

lemma decode_all_fails:
  "x \<in> set kvs \<Longrightarrow> \<not> is_ok (dec (kv_Value x)) \<Longrightarrow> \<exists>data' e. decode_all dec kvs data = (data', Some e)"
  by (induction kvs arbitrary: data) (auto simp: is_ok_def split: sum.splits)

text \<open>Data for the witnesses: events with nothing but an id, encoded as the id.\<close>

definition wit_event :: "string \<Rightarrow> unit event" where
  "wit_event uid =
     \<lparr>ev_UID = uid, ev_Labels = [], ev_LastTimestamp = time_zero,
      ev_InvolvedObject = \<lparr>ref_Group = [], ref_Version = [], ref_Kind = [], ref_Name = [],
                           ref_Namespace = []\<rparr>, ev_rest = ()\<rparr>"

definition wit_enc :: "unit event \<Rightarrow> unit + string" where
  "wit_enc e = Inr (ev_UID e)"

definition wit_dec :: "string \<Rightarrow> unit + unit event" where
  "wit_dec s = (if s = [] then Inl () else Inr (wit_event (butlast s)))"

definition tidy :: "kv list \<Rightarrow> kv list" where
  "tidy w = (if key_space w then w else [])"

definition tidy_etcd :: "(kv list, unit) etcd" where
  "tidy_etcd = mem_etcd\<lparr>et_Get := \<lambda>w k opts. (Inr (range_select opts k (tidy w)), w),
     et_Put := \<lambda>w k v opts.
       (None, kv_store \<lparr>kv_Key = k, kv_Value = v, kv_CreateRevision = int (length w) + 1\<rparr> (tidy w))\<rparr>"

lemma key_space_tidy: "key_space (tidy w)"
  by (simp add: tidy_def key_space_def)

lemma tidy_contract: "etcd_contract tidy_etcd tidy"
proof -
  have "tidy (kv_store x (tidy w)) = kv_store x (tidy w)" for x w
    using key_space_kv_store [OF key_space_tidy] by (simp add: tidy_def)
  then have "etcd_writes tidy_etcd tidy" by (auto simp: etcd_writes_def tidy_etcd_def mem_etcd_def)
  moreover have "etcd_reads tidy_etcd tidy" by (simp add: etcd_reads_def tidy_etcd_def)
  ultimately show ?thesis using key_space_tidy by (simp add: etcd_contract_def)
qed

text \<open>
  C15. What is set can be read: after a successful \<open>Set\<close> of an event that survives its encoding, a
  \<open>Get\<close> of that key without a limit that succeeds finds something and returns the event among its
  results; and no other key has changed its value.
\<close>

theorem set_then_get:
  assumes c: "etcd_contract cli view" and "json_ok enc dec v"
    and set: "client_Set enc cli c w k v = (None, w1)"
    and "client_Get dec cli w1 k \<lparr>go_Limit = 0, go_EndKey = []\<rparr> = ((data, found, None), w2)"
  shows "found \<and> v \<in> set data \<and> (\<forall>k'. k' \<noteq> k \<longrightarrow> kv_lookup (view w1) k' = kv_lookup (view w) k')"
proof -
  have "st_Set (client_store id enc dec cli c) w k v = (None, w1)"
    and "st_Get (client_store id enc dec cli c) w1 k \<lparr>go_Limit = 0, go_EndKey = []\<rparr> = ((data, found, None), w2)"
    using assms(3,4) by (simp_all add: client_store_def)
  then have "found \<and> v \<in> set data" using client.set_then_found [OF c assms(2)] HasPrefix_refl by metis
  moreover have "k' \<noteq> k \<longrightarrow> kv_lookup (view w1) k' = kv_lookup (view w) k'" for k'
    using client_Set_view [OF c set] by metis
  ultimately show ?thesis by blast
qed

theorem set_then_get_witness:
  "\<exists>w1 data. client_Set wit_enc tidy_etcd \<lparr>c_timeOut = 0, c_ttl = 180\<rparr> [] ''k'' (wit_event ''7'') = (None, w1)
     \<and> client_Get wit_dec tidy_etcd w1 ''k'' \<lparr>go_Limit = 0, go_EndKey = []\<rparr> = ((data, True, None), w1)
     \<and> wit_event ''7'' \<in> set data"
proof -
  let ?w1 = "[\<lparr>kv_Key = ''k'', kv_Value = ''7'' @ newline, kv_CreateRevision = 1\<rparr>]"
  have s: "client_Set wit_enc tidy_etcd \<lparr>c_timeOut = 0, c_ttl = 180\<rparr> [] ''k'' (wit_event ''7'') = (None, ?w1)"
    by (simp add: client_Set_def wit_enc_def lease_opts_def tidy_etcd_def mem_etcd_def wit_event_def
        tidy_def key_space_def)
  have g: "client_Get wit_dec tidy_etcd ?w1 ''k'' \<lparr>go_Limit = 0, go_EndKey = []\<rparr>
      = (([wit_event ''7''], True, None), ?w1)"
    by (simp add: client_Get_def tidy_etcd_def get_ops_sel limit_take_def wit_dec_def newline_def tidy_def
        key_space_def)
  have "json_ok wit_enc wit_dec (wit_event ''7'')"
    by (simp add: json_ok_def wit_enc_def wit_dec_def newline_def wit_event_def)
  from set_then_get [OF tidy_contract this s g] show ?thesis using s g by blast
qed

text \<open>
  C16. What \<open>Get\<close> returns, for a read without an end key that the cluster answers: the keys that start
  with the given one in descending key order, cut at the limit when it is positive, decoded one by one;
  and one value among them that does not decode makes the whole call fail.
\<close>

theorem Get_selects:
  assumes "etcd_reads cli view" and "go_EndKey opts = []"
    and get: "et_Get cli w k (get_ops opts) = (Inr kvs, w')"
  defines "sel \<equiv> limit_take (go_Limit opts) (rev (filter (\<lambda>x. strings_HasPrefix (kv_Key x) k) (view w)))"
  shows "((\<forall>x \<in> set sel. is_ok (dec (kv_Value x))) \<longrightarrow>
        client_Get dec cli w k opts = ((map (\<lambda>x. projr (dec (kv_Value x))) sel, sel \<noteq> [], None), w'))
     \<and> ((\<exists>x \<in> set sel. \<not> is_ok (dec (kv_Value x))) \<longrightarrow>
        (\<exists>data e. client_Get dec cli w k opts = ((data, False, Some e), w')))"
proof -
  have kvs: "kvs = sel"
    using reads_select [OF assms(1) get] assms(2) by (simp add: get_ops_sel sel_def)
  have "\<exists>data e. client_Get dec cli w k opts = ((data, False, Some e), w')"
    if "x \<in> set sel" "\<not> is_ok (dec (kv_Value x))" for x
    using decode_all_fails [of x sel dec "[]"] that get by (auto simp: client_Get_def kvs)
  moreover have "client_Get dec cli w k opts = ((map (\<lambda>x. projr (dec (kv_Value x))) sel, sel \<noteq> [], None), w')"
    if "\<forall>x \<in> set sel. is_ok (dec (kv_Value x))"
    using decode_all_ok [OF that, of "[]"] get by (simp add: client_Get_def kvs)
  ultimately show ?thesis by blast
qed

theorem Get_selects_witness:
  "client_Get wit_dec tidy_etcd
     [\<lparr>kv_Key = ''a'', kv_Value = ''1.'', kv_CreateRevision = 1\<rparr>,
      \<lparr>kv_Key = ''ab'', kv_Value = ''2.'', kv_CreateRevision = 2\<rparr>] ''a'' \<lparr>go_Limit = 1, go_EndKey = []\<rparr>
   = (([wit_event ''2''], True, None),
      [\<lparr>kv_Key = ''a'', kv_Value = ''1.'', kv_CreateRevision = 1\<rparr>,
       \<lparr>kv_Key = ''ab'', kv_Value = ''2.'', kv_CreateRevision = 2\<rparr>])"
proof -
  let ?w = "[\<lparr>kv_Key = ''a'', kv_Value = ''1.'', kv_CreateRevision = 1\<rparr>,
             \<lparr>kv_Key = ''ab'', kv_Value = ''2.'', kv_CreateRevision = 2\<rparr>]"
  let ?o = "\<lparr>go_Limit = 1, go_EndKey = []\<rparr>"
  have reads: "etcd_reads tidy_etcd tidy" using tidy_contract by (simp add: etcd_contract_def)
  have "tidy ?w = ?w" by (simp add: tidy_def key_space_def)
  moreover have "et_Get tidy_etcd ?w ''a'' (get_ops ?o)
      = (Inr (range_select (get_ops ?o) ''a'' (tidy ?w)), ?w)" by (simp add: tidy_etcd_def)
  ultimately show ?thesis
    using Get_selects [OF reads, of ?o ?w "''a''" _ ?w wit_dec]
    by (simp add: limit_take_def wit_dec_def)
qed

end
