(* ===== verification/Header.thy ===== *)
theory Header
  imports Float64 Http
begin

text \<open>
  The HTTP header parser of eventsse (\<open>eventsse/internal/httputil/header/header.go\<close>): the octet
  table, the scanners, lists of values, values with parameters, quoted strings and quality values.
  Loops over a string by index are written with the index. A function that could index out of
  range returns an option, and a lemma shows that it never is \<open>None\<close>.
\<close>

section \<open>Octet types\<close>

definition isToken :: byte where "isToken = 1"
definition isSpace :: byte where "isSpace = 2"

definition separators :: string where
  "separators = CHR 0x20 # CHR 0x09 # CHR 0x22 # ''(),/:;<=>?@[]'' @ CHR 0x5C # ''{}''"

definition octetTypes :: "char \<Rightarrow> byte" where
  "octetTypes ch =
     (let c = (of_char ch :: nat);
          isCtl = (c \<le> 31 \<or> c = 127);
          isChar = (c \<le> 127);
          isSeparator = (ch \<in> set separators);
          t = 0;
          t = (if ch \<in> {CHR 0x20, CHR 0x09, CHR 0x0D, CHR 0x0A} then t OR isSpace else t);
          t = (if isChar \<and> \<not> isCtl \<and> \<not> isSeparator then t OR isToken else t)
      in t)"

definition is_space :: "char \<Rightarrow> bool" where
  "is_space c \<longleftrightarrow> octetTypes c AND isSpace \<noteq> 0"

definition is_token :: "char \<Rightarrow> bool" where
  "is_token c \<longleftrightarrow> octetTypes c AND isToken \<noteq> 0"

lemma octet_flags:
  fixes p q :: bool
  defines "t \<equiv> (if q then (if p then 0 OR isSpace else 0) OR isToken else if p then 0 OR isSpace else 0)"
  shows "t AND isSpace \<noteq> 0 \<longleftrightarrow> p" and "t AND isToken \<noteq> 0 \<longleftrightarrow> q"
  by (cases p; cases q; simp add: t_def isSpace_def isToken_def)+

lemma is_space_iff: "is_space c \<longleftrightarrow> c \<in> {CHR 0x20, CHR 0x09, CHR 0x0D, CHR 0x0A}"
  unfolding is_space_def octetTypes_def Let_def by (rule octet_flags(1))

lemma is_token_iff:
  "is_token c \<longleftrightarrow> (of_char c :: nat) \<le> 127 \<and> \<not> ((of_char c :: nat) \<le> 31 \<or> (of_char c :: nat) = 127)
     \<and> \<not> c \<in> set separators"
  unfolding is_token_def octetTypes_def Let_def by (rule octet_flags(2))

lemma space_not_token: "is_space c \<Longrightarrow> \<not> is_token c"
  unfolding is_space_iff by (elim insertE emptyE) (simp_all add: is_token_iff separators_def)

lemma token_not_space: "is_token c \<Longrightarrow> \<not> is_space c"
  using space_not_token by blast

lemma token_ascii: "is_token c \<Longrightarrow> is_ascii c"
  by (simp add: is_token_iff is_ascii_def)

lemma slash_ascii: "is_ascii (CHR ''/'')"
  by (simp add: is_ascii_def)

section \<open>Scanners\<close>

text \<open>The three scanning loops stop at the first octet that is not of their kind.\<close>

fun scan :: "(char \<Rightarrow> bool) \<Rightarrow> string \<Rightarrow> nat \<Rightarrow> nat" where
  "scan p [] i = i"
| "scan p (b # s) i = (if \<not> p b then i else scan p s (i + 1))"

definition skipSpace :: "string \<Rightarrow> string" where
  "skipSpace s = drop (scan is_space s 0) s"

definition expectToken :: "string \<Rightarrow> string \<times> string" where
  "expectToken s = (let i = scan is_token s 0 in (take i s, drop i s))"

definition expectTokenSlash :: "string \<Rightarrow> string \<times> string" where
  "expectTokenSlash s = (let i = scan (\<lambda>b. is_token b \<or> b = CHR ''/'') s 0 in (take i s, drop i s))"

lemma scan_takeWhile: "scan p s i = i + length (takeWhile p s)"
  by (induction s arbitrary: i) auto

lemma skipSpace_dropWhile: "skipSpace s = dropWhile is_space s"
  by (simp add: skipSpace_def scan_takeWhile dropWhile_eq_drop [symmetric])

text \<open>What the callers rely on: a scanner splits its input after the longest accepted prefix.\<close>

locale scanner =
  fixes scn :: "string \<Rightarrow> string \<times> string" and acc :: "char \<Rightarrow> bool"
  assumes scn_spec: "scn s = (takeWhile acc s, dropWhile acc s)"
begin

lemma scn_append: "fst (scn s) @ snd (scn s) = s"
  by (simp add: scn_spec)

lemma scn_shorter: "length (snd (scn s)) \<le> length s"
  by (simp add: scn_spec length_dropWhile_le)

lemma scn_full:
  assumes "list_all acc v" and "s = [] \<or> \<not> acc (hd s)"
  shows "scn (v @ s) = (v, s)"
  using assms by (cases s) (auto simp: scn_spec takeWhile_append list_all_iff dropWhile_append)

end

interpretation token: scanner expectToken is_token
  by unfold_locales
    (simp add: expectToken_def Let_def scan_takeWhile takeWhile_eq_take [symmetric]
      dropWhile_eq_drop [symmetric])

interpretation token_slash: scanner expectTokenSlash "\<lambda>b. is_token b \<or> b = CHR ''/''"
  by unfold_locales
    (simp add: expectTokenSlash_def Let_def scan_takeWhile takeWhile_eq_take [symmetric]
      dropWhile_eq_drop [symmetric])

section \<open>Lists of values\<close>

text \<open>The loop of \<open>ParseList\<close> over one string; \<open>begin\<close> and \<open>end\<close> delimit the current value.\<close>

record list_state =
  ls_begin :: nat
  ls_end :: nat
  ls_escape :: bool
  ls_quote :: bool
  ls_result :: "string list"

definition append_value :: "string \<Rightarrow> list_state \<Rightarrow> list_state option" where
  "append_value s st =
     (if ls_begin st < ls_end st
      then map_option (\<lambda>v. st\<lparr>ls_result := ls_result st @ [v]\<rparr>) (slice_at s (ls_begin st) (ls_end st))
      else Some st)"

definition list_switch :: "string \<Rightarrow> nat \<Rightarrow> char \<Rightarrow> list_state \<Rightarrow> list_state option" where
  "list_switch s i b st =
     (if ls_escape st then Some (st\<lparr>ls_escape := False, ls_end := i + 1\<rparr>)
      else if ls_quote st then
        Some (if b = CHR 0x5C then st\<lparr>ls_escape := True, ls_end := i + 1\<rparr>
              else if b = CHR 0x22 then st\<lparr>ls_quote := False, ls_end := i + 1\<rparr>
              else st\<lparr>ls_end := i + 1\<rparr>)
      else if b = CHR 0x22 then Some (st\<lparr>ls_quote := True, ls_end := i + 1\<rparr>)
      else if is_space b then
        Some (if ls_begin st = ls_end st then st\<lparr>ls_begin := i + 1, ls_end := i + 1\<rparr> else st)
      else if b = CHR '','' then
        map_option (\<lambda>st. st\<lparr>ls_begin := i + 1, ls_end := i + 1\<rparr>) (append_value s st)
      else Some (st\<lparr>ls_end := i + 1\<rparr>))"

definition list_body :: "string \<Rightarrow> nat \<Rightarrow> list_state \<Rightarrow> list_state option" where
  "list_body s i st = Option.bind (read_at s i) (\<lambda>b. list_switch s i b st)"

definition list_loop :: "string \<Rightarrow> string list \<Rightarrow> string list option" where
  "list_loop s result =
     map_option ls_result
       (Option.bind
          (for_each (list_body s) [0..<length s]
             \<lparr>ls_begin = 0, ls_end = 0, ls_escape = False, ls_quote = False, ls_result = result\<rparr>)
          (append_value s))"

definition ParseList :: "header_map \<Rightarrow> string \<Rightarrow> string list option" where
  "ParseList header key =
     for_each list_loop (case header (CanonicalHeaderKey key) of None \<Rightarrow> [] | Some vs \<Rightarrow> vs) []"

text \<open>
  The reference: a pass without indices, over the value so far (without trailing white space outside
  quotes) and the white space seen since its end.
\<close>

datatype quoting = Plain | Quoted | Escaped

fun ref_list :: "quoting \<Rightarrow> string \<Rightarrow> string \<Rightarrow> string \<Rightarrow> string list" where
  "ref_list q v sp [] = (if v = [] then [] else [v])"
| "ref_list Escaped v sp (b # s) = ref_list Quoted (v @ sp @ [b]) [] s"
| "ref_list Quoted v sp (b # s) =
     ref_list (if b = CHR 0x5C then Escaped else if b = CHR 0x22 then Plain else Quoted)
       (v @ sp @ [b]) [] s"
| "ref_list Plain v sp (b # s) =
     (if b = CHR 0x22 then ref_list Quoted (v @ sp @ [b]) [] s
      else if is_space b then ref_list Plain v (if v = [] then [] else sp @ [b]) s
      else if b = CHR '','' then (if v = [] then [] else [v]) @ ref_list Plain [] [] s
      else ref_list Plain (v @ sp @ [b]) [] s)"

fun quoting_of :: "list_state \<Rightarrow> quoting" where
  "quoting_of st = (if ls_escape st then Escaped else if ls_quote st then Quoted else Plain)"

text \<open>A slice as the reference sees it, without bounds.\<close>

definition slice :: "string \<Rightarrow> nat \<Rightarrow> nat \<Rightarrow> string" where
  "slice s b e = take (e - b) (drop b s)"

lemma slice_at_slice: "b \<le> e \<Longrightarrow> e \<le> length s \<Longrightarrow> slice_at s b e = Some (slice s b e)"
  by (simp add: slice_at_def slice_def)

lemma slice_snoc: "b \<le> i \<Longrightarrow> i < length s \<Longrightarrow> slice s b (Suc i) = slice s b i @ [s ! i]"
  by (simp add: slice_def Suc_diff_le take_Suc_conv_app_nth)

lemma slice_split: "b \<le> e \<Longrightarrow> e \<le> i \<Longrightarrow> slice s b e @ slice s e i = slice s b i"
proof -
  assume "b \<le> e" "e \<le> i"
  then have "slice s b i = take ((e - b) + (i - e)) (drop b s)" by (simp add: slice_def)
  also have "\<dots> = take (e - b) (drop b s) @ take (i - e) (drop (e - b) (drop b s))"
    by (rule take_add)
  finally show ?thesis using \<open>b \<le> e\<close> by (simp add: slice_def)
qed

lemma slice_empty [simp]: "slice s i i = []"
  by (simp add: slice_def)

lemma slice_Nil_iff: "b \<le> e \<Longrightarrow> e \<le> length s \<Longrightarrow> slice s b e = [] \<longleftrightarrow> b = e"
  by (auto simp: slice_def)

text \<open>
  The index loop computes the reference; along the way \<open>begin \<le> end \<le> i\<close>, so no slice panics.
\<close>

definition list_ok :: "string \<Rightarrow> nat \<Rightarrow> list_state \<Rightarrow> bool" where
  "list_ok s i st \<longleftrightarrow> ls_begin st \<le> ls_end st \<and> ls_end st \<le> i
     \<and> (ls_begin st = ls_end st \<longrightarrow> ls_end st = i)
     \<and> (ls_escape st \<longrightarrow> ls_quote st) \<and> (ls_quote st \<longrightarrow> ls_end st = i)"

definition ref_rest :: "string \<Rightarrow> nat \<Rightarrow> list_state \<Rightarrow> string list" where
  "ref_rest s i st =
     ls_result st @ ref_list (quoting_of st) (slice s (ls_begin st) (ls_end st)) (slice s (ls_end st) i)
       (drop i s)"

lemma append_value_ok:
  assumes "list_ok s i st" and "i \<le> length s"
  shows "append_value s st = Some (st\<lparr>ls_result := ls_result st
      @ (if ls_begin st < ls_end st then [slice s (ls_begin st) (ls_end st)] else [])\<rparr>)"
  using assms by (auto simp: append_value_def list_ok_def slice_at_slice)

lemma list_body_step:
  assumes "i < length s" and ok: "list_ok s i st"
  obtains st' where "list_body s i st = Some st'" and "list_ok s (Suc i) st'"
    and "ref_rest s (Suc i) st' = ref_rest s i st"
proof -
  have d: "drop i s = s ! i # drop (Suc i) s" using assms(1) by (rule Cons_nth_drop_Suc [symmetric])
  have full: "slice s (ls_begin st) (ls_end st) @ slice s (ls_end st) i @ r = slice s (ls_begin st) i @ r"
    for r using ok by (simp add: list_ok_def slice_split append_assoc [symmetric] del: append_assoc)
  have nil: "slice s (ls_begin st) (ls_end st) = [] \<longleftrightarrow> ls_begin st = ls_end st"
    using ok assms(1) by (intro slice_Nil_iff) (simp_all add: list_ok_def)
  note app = append_value_ok [OF ok less_imp_le [OF assms(1)]]
  have "\<exists>st'. list_switch s i (s ! i) st = Some st' \<and> list_ok s (Suc i) st' \<and> ref_rest s (Suc i) st' = ref_rest s i st"
  proof -
    consider "ls_escape st" | "\<not> ls_escape st" "ls_quote st"
      | "\<not> ls_escape st" "\<not> ls_quote st" by blast
    then show ?thesis
    proof cases
      case 3
      then show ?thesis
        using ok assms(1)
        by (cases "s ! i = CHR 0x22"; cases "is_space (s ! i)"; cases "s ! i = CHR '',''";
            cases "ls_begin st = ls_end st")
          (simp_all add: ref_rest_def list_ok_def list_switch_def app d full nil slice_snoc)
    qed (use ok assms(1) in
        \<open>simp_all add: ref_rest_def list_ok_def list_switch_def d full nil slice_snoc\<close>)
  qed
  then show ?thesis using that assms(1) by (auto simp: list_body_def)
qed

lemma list_loop_ref: "list_loop s result = Some (result @ ref_list Plain [] [] s)"
proof -
  let ?init = "\<lparr>ls_begin = 0, ls_end = 0, ls_escape = False, ls_quote = False, ls_result = result\<rparr>"
  have inv: "i \<le> length s \<Longrightarrow> \<exists>st. for_each (list_body s) [0..<i] ?init = Some st
      \<and> list_ok s i st \<and> ref_rest s i st = ref_rest s 0 ?init" for i
  proof (induction i)
    case 0
    then show ?case by (simp add: list_ok_def)
  next
    case (Suc i)
    then obtain st where st: "for_each (list_body s) [0..<i] ?init = Some st" "list_ok s i st"
      "ref_rest s i st = ref_rest s 0 ?init" by auto
    obtain st' where "list_body s i st = Some st'" "list_ok s (Suc i) st'" "ref_rest s (Suc i) st' = ref_rest s i st"
      using list_body_step [of i s st] st(2) Suc.prems by auto
    with st show ?case by (simp add: for_each_append)
  qed
  obtain st where st: "for_each (list_body s) [0..<length s] ?init = Some st" "list_ok s (length s) st"
    and eq: "ref_rest s (length s) st = result @ ref_list Plain [] [] s"
    using inv [of "length s"] by (auto simp: ref_rest_def slice_def)
  show ?thesis
    unfolding eq [symmetric]
    using st slice_Nil_iff [of "ls_begin st" "ls_end st" s] append_value_ok [OF st(2)]
    by (auto simp: list_loop_def ref_rest_def list_ok_def)
qed

text \<open>
  An item of a list: it starts and ends with something other than white space, its quotes are closed,
  and it has no comma outside quotes.
\<close>

fun balanced :: "quoting \<Rightarrow> string \<Rightarrow> bool" where
  "balanced q [] = (q = Plain)"
| "balanced Escaped (b # s) = balanced Quoted s"
| "balanced Quoted (b # s) =
     balanced (if b = CHR 0x5C then Escaped else if b = CHR 0x22 then Plain else Quoted) s"
| "balanced Plain (b # s) =
     (if b = CHR 0x22 then balanced Quoted s else b \<noteq> CHR '','' \<and> balanced Plain s)"

definition list_item :: "string \<Rightarrow> bool" where
  "list_item v \<longleftrightarrow> v \<noteq> [] \<and> \<not> is_space (hd v) \<and> \<not> is_space (last v) \<and> balanced Plain v"

fun join_values :: "string list \<Rightarrow> string" where
  "join_values [] = []"
| "join_values [v] = v"
| "join_values (v # vs) = v @ '', '' @ join_values vs"

lemma ref_list_item:
  assumes "balanced q s" and "s \<noteq> []" and "\<not> is_space (last s)" and "v \<noteq> [] \<or> \<not> is_space (hd s)"
  shows "ref_list q v sp (s @ t) = ref_list Plain (v @ sp @ s) [] t"
  using assms
proof (induction q s arbitrary: v sp rule: balanced.induct)
  case (4 b s)
  show ?case
  proof (cases "s = []")
    case True
    then show ?thesis using 4 by (auto split: if_splits)
  next
    case False
    then show ?thesis using 4 by (auto split: if_splits)
  qed
next
  case (2 b s)
  then show ?case by (cases "s = []") auto
next
  case (3 b s)
  then show ?case by (cases "s = []") auto
qed auto

lemma ref_list_join:
  "list_all list_item vs \<Longrightarrow> ref_list Plain [] [] (join_values vs) = vs"
proof (induction vs rule: join_values.induct)
  case 1
  then show ?case by simp
next
  case (2 v)
  then have "ref_list Plain [] [] (v @ []) = ref_list Plain ([] @ [] @ v) [] []"
    by (intro ref_list_item) (simp_all add: list_item_def)
  with 2 show ?case by (simp add: list_item_def)
next
  case (3 v w vs)
  have "ref_list Plain [] [] (v @ '', '' @ join_values (w # vs))
      = ref_list Plain ([] @ [] @ v) [] ('', '' @ join_values (w # vs))"
    using 3 by (intro ref_list_item) (simp_all add: list_item_def)
  with 3 show ?case by (simp add: list_item_def is_space_iff)
qed

text \<open>
  C13. \<open>ParseList\<close> never panics, and computes its reference: for every header, no index or slice of the
  loop with its two cursors and two flags is out of range, and it returns what one pass over the
  characters of each field returns. So values are cut at commas
  outside quoted strings only, trimmed outside quotes only, and never empty; and a field written as
  items joined by a comma and a space parses back to exactly these items.
\<close>

theorem ParseList_correct:
  "ParseList header key
     = Some (concat (map (ref_list Plain [] []) (case header (CanonicalHeaderKey key) of None \<Rightarrow> [] | Some vs \<Rightarrow> vs)))
   \<and> (\<forall>vss. header (CanonicalHeaderKey key) = Some (map join_values vss) \<and> list_all (list_all list_item) vss \<longrightarrow>
        ParseList header key = Some (concat vss))"
proof -
  have loop: "for_each list_loop ss r = Some (r @ concat (map (ref_list Plain [] []) ss))" for ss r
    by (induction ss arbitrary: r) (simp_all add: list_loop_ref)
  have "concat (map (ref_list Plain [] []) (map join_values vss)) = concat vss"
    if "list_all (list_all list_item) vss" for vss
    using that by (induction vss) (simp_all add: ref_list_join)
  then show ?thesis by (auto simp: ParseList_def loop)
qed

theorem ParseList_correct_witness:
  "ParseList [''Accept'' \<mapsto> [''gzip, br'', CHR 0x22 # ''a, b'' @ [CHR 0x22]]] ''Accept''
     = Some [''gzip'', ''br'', CHR 0x22 # ''a, b'' @ [CHR 0x22]]"
proof -
  have "list_all (list_all list_item) [[''gzip'', ''br''], [CHR 0x22 # ''a, b'' @ [CHR 0x22]]]"
    by (simp add: list_item_def is_space_iff)
  then show ?thesis
    using ParseList_correct [of "[''Accept'' \<mapsto> [''gzip, br'', CHR 0x22 # ''a, b'' @ [CHR 0x22]]]" "''Accept''"]
    by (elim conjE allE [of _ "[[''gzip'', ''br''], [CHR 0x22 # ''a, b'' @ [CHR 0x22]]]"]) simp
qed

section \<open>Tokens and quoted strings\<close>

text \<open>
  The two nested loops of \<open>expectTokenOrQuoted\<close> over the text \<open>s\<close> after the opening quote; the second
  argument is the rest from index \<open>i\<close> on. The inner loop fills the buffer \<open>p\<close> of one byte less than
  \<open>s\<close>; \<open>None\<close> is a write or a slice out of its range.
\<close>

fun quoted_inner :: "string \<Rightarrow> string \<Rightarrow> nat \<Rightarrow> bool \<Rightarrow> string \<Rightarrow> nat \<Rightarrow> (string \<times> string) option" where
  "quoted_inner s [] i escape p j = Some ([], [])"
| "quoted_inner s (b # r) i escape p j =
     (if escape then
        (if j < length p then quoted_inner s r (i + 1) False (p[j := b]) (j + 1) else None)
      else if b = CHR 0x5C then quoted_inner s r (i + 1) True p j
      else if b = CHR 0x22 then
        (if j \<le> length p then Some (take j p, drop (i + 1) s) else None)
      else (if j < length p then quoted_inner s r (i + 1) False (p[j := b]) (j + 1) else None))"

fun quoted_outer :: "string \<Rightarrow> string \<Rightarrow> nat \<Rightarrow> (string \<times> string) option" where
  "quoted_outer s [] i = Some ([], [])"
| "quoted_outer s (b # r) i =
     (if b = CHR 0x22 then Some (take i s, drop (i + 1) s)
      else if b = CHR 0x5C then
        (let n = length s - 1;
             j = min n (length (take i s));
             p = take j (take i s) @ replicate (n - j) (CHR 0x00)
         in quoted_inner s r (i + 1) True p j)
      else quoted_outer s r (i + 1))"

definition expectTokenOrQuoted :: "string \<Rightarrow> (string \<times> string) option" where
  "expectTokenOrQuoted s =
     (if \<not> strings_HasPrefix s [CHR 0x22] then Some (expectToken s)
      else quoted_outer (tl s) (tl s) 0)"

text \<open>The reference: unescape while reading, without a buffer.\<close>

fun unquote :: "bool \<Rightarrow> string \<Rightarrow> string \<Rightarrow> string \<times> string" where
  "unquote escape v [] = ([], [])"
| "unquote True v (b # r) = unquote False (v @ [b]) r"
| "unquote False v (b # r) =
     (if b = CHR 0x5C then unquote True v r
      else if b = CHR 0x22 then (v, r)
      else unquote False (v @ [b]) r)"

lemma quoted_inner_unquote:
  assumes "drop i s = r" and "j < i" and "i \<le> length s" and "length p = length s - 1"
  shows "quoted_inner s r i escape p j = Some (unquote escape (take j p) r)"
  using assms
proof (induction escape "take j p" r arbitrary: i j p rule: unquote.induct)
  case (1 escape)
  then show ?case by simp
next
  case (2 b r)
  have "drop (Suc i) s = r" using 2(2) by (metis drop_Suc list.sel(3) tl_drop)
  moreover have "i < length s" using 2(2) by (metis drop_all leI list.distinct(1))
  ultimately show ?case
    using 2(1) [of "Suc j" "p[j := b]" "Suc i"] 2(2-) by (simp add: take_Suc_conv_app_nth)
next
  case (3 b r)
  have "drop (Suc i) s = r" using 3(3) by (metis drop_Suc list.sel(3) tl_drop)
  moreover have "i < length s" using 3(3) by (metis drop_all leI list.distinct(1))
  moreover from this have "j < length s - 1" using 3(4) by linarith
  ultimately show ?case
    using 3(1) [of j p "Suc i"] 3(2) [of "Suc j" "p[j := b]" "Suc i"] 3(3-)
    by (simp add: take_Suc_conv_app_nth)
qed

lemma quoted_outer_unquote:
  assumes "drop i s = r"
  shows "quoted_outer s r i = Some (unquote False (take i s) r)"
  using assms
proof (induction r arbitrary: i)
  case Nil
  then show ?case by simp
next
  case (Cons b r)
  have d: "drop (Suc i) s = r" using Cons.prems by (metis drop_Suc list.sel(3) tl_drop)
  have i: "i < length s" using Cons.prems by (metis drop_all leI list.distinct(1))
  have b: "s ! i = b" using Cons.prems i by (metis Cons_nth_drop_Suc list.inject)
  have m: "min (length s) i = i" "min (length s - Suc 0) i = i" using i by simp_all
  have "take (Suc i) s = take i s @ [b]" using i b by (simp add: take_Suc_conv_app_nth)
  then show ?case
    using Cons.IH [of "Suc i"] d i quoted_inner_unquote [of "Suc i" s r i _ True] m
    by (simp add: Let_def)
qed

lemma expectTokenOrQuoted_ref:
  "expectTokenOrQuoted s =
     Some (if strings_HasPrefix s [CHR 0x22] then unquote False [] (tl s) else expectToken s)"
  by (simp add: expectTokenOrQuoted_def quoted_outer_unquote)

lemma unquote_shorter: "length (snd (unquote escape v s)) \<le> length s"
  by (induction escape v s rule: unquote.induct) auto

lemma expectTokenOrQuoted_shorter:
  "expectTokenOrQuoted s = Some (v, r) \<Longrightarrow> length r \<le> length s"
  using unquote_shorter [of False "[]" "tl s"] token.scn_shorter [of s]
  by (auto simp: expectTokenOrQuoted_ref split: if_splits)

definition quote_string :: "string \<Rightarrow> string" where
  "quote_string v =
     CHR 0x22 # concat (map (\<lambda>c. if c = CHR 0x22 \<or> c = CHR 0x5C then [CHR 0x5C, c] else [c]) v) @ [CHR 0x22]"

lemma unquote_quoted:
  "unquote False u (concat (map (\<lambda>c. if c = CHR 0x22 \<or> c = CHR 0x5C then [CHR 0x5C, c] else [c]) v)
     @ CHR 0x22 # r) = (u @ v, r)"
  by (induction v arbitrary: u) auto

text \<open>
  \<open>expectTokenOrQuoted\<close> returns for every input, with no write past the end of its buffer, and
  computes the reference; it inverts quoting: for every value \<open>v\<close>, with any quotes and backslashes in it,
  and any text after it, the quoted form of \<open>v\<close> parses to \<open>v\<close> and leaves that text.
\<close>

theorem expectTokenOrQuoted_correct:
  "expectTokenOrQuoted s =
     Some (if strings_HasPrefix s [CHR 0x22] then unquote False [] (tl s) else expectToken s)
   \<and> expectTokenOrQuoted (quote_string v @ r) = Some (v, r)"
  by (simp add: expectTokenOrQuoted_ref quote_string_def unquote_quoted)

section \<open>Values with parameters\<close>

lemma skipSpace_shorter: "length (skipSpace s) \<le> length s"
  by (simp add: skipSpace_dropWhile length_dropWhile_le)

lemma params_step_shorter:
  assumes "strings_HasPrefix s '';''" and "(pkey, s1) = expectToken (skipSpace (tl s))"
    and "expectTokenOrQuoted (tl s1) = Some (pvalue, s2)"
  shows "length (skipSpace s2) < length s"
proof -
  have "length (skipSpace s2) \<le> length s2" by (rule skipSpace_shorter)
  also have "\<dots> \<le> length (tl s1)" using expectTokenOrQuoted_shorter assms(3) by blast
  also have "\<dots> \<le> length s1" by simp
  also have "\<dots> \<le> length (skipSpace (tl s))"
    using token.scn_shorter [of "skipSpace (tl s)"] assms(2) by (metis snd_conv)
  also have "\<dots> \<le> length (tl s)" by (rule skipSpace_shorter)
  also have "\<dots> < length s" using assms(1) by (cases s) simp_all
  finally show ?thesis .
qed

text \<open>
  The loop over the parameters; \<open>None\<close> is a panic of \<open>expectTokenOrQuoted\<close>. \<open>ulow\<close> is \<open>ToLower\<close> outside
  ASCII.
\<close>

function (sequential) params_loop ::
  "(string \<Rightarrow> string) \<Rightarrow> string \<Rightarrow> (string \<rightharpoonup> string) \<Rightarrow> (string \<rightharpoonup> string) option" where
  "params_loop ulow s params =
     (if \<not> strings_HasPrefix s '';'' then Some params
      else
        (let (pkey, s1) = expectToken (skipSpace (tl s))
         in if pkey = [] then Some params
            else if \<not> strings_HasPrefix s1 ''='' then Some params
            else
              (case expectTokenOrQuoted (tl s1) of
                 None \<Rightarrow> None
               | Some (pvalue, s2) \<Rightarrow>
                   if pvalue = [] then Some params
                   else params_loop ulow (skipSpace s2) (params(strings_ToLower ulow pkey \<mapsto> pvalue)))))"
  by pat_completeness auto
termination
  by (relation "measure (\<lambda>(ulow, s, params). length s)") (auto dest: params_step_shorter)

definition ParseValueAndParams ::
  "(string \<Rightarrow> string) \<Rightarrow> header_map \<Rightarrow> string \<Rightarrow> (string \<times> (string \<rightharpoonup> string)) option" where
  "ParseValueAndParams ulow header key =
     (let s = Header_Get header key;
          (value, s) = expectTokenSlash s
      in if value = [] then Some ([], Map.empty)
         else map_option (Pair (strings_ToLower ulow value))
                (params_loop ulow (skipSpace s) Map.empty))"

lemmas [simp del] = params_loop.simps

lemma params_total: "\<exists>r. params_loop ulow s m = Some r"
proof (induction s arbitrary: m rule: measure_induct_rule [of length])
  case (less s)
  obtain pkey s1 where t: "expectToken (skipSpace (tl s)) = (pkey, s1)" by fastforce
  obtain v s2 where q: "expectTokenOrQuoted (tl s1) = Some (v, s2)"
    using expectTokenOrQuoted_ref by (metis surj_pair)
  have "strings_HasPrefix s '';'' \<Longrightarrow> \<exists>r. params_loop ulow (skipSpace s2) m' = Some r" for m'
    using less.IH params_step_shorter [OF _ t [symmetric] q] by blast
  then show ?case by (subst params_loop.simps) (simp add: t q)
qed

lemma ParseValueAndParams_total: "ParseValueAndParams ulow header key \<noteq> None"
  using params_total by (auto simp: ParseValueAndParams_def Let_def split: prod.splits)

text \<open>How a field with parameters is written: every value as a quoted string.\<close>

fun format_params :: "(string \<times> string) list \<Rightarrow> string" where
  "format_params [] = []"
| "format_params ((k, v) # ps) = ''; '' @ k @ ''='' @ quote_string v @ format_params ps"

definition put_param :: "string \<times> string \<Rightarrow> (string \<rightharpoonup> string) \<Rightarrow> string \<rightharpoonup> string" where
  "put_param kv m = m(map ascii_lower (fst kv) \<mapsto> snd kv)"

definition token_string :: "string \<Rightarrow> bool" where
  "token_string k \<longleftrightarrow> k \<noteq> [] \<and> list_all is_token k"

lemma not_token_chars [simp]:
  "\<not> is_token (CHR ''='')" "\<not> is_token (CHR '';'')" "\<not> is_token (CHR '' '')" "\<not> is_token (CHR '','')"
  "is_space (CHR '' '')" "\<not> is_space (CHR '';'')"
  by (simp_all add: is_token_iff is_space_iff separators_def)

lemma token_string_lower:
  "token_string k \<Longrightarrow> strings_ToLower ulow k = map ascii_lower k"
  by (auto simp: token_string_def list_all_iff intro!: ToLower_ascii token_ascii)

lemma skipSpace_token: "token_string k \<Longrightarrow> skipSpace (k @ s) = k @ s"
  by (cases k) (auto simp: token_string_def skipSpace_dropWhile dest: token_not_space)

lemma skipSpace_format: "skipSpace (format_params ps) = format_params ps"
  by (cases ps rule: format_params.cases) (simp_all add: skipSpace_dropWhile)

lemma params_loop_format:
  assumes "list_all (\<lambda>(k, v). token_string k \<and> v \<noteq> []) ps"
  shows "params_loop ulow (format_params ps) m =
     Some (fold put_param ps m)"
  using assms
proof (induction ps arbitrary: m rule: format_params.induct)
  case 1
  then show ?case by (simp add: params_loop.simps)
next
  case (2 k v ps)
  let ?r = "''='' @ quote_string v @ format_params ps"
  have k: "token_string k" and v: "v \<noteq> []" using 2 by simp_all
  have "skipSpace ('' '' @ k @ ?r) = k @ ?r"
    using skipSpace_token [OF k, of ?r] by (simp add: skipSpace_dropWhile)
  moreover have "expectToken (k @ ?r) = (k, ?r)"
    using k by (intro token.scn_full) (simp_all add: token_string_def)
  moreover have "expectTokenOrQuoted (quote_string v @ format_params ps) = Some (v, format_params ps)"
    using expectTokenOrQuoted_ref by (simp add: quote_string_def unquote_quoted)
  ultimately show ?case
    using 2 k v
    by (subst params_loop.simps)
      (simp add: token_string_def [of k] token_string_lower skipSpace_format
        put_param_def [of "(k, v)" m])
qed

lemma ParseValueAndParams_media:
  assumes h: "Header_Get header key = media @ format_params ps" and media: "media \<noteq> []"
    "list_all (\<lambda>b. is_token b \<or> b = CHR ''/'') media"
    and ps: "list_all (\<lambda>(k, v). token_string k \<and> v \<noteq> []) ps"
  shows "ParseValueAndParams ulow header key = Some (map ascii_lower media, fold put_param ps Map.empty)"
proof -
  have "expectTokenSlash (media @ format_params ps) = (media, format_params ps)"
    using media(2) by (intro token_slash.scn_full) (cases ps rule: format_params.cases; simp)+
  moreover have "list_all is_ascii media"
    using media(2) by (simp add: list_all_iff) (metis slash_ascii token_ascii)
  ultimately show ?thesis
    by (simp add: ParseValueAndParams_def h media(1) skipSpace_format params_loop_format [OF ps]
        ToLower_ascii)
qed

text \<open>
  C14. \<open>ParseValueAndParams\<close> terminates without a panic on every header, and reads back what was
  written: a media type, then parameters with token names and quoted non-empty values, any
  characters allowed in the values. The type and the names come back in lower case, the values as they
  were, and of two parameters with the same name the later one counts.
\<close>

theorem ParseValueAndParams_roundtrip:
  "ParseValueAndParams ulow header key \<noteq> None
   \<and> (Header_Get header key = media @ format_params ps \<and> media \<noteq> []
        \<and> list_all (\<lambda>b. is_token b \<or> b = CHR ''/'') media
        \<and> list_all (\<lambda>(k, v). token_string k \<and> v \<noteq> []) ps \<longrightarrow>
      ParseValueAndParams ulow header key =
        Some (map ascii_lower media, fold put_param ps Map.empty))"
proof -
  have total: "ParseValueAndParams ulow header key \<noteq> None"
    by (rule ParseValueAndParams_total)
  with ParseValueAndParams_media [of header key media ps ulow] show ?thesis by blast
qed

theorem ParseValueAndParams_roundtrip_witness:
  "ParseValueAndParams id [''Content-Type'' \<mapsto> [''tExt/htMl; fOO='' @ quote_string '';'']] ''Content-Type''
     = Some (''text/html'', [''foo'' \<mapsto> '';''])"
proof -
  have "list_all (\<lambda>b. is_token b \<or> b = CHR ''/'') ''tExt/htMl'' \<and> token_string ''fOO''"
    by (simp add: token_string_def is_token_iff separators_def)
  then show ?thesis
    using ParseValueAndParams_roundtrip [of id
        "[''Content-Type'' \<mapsto> [''tExt/htMl; fOO='' @ quote_string '';'']]" "''Content-Type''"
        "''tExt/htMl''" "[(''fOO'', '';'')]"]
    by (simp add: Header_Get_def put_param_def ascii_lower_def char_of_def bit_Suc_0_iff)
qed

section \<open>Quality values\<close>

text \<open>\<open>n\<close> and \<open>d\<close> are machine integers: both wrap around.\<close>

fun quality_loop :: "string \<Rightarrow> 64 word \<Rightarrow> 64 word \<Rightarrow> 64 word \<times> 64 word \<times> string" where
  "quality_loop [] n d = (n, d, [])"
| "quality_loop (b # s) n d =
     (if (of_char b :: nat) < 48 \<or> 57 < (of_char b :: nat) then (n, d, b # s)
      else quality_loop s (n * 10 + word_of_nat (of_char b) - 48) (d * 10))"

definition expectQuality :: "string \<Rightarrow> float64 \<times> string" where
  "expectQuality s =
     (case s of
        [] \<Rightarrow> (Fin (- 1), [])
      | c # s1 \<Rightarrow>
          if c \<noteq> CHR ''0'' \<and> c \<noteq> CHR ''1'' then (Fin (- 1), [])
          else
            (let q = (if c = CHR ''0'' then Fin 0 else Fin 1)
             in if \<not> strings_HasPrefix s1 ''.'' then (q, s1)
                else
                  (let (n, d, r) = quality_loop (tl s1) 0 1
                   in (f64_add q (f64_div (f64_of_int (sint n)) (f64_of_int (sint d))), r))))"

record AcceptSpec =
  as_Value :: string
  as_Q :: float64

text \<open>The inner loop of \<open>ParseAccept\<close>; every return is a \<open>continue\<close> of the outer one.\<close>

lemma expectQuality_shorter: "length (snd (expectQuality s)) \<le> length s"
proof -
  have "length (snd (snd (quality_loop s n d))) \<le> length s" for s n d
    by (induction s n d rule: quality_loop.induct) auto
  from this [of "tl (tl s)" 0 1] show ?thesis
    by (cases s) (auto simp: expectQuality_def Let_def split: prod.splits)
qed

function (sequential) accept_loop :: "string \<Rightarrow> AcceptSpec list \<Rightarrow> AcceptSpec list" where
  "accept_loop s specs =
     (let (value, s1) = expectTokenSlash s
      in if value = [] then specs
         else
           (let s2 = skipSpace s1
            in if strings_HasPrefix s2 '';'' \<and> \<not> strings_HasPrefix (skipSpace (tl s2)) ''q='' then specs
               else
                 (let (q, s3) = (if strings_HasPrefix s2 '';''
                                 then expectQuality (drop 2 (skipSpace (tl s2))) else (Fin 1, s2))
                  in if strings_HasPrefix s2 '';'' \<and> f64_less q (Fin 0) then specs
                     else
                       (let specs' = specs @ [\<lparr>as_Value = value, as_Q = q\<rparr>];
                            s4 = skipSpace s3
                        in if \<not> strings_HasPrefix s4 '','' then specs'
                           else accept_loop (skipSpace (tl s4)) specs'))))"
  by pat_completeness auto

lemma skipSpace_tl_less: "s \<noteq> [] \<Longrightarrow> length (skipSpace (tl s)) < length s"
  using skipSpace_shorter [of "tl s"] by (cases s) simp_all

lemma accept_step_shorter:
  assumes "(value, s1) = expectTokenSlash s" and "s2 = skipSpace s1"
    and "(q, s3) = (if strings_HasPrefix s2 '';'' then expectQuality (drop 2 (skipSpace (tl s2)))
                   else (Fin 1, s2))"
    and "s4 = skipSpace s3" and "strings_HasPrefix s4 '',''"
  shows "length (skipSpace (tl s4)) < length s"
proof -
  have "length s4 \<le> length s3" using assms(4) skipSpace_shorter by simp
  also have "\<dots> \<le> length s2"
  proof (cases "strings_HasPrefix s2 '';''")
    case True
    have "length s3 \<le> length (drop 2 (skipSpace (tl s2)))"
      using assms(3) True expectQuality_shorter [of "drop 2 (skipSpace (tl s2))"] by (metis snd_conv)
    also have "\<dots> \<le> length s2" using skipSpace_shorter [of "tl s2"] by simp
    finally show ?thesis .
  qed (use assms(3) in simp)
  also have "\<dots> \<le> length s"
    using assms(1,2) skipSpace_shorter [of s1] token_slash.scn_shorter [of s] by (metis le_trans snd_conv)
  finally show ?thesis using assms(5) skipSpace_tl_less [of s4] by (cases s4) simp_all
qed

termination accept_loop
  by (relation "measure (\<lambda>(s, specs). length s)") (auto dest: accept_step_shorter)

lemmas [simp del] = accept_loop.simps

definition ParseAccept :: "header_map \<Rightarrow> string \<Rightarrow> AcceptSpec list" where
  "ParseAccept header key =
     fold accept_loop (case header key of None \<Rightarrow> [] | Some vs \<Rightarrow> vs) []"

section \<open>Copy and times\<close>

definition Copy :: "header_map \<Rightarrow> header_map" where
  "Copy header = (\<lambda>k. case header k of None \<Rightarrow> None | Some vs \<Rightarrow> Some vs)"

text \<open>\<open>parse\<close> is \<open>time.Parse\<close> followed by \<open>UTC\<close>, and \<open>zero\<close> the zero time.\<close>

definition timeLayouts :: "string list" where
  "timeLayouts = [''Mon, 02 Jan 2006 15:04:05 GMT'', ''Monday, 02-Jan-06 15:04:05 MST'',
                  ''Mon Jan _2 15:04:05 2006'']"

fun try_layouts :: "(string \<Rightarrow> string \<Rightarrow> 't option) \<Rightarrow> string \<Rightarrow> string list \<Rightarrow> 't \<Rightarrow> 't" where
  "try_layouts parse s [] zero = zero"
| "try_layouts parse s (l # ls) zero =
     (case parse l s of Some t \<Rightarrow> t | None \<Rightarrow> try_layouts parse s ls zero)"

definition ParseTime :: "(string \<Rightarrow> string \<Rightarrow> 't option) \<Rightarrow> 't \<Rightarrow> header_map \<Rightarrow> string \<Rightarrow> 't" where
  "ParseTime parse zero header key =
     (let s = Header_Get header key
      in if s \<noteq> [] then try_layouts parse s timeLayouts zero else zero)"

lemma quality_loop_digits:
  assumes "list_all is_digit ds" and "rest = [] \<or> \<not> is_digit (hd rest)"
  shows "quality_loop (ds @ rest) (of_int n) (of_int d) =
     (of_int (foldl (\<lambda>n c. 10 * n + digit_val c) n ds), of_int (d * 10 ^ length ds), rest)"
  using assms(1)
proof (induction ds arbitrary: n d)
  case Nil
  then show ?case using assms(2) by (cases rest) (auto simp: is_digit_def)
next
  case (Cons c ds)
  have "quality_loop (ds @ rest) (of_int n * 10 + word_of_nat (of_char c) - 48) (of_int d * 10)
      = quality_loop (ds @ rest) (of_int (10 * n + digit_val c)) (of_int (d * 10))"
    by (simp add: digit_val_def algebra_simps)
  then show ?case
    using Cons Cons.IH [of "10 * n + digit_val c" "d * 10"] by (simp add: is_digit_def algebra_simps)
qed

lemma digits_val_bounds:
  assumes "list_all is_digit ds"
  shows "0 \<le> digits_val ds \<and> digits_val ds < 10 ^ length ds"
  using assms
proof (induction ds rule: rev_induct)
  case Nil
  then show ?case by (simp add: digits_val_def)
next
  case (snoc c ds)
  then have "0 \<le> digits_val ds" "digits_val ds + 1 \<le> 10 ^ length ds" by simp_all
  moreover have "digits_val (ds @ [c]) = 10 * digits_val ds + digit_val c"
    by (simp add: digits_val_def)
  moreover have "0 \<le> digit_val c" "digit_val c \<le> 9"
    using snoc.prems by (auto simp: digit_val_def is_digit_def)
  ultimately show ?case by (simp)
qed

lemma expectQuality_digits:
  assumes "list_all is_digit ds" and "rest = [] \<or> \<not> is_digit (hd rest)"
    and "c = CHR ''0'' \<or> c = CHR ''1''"
  shows "expectQuality (c # CHR ''.'' # ds @ rest) =
     (f64_add (if c = CHR ''0'' then Fin 0 else Fin 1)
        (f64_div (f64_of_int (sint (of_int (digits_val ds) :: 64 word)))
                 (f64_of_int (sint (of_int (10 ^ length ds) :: 64 word)))), rest)"
  using quality_loop_digits [OF assms(1,2), of 0 1] assms(3)
  by (auto simp: expectQuality_def digits_val_def)

lemma sint_small: "- (2 ^ 63) \<le> x \<Longrightarrow> x < 2 ^ 63 \<Longrightarrow> sint (of_int x :: 64 word) = x"
  by (simp add: sint_sbintrunc' signed_take_bit_int_eq_self)

lemma quality_exact_range:
  assumes "list_all is_digit ds" and "rest = [] \<or> \<not> is_digit (hd rest)"
    and "c = CHR ''0'' \<or> c = CHR ''1''" and "length ds \<le> 18"
  shows "\<exists>q. expectQuality (c # CHR ''.'' # ds @ rest) = (Fin q, rest) \<and> 0 \<le> q
     \<and> q \<le> (if c = CHR ''0'' then 1 else 2)"
proof -
  define n where "n = digits_val ds"
  define d :: int where "d = 10 ^ length ds"
  define q0 :: rat where "q0 = (if c = CHR ''0'' then 0 else 1)"
  have "d \<le> 10 ^ 18" unfolding d_def using assms(4) by (intro power_increasing) simp_all
  then have d: "1 \<le> d" "d \<le> 10 ^ 18" by (simp_all add: d_def)
  have n: "0 \<le> n" "n < d" using digits_val_bounds [OF assms(1)] by (simp_all add: n_def d_def)
  have f: "f64_of_int m = Fin (fl64 (of_int m))" if "0 \<le> m" "m \<le> 10 ^ 18" for m
  proof -
    have "of_int m \<le> (of_int (10 ^ 18) :: rat)" using that(2) by (simp only: of_int_le_iff)
    then show ?thesis using that(1) unfolding f64_of_int_def by (intro f64_small) simp
  qed
  define fn fd where "fn = fl64 (of_int n)" and "fd = fl64 (of_int d)"
  have "0 \<le> fn" unfolding fn_def using n by (intro fl64_nonneg) simp
  have "fl64 (of_int 1) \<le> fd" unfolding fd_def using d(1) by (intro fl64_mono) (simp only: of_int_le_iff)
  then have "1 \<le> fd" using fl64_of_int [of 1] by simp
  have "fn \<le> fd" unfolding fn_def fd_def using n by (intro fl64_mono) simp
  then have r: "0 \<le> fn / fd" "fn / fd \<le> 1" using \<open>0 \<le> fn\<close> \<open>1 \<le> fd\<close> by simp_all
  have r': "0 \<le> fl64 (fn / fd)" "fl64 (fn / fd) \<le> 1"
    using r fl64_nonneg fl64_mono [OF r(2)] fl64_of_int [of 1] by simp_all
  have s: "0 \<le> q0 + fl64 (fn / fd)" "q0 + fl64 (fn / fd) \<le> q0 + 1"
    using r' by (simp_all add: q0_def)
  have "fl64 (q0 + fl64 (fn / fd)) \<le> fl64 (q0 + 1)" by (rule fl64_mono [OF s(2)])
  also have "\<dots> = q0 + 1" using fl64_of_int [of 1] fl64_of_int [of 2] by (simp add: q0_def)
  finally have u: "fl64 (q0 + fl64 (fn / fd)) \<le> q0 + 1" .
  have q2: "q0 + 1 \<le> 2" by (simp add: q0_def)
  have "sint (of_int n :: 64 word) = n" "sint (of_int d :: 64 word) = d"
    using n d by (simp_all add: sint_small)
  moreover have "f64 (fn / fd) = Fin (fl64 (fn / fd))" using r by (intro f64_small) simp
  moreover have "f64 (q0 + fl64 (fn / fd)) = Fin (fl64 (q0 + fl64 (fn / fd)))"
    using s q2 by (intro f64_small) simp
  moreover have "f64_of_int n = Fin fn" "f64_of_int d = Fin fd"
    using f [of n] f [of d] n d by (simp_all add: fn_def fd_def)
  moreover have "(if c = CHR ''0'' then Fin 0 else Fin 1) = Fin q0" by (simp add: q0_def)
  ultimately have "expectQuality (c # CHR ''.'' # ds @ rest) = (Fin (fl64 (q0 + fl64 (fn / fd))), rest)"
    using expectQuality_digits [OF assms(1-3)] \<open>1 \<le> fd\<close> by (simp flip: n_def d_def)
  then show ?thesis using u fl64_nonneg [OF s(1)] by (auto simp: q0_def)
qed

lemma quality_divisor_wraps: "sint (of_int (10 ^ 19) :: 64 word) = - 8446744073709551616"
  by (simp add: int_word_sint)

lemma quality_overflow_negative:
  assumes "list_all is_digit ds" and "rest = [] \<or> \<not> is_digit (hd rest)" and "length ds = 19"
    and "0 < digits_val ds" and "digits_val ds < 2 ^ 63"
  shows "f64_less (fst (expectQuality (''0.'' @ ds @ rest))) (Fin 0)"
proof -
  define fn fd where "fn = fl64 (of_int (digits_val ds))" and "fd = fl64 (- 8446744073709551616)"
  have n: "1 \<le> (of_int (digits_val ds) :: rat)" "of_int (digits_val ds) \<le> (2 ^ 64 :: rat)"
    using assms(4,5) by (simp_all flip: of_int_le_iff)
  have fn: "1 \<le> fn" "fn \<le> 2 ^ 64"
    using fl64_mono [OF n(1)] fl64_mono [OF n(2)] fl64_of_int [of 1] fl64_f64_max
    by (simp_all add: fn_def)
  have fd: "fd \<le> - 1" "- (2 ^ 64) \<le> fd"
    using fl64_mono [of "- 8446744073709551616" "- 1"] fl64_mono [of "- (2 ^ 64)" "- 8446744073709551616"]
      fl64_of_int [of "- 1"] fl64_f64_max
    by (simp_all add: fd_def fl64_minus)
  have tiny: "fl64 (- (1 / 2 ^ 64)) = - (1 / 2 ^ 64)"
    by (rule fl64_exact [of _ "- 1" "- 64"]) (simp_all add: power_int_minus field_simps)
  have "fn / fd \<le> 1 / fd" using fn fd by (simp add: divide_right_mono_neg)
  also have "\<dots> \<le> - (1 / 2 ^ 64)" using fd by (simp add: field_simps)
  finally have r: "fn / fd \<le> - (1 / 2 ^ 64)" .
  have "fd * fn \<le> - 1 * fn" using fn fd by (intro mult_right_mono) simp_all
  then have "- (fn / fd) \<le> fn" using fn fd by (simp add: field_simps)
  moreover have "fn / fd \<le> 0" using order_trans [OF r] by simp
  ultimately have small: "\<bar>fn / fd\<bar> \<le> 2 ^ 64" using fn by linarith
  define x where "x = fl64 (fn / fd)"
  have x: "x \<le> - (1 / 2 ^ 64)" unfolding x_def using fl64_mono [OF r] tiny by simp
  have "fl64 (- (2 ^ 64)) \<le> x" unfolding x_def using small by (intro fl64_mono) linarith
  then have xs: "\<bar>x\<bar> \<le> 2 ^ 64" using x fl64_f64_max by (simp add: fl64_minus abs_le_iff)
  have "fl64 x \<le> - (1 / 2 ^ 64)" using fl64_mono [OF x] unfolding tiny .
  then have y: "fl64 x < 0" by (rule le_less_trans) simp
  have "f64_of_int (digits_val ds) = Fin fn" "f64_of_int (- 8446744073709551616) = Fin fd"
    using n f64_small [of "of_int (digits_val ds)"] f64_small [of "- 8446744073709551616"]
    by (simp_all add: f64_of_int_def fn_def fd_def)
  moreover have "sint (of_int (digits_val ds) :: 64 word) = digits_val ds"
    using assms(4,5) by (simp add: sint_small)
  moreover have "f64 (fn / fd) = Fin x" unfolding x_def by (rule f64_small [OF small])
  moreover have "f64 (0 + x) = Fin (fl64 x)" using f64_small [OF xs] by simp
  ultimately have "fst (expectQuality (''0.'' @ ds @ rest)) = Fin (fl64 x)"
    using expectQuality_digits [OF assms(1,2), of "CHR ''0''"] fd assms(3)
    by (simp add: quality_divisor_wraps)
  then show ?thesis using y by simp
qed

text \<open>
  Quality values. With up to 18 decimals the value read is a number between 0 and 1, or up to 2 when
  the leading digit is 1 (the code does not reject \<open>1.9\<close>). With 19 decimals the divisor wraps around
  to a negative number: a quality that is positive as a decimal comes out negative, and
  \<open>ParseAccept\<close> takes a negative quality for a syntax error and drops the value.
\<close>

theorem quality_value_range:
  assumes "list_all is_digit ds" and "rest = [] \<or> \<not> is_digit (hd rest)"
  shows "(length ds \<le> 18 \<longrightarrow>
       (\<exists>q r. fst (expectQuality (''0.'' @ ds @ rest)) = Fin q \<and> 0 \<le> q \<and> q \<le> 1
            \<and> fst (expectQuality (''1.'' @ ds @ rest)) = Fin r \<and> 0 \<le> r \<and> r \<le> 2))
     \<and> (length ds = 19 \<and> 0 < digits_val ds \<and> digits_val ds < 2 ^ 63 \<longrightarrow>
          f64_less (fst (expectQuality (''0.'' @ ds @ rest))) (Fin 0)
          \<and> accept_loop (''gzip;q=0.'' @ ds @ rest) [] = [])"
proof -
  have zero: "\<exists>q. expectQuality (''0.'' @ ds @ rest) = (Fin q, rest) \<and> 0 \<le> q \<and> q \<le> 1"
    and one: "\<exists>r. expectQuality (''1.'' @ ds @ rest) = (Fin r, rest) \<and> 0 \<le> r \<and> r \<le> 2"
    if "length ds \<le> 18"
    using quality_exact_range [OF assms _ that, of "CHR ''0''"]
      quality_exact_range [OF assms _ that, of "CHR ''1''"] by simp_all
  have drop: "accept_loop (''gzip;q=0.'' @ ds @ rest) [] = []"
    if neg: "f64_less (fst (expectQuality (''0.'' @ ds @ rest))) (Fin 0)"
  proof -
    have "list_all (\<lambda>b. is_token b \<or> b = CHR ''/'') ''gzip''"
      by (simp add: is_token_iff separators_def)
    then have "expectTokenSlash (''gzip'' @ '';q=0.'' @ ds @ rest) = (''gzip'', '';q=0.'' @ ds @ rest)"
      by (rule token_slash.scn_full) simp
    moreover have "skipSpace ('';q=0.'' @ ds @ rest) = '';q=0.'' @ ds @ rest"
      "skipSpace (''q=0.'' @ ds @ rest) = ''q=0.'' @ ds @ rest"
      by (simp_all add: skipSpace_dropWhile is_space_iff)
    ultimately show ?thesis
      using neg by (subst accept_loop.simps) (simp add: split_beta Let_def)
  qed
  show ?thesis
    using zero one quality_overflow_negative [OF assms] drop by (metis fst_conv)
qed

theorem quality_value_range_witness:
  "accept_loop ''gzip;q=0.1000000000000000000'' [] = []
   \<and> (\<exists>q. fst (expectQuality ''0.5'') = Fin q \<and> 0 \<le> q \<and> q \<le> 1)"
proof -
  have "list_all is_digit ''1000000000000000000'' \<and> digits_val ''1000000000000000000'' = 10 ^ 18"
    by (simp add: is_digit_def digits_val_def digit_val_def)
  then have "accept_loop (''gzip;q=0.'' @ ''1000000000000000000'' @ []) [] = []"
    using quality_value_range [of "''1000000000000000000''" "[]"] by simp
  moreover have "\<exists>q. fst (expectQuality (''0.'' @ ''5'' @ [])) = Fin q \<and> 0 \<le> q \<and> q \<le> 1"
    using quality_value_range [of "''5''" "[]"] by (auto simp: is_digit_def)
  ultimately show ?thesis by simp
qed

end
