(* ===== verification/Decode.thy ===== *)
theory Decode
  imports Header
begin

text \<open>
  Decoding of a request body (\<open>eventsse/internal/httputil/decode/decode.go\<close>). The JSON decoder is
  not part of the program: a caller passes the outcome of the first \<open>Decode\<close> on the limited body and
  the outcome of the second one, which must be the end of the input. \<open>quote\<close> stands for the verb
  \<open>%q\<close>.
\<close>

text \<open>The errors of the decoder, by what the \<open>switch\<close> tells apart.\<close>

datatype decode_error =
    DecSyntax int
  | DecUnexpectedEOF
  | DecType string int
  | DecEOF
  | DecOther string

text \<open>\<open>MalformedRequest\<close>, or an error of the decoder that is passed on as it is.\<close>

datatype body_error =
    MalformedRequest int string
  | PlainError string

fun body_Error :: "body_error \<Rightarrow> string" where
  "body_Error (MalformedRequest status msg) = msg"
| "body_Error (PlainError msg) = msg"

fun nat_digits :: "nat \<Rightarrow> string" where
  "nat_digits n =
     (if n < 10 then [char_of (48 + n)] else nat_digits (n div 10) @ [char_of (48 + n mod 10)])"

definition fmt_d :: "int \<Rightarrow> string" where
  "fmt_d n = (if n < 0 then CHR ''-'' # nat_digits (nat (- n)) else nat_digits (nat n))"

fun decode_failure :: "(string \<Rightarrow> string) \<Rightarrow> decode_error \<Rightarrow> body_error" where
  "decode_failure quote (DecSyntax offset) =
     MalformedRequest 400 (''Request body contains badly-formed JSON (at position '' @ fmt_d offset @ '')'')"
| "decode_failure quote DecUnexpectedEOF =
     MalformedRequest 400 ''Request body contains badly-formed JSON''"
| "decode_failure quote (DecType field offset) =
     MalformedRequest 400 (''Request body contains an invalid value for the '' @ quote field
        @ '' field (at position '' @ fmt_d offset @ '')'')"
| "decode_failure quote DecEOF = MalformedRequest 204 ''Request body is empty''"
| "decode_failure quote (DecOther msg) =
     (if strings_HasPrefix msg ''json: unknown field ''
      then MalformedRequest 400
             (''Request body contains unknown field '' @ strings_TrimPrefix msg ''json: unknown field '')
      else PlainError msg)"

text \<open>The outer option is \<open>None\<close> for a panic of the header parser.\<close>

definition JSONBody ::
  "(string \<Rightarrow> string) \<Rightarrow> (string \<Rightarrow> string) \<Rightarrow> header_map \<Rightarrow> decode_error + 'v \<Rightarrow> decode_error option
     \<Rightarrow> (body_error + 'v) option" where
  "JSONBody ulow quote header first second =
     (let decode = (case first of
            Inl err \<Rightarrow> Inl (decode_failure quote err)
          | Inr v \<Rightarrow>
              if second \<noteq> Some DecEOF
              then Inl (MalformedRequest 400 ''Request body must only contain a single JSON object'')
              else Inr v)
      in if Header_Get header ''Content-Type'' \<noteq> [] then
           (case ParseValueAndParams ulow header ''Content-Type'' of
              None \<Rightarrow> None
            | Some (value, params) \<Rightarrow>
                if value \<noteq> ''application/json''
                then Some (Inl (MalformedRequest 415 ''Content-Type header is not application/json''))
                else Some decode)
         else Some decode)"

fun IsEmptyBodyError :: "body_error \<Rightarrow> bool" where
  "IsEmptyBodyError (MalformedRequest status msg) = (status = 204)"
| "IsEmptyBodyError (PlainError msg) = False"

end
