(* ===== verification/Handlers.thy ===== *)
theory Handlers
  imports Store Decode
begin

text \<open>
  The handlers of eventsse: the listing (\<open>handlers/getter/getter.go\<close>), the reception
  (\<open>handlers/sub/sub.go\<close>), the event stream (\<open>handlers/pub/pub.go\<close>) and the middlewares
  (\<open>middlewares/access/access.go\<close>, \<open>middlewares/logger/logger.go\<close>). A handler takes the request, the response writer and the world,
  and returns the writer and the world. \<open>msg\<close> is \<open>Error()\<close> of an error of the store.
\<close>

section \<open>Listing events\<close>

record ('w, 'e, 'x) getter =
  gh_storage :: "('w, 'e, 'x) Store"
  gh_maxLimit :: int

definition Events :: "('w, 'e, 'x) Store \<Rightarrow> int \<Rightarrow> ('w, 'e, 'x) getter" where
  "Events storage limit =
     \<lparr>gh_storage = storage,
      gh_maxLimit = (if limit < 0 \<or> 100 < limit then 100 else limit)\<rparr>"

definition get_limit :: "int \<Rightarrow> string \<Rightarrow> int" where
  "get_limit maxLimit v =
     (let limit = (if 0 < length v then (case strconv_Atoi v of Some x \<Rightarrow> x | None \<Rightarrow> maxLimit)
                   else maxLimit);
          mx = (if maxLimit > 100 then 100 else maxLimit)
      in if limit < 0 \<or> mx < limit then mx else limit)"

type_synonym 'x event_sorter = "('x event \<Rightarrow> 'x event \<Rightarrow> bool) \<Rightarrow> 'x event list \<Rightarrow> 'x event list"

definition newest_first :: "'x event \<Rightarrow> 'x event \<Rightarrow> bool" where
  "newest_first x y = time_After (ev_LastTimestamp x) (ev_LastTimestamp y)"

definition request_key :: "('w, 'e, 'x) getter \<Rightarrow> request \<Rightarrow> string" where
  "request_key h req =
     (let cid = rq_PathValue req ''composition'';
          cid = (if length cid = 0 then rq_Query req ''composition'' else cid)
      in st_PrepareKey (gh_storage h) [] cid)"

definition getter_ServeHTTP ::
  "'x event_sorter \<Rightarrow> ('x event list \<Rightarrow> 'e + string) \<Rightarrow> ('e \<Rightarrow> string) \<Rightarrow> ('w, 'e, 'x) getter
     \<Rightarrow> request \<Rightarrow> response \<Rightarrow> 'w \<Rightarrow> response \<times> 'w" where
  "getter_ServeHTTP srt encl msg h req rw w =
     (if rq_Method req = ''OPTIONS'' then (WriteHeader 204 rw, w)
      else
        (let key = request_key h req;
             limit = get_limit (gh_maxLimit h) (rq_Query req ''limit'')
         in case st_Get (gh_storage h) w key \<lparr>go_Limit = limit, go_EndKey = []\<rparr> of
              ((all, ok, Some e), w') \<Rightarrow> (http_Error (msg e) 500 rw, w')
            | ((all, ok, None), w') \<Rightarrow>
                if \<not> ok then (WriteHeader 204 rw, w')
                else
                  (let sorted = srt newest_first all;
                       rw1 = WriteHeader 200 (Header_Set ''Content-Type'' ''application/json'' rw)
                   in case encl sorted of
                        Inr js \<Rightarrow> (Write (js @ newline) rw1, w')
                      | Inl e \<Rightarrow> (http_Error (msg e) 500 rw1, w'))))"

section \<open>Receiving events\<close>

text \<open>The handler keeps the time to live it is given; only the store's own is used for what it writes.\<close>

record ('w, 'e, 'x) HandleOptions =
  ho_Store :: "('w, 'e, 'x) Store"
  ho_TTL :: int

record ('w, 'e, 'x) sub_handler =
  sh_store :: "('w, 'e, 'x) Store"
  sh_ttl :: int

definition sub_Handle :: "('w, 'e, 'x) HandleOptions \<Rightarrow> ('w, 'e, 'x) sub_handler" where
  "sub_Handle opts = \<lparr>sh_store = ho_Store opts, sh_ttl = ho_TTL opts\<rparr>"

lemma sub_Handle_store [simp]: "sh_store (sub_Handle opts) = ho_Store opts"
  by (simp add: sub_Handle_def)

definition sub_ServeHTTP ::
  "(string \<Rightarrow> string) \<Rightarrow> (string \<Rightarrow> string) \<Rightarrow> ('e \<Rightarrow> string) \<Rightarrow> ('w, 'e, 'x) Store
     \<Rightarrow> decode_error + 'x event \<Rightarrow> decode_error option \<Rightarrow> request \<Rightarrow> response \<Rightarrow> 'w
     \<Rightarrow> (response \<times> 'w) option" where
  "sub_ServeHTTP ulow quote msg st first second req rw w =
     (case JSONBody ulow quote (rq_Header req) first second of
        None \<Rightarrow> None
      | Some (Inl err) \<Rightarrow>
          Some (if IsEmptyBodyError err then http_Error (body_Error err) 204 rw
                else http_Error (body_Error err) 400 rw, w)
      | Some (Inr nfo) \<Rightarrow>
          (let key = st_PrepareKey st (ev_UID nfo) (CompositionID nfo)
           in case st_Set st w key nfo of
                (Some e, w') \<Rightarrow> Some (http_Error (msg e) 500 rw, w')
              | (None, w') \<Rightarrow>
                  Some (Write key (Header_Set ''Content-Type'' ''text/plain'' (WriteHeader 200 rw)), w')))"

section \<open>The event stream\<close>

definition setCORSHeaders :: "response \<Rightarrow> response" where
  "setCORSHeaders w =
     Header_Set ''Access-Control-Allow-Credentials'' ''true''
      (Header_Set ''Access-Control-Allow-Headers'' ''Authorization,Content-Type''
        (Header_Set ''Access-Control-Expose-Headers'' ''Link,Authorization,Content-Type''
          (Header_Set ''Access-Control-Allow-Headers''
             ''Accept, Authorization, Content-Type, X-Auth-Code, X-Krateo-TraceId''
            (Header_Set ''Access-Control-Allow-Methods'' ''GET, POST, OPTIONS''
              (Header_Set ''Access-Control-Allow-Origin'' ''*'' w)))))"

text \<open>What the \<open>select\<close> of the loop yields; an event of a watch response is a key with a value.\<close>

datatype sse_input = CtxDone | WatchClosed | WatchResp "(string \<times> string) list"

definition sse_event :: "(string \<Rightarrow> 'e + 'x event) \<Rightarrow> string \<times> string \<Rightarrow> response \<Rightarrow> response" where
  "sse_event dec ev w =
     (let key = fst ev; val = snd ev
      in if length val = 0 then w
         else (case dec val of
                 Inl e \<Rightarrow> w
               | Inr obj \<Rightarrow>
                   (let cid = CompositionID obj;
                        eventName = (if 0 < length cid then cid else ''krateo'')
                    in Write (''data: '' @ val @ newline @ newline)
                         (Write (''id: '' @ key @ newline)
                           (Write (''event: '' @ eventName @ newline) w)))))"

fun sse_loop :: "(string \<Rightarrow> 'e + 'x event) \<Rightarrow> sse_input list \<Rightarrow> response \<Rightarrow> response" where
  "sse_loop dec [] w = w"
| "sse_loop dec (CtxDone # inputs) w = w"
| "sse_loop dec (WatchClosed # inputs) w = w"
| "sse_loop dec (WatchResp evs # inputs) w = sse_loop dec inputs (fold (sse_event dec) evs w)"

definition sse_hello :: "response \<Rightarrow> response" where
  "sse_hello w =
     Write (''data: '' @ (CHR ''{'' # CHR 0x22 # ''info'' @ CHR 0x22 # '': '' @ CHR 0x22 # ''Ready to watch events'' @ [CHR 0x22, CHR ''}''])
              @ newline @ newline)
       (Write (''id: 88888888'' @ newline)
         (Write (''event: connection-established'' @ newline) w))"

definition SSE_ServeHTTP ::
  "(string \<Rightarrow> 'e + 'x event) \<Rightarrow> bool \<Rightarrow> request \<Rightarrow> sse_input list \<Rightarrow> response \<Rightarrow> response" where
  "SSE_ServeHTTP dec flusher req inputs rw =
     (if rq_Method req = ''OPTIONS'' then WriteHeader 204 (setCORSHeaders rw)
      else
        (let rw1 = Header_Set ''X-Accel-Buffering'' ''no''
                     (Header_Set ''Connection'' ''keep-alive''
                       (Header_Set ''Cache-Control'' ''no-cache''
                         (Header_Set ''Content-Type'' ''text/event-stream'' (setCORSHeaders rw))))
         in if \<not> flusher then http_Error ''Streaming not supported'' 500 rw1
            else sse_loop dec inputs (sse_hello rw1)))"

section \<open>The access log\<close>

text \<open>
  A handler may panic, which is \<open>None\<close>. The middleware calls the next handler and then logs: \<open>emit\<close>
  writes an entry with the address, the method and the headers of the response.
\<close>

type_synonym 'w handler = "request \<Rightarrow> response \<Rightarrow> 'w \<Rightarrow> (response \<times> 'w) option"

type_synonym access_entry = "string \<times> string \<times> header_map"

definition client_ip :: "request \<Rightarrow> string" where
  "client_ip r =
     (let ip = rq_RemoteAddr r; forwarded = Header_Get (rq_Header r) ''X-Forwarded-For''
      in if forwarded \<noteq> [] then forwarded else ip)"

definition Access :: "(access_entry \<Rightarrow> 'w \<Rightarrow> 'w) \<Rightarrow> 'w handler \<Rightarrow> 'w handler" where
  "Access emit nxt r rw w =
     (let ip = client_ip r
      in (case nxt r rw w of
            None \<Rightarrow> None
          | Some (rw', w') \<Rightarrow> Some (rw', emit (ip, rq_Method r, rw_Header rw') w')))"

text \<open>The logger middleware puts a logger into the context of the request and calls the next handler.\<close>

definition Logger :: "('log \<Rightarrow> request \<Rightarrow> request) \<Rightarrow> 'log \<Rightarrow> 'w handler \<Rightarrow> 'w handler" where
  "Logger with_context lg nxt r rw w = nxt (with_context lg r) rw w"

section \<open>Properties of the listing\<close>

lemma get_limit_bounds:
  assumes "0 \<le> m" and "m \<le> 100"
  shows "0 \<le> get_limit m v \<and> get_limit m v \<le> m"
  using assms by (auto simp: get_limit_def Let_def split: option.splits)

lemma Events_maxLimit: "0 \<le> gh_maxLimit (Events st limit) \<and> gh_maxLimit (Events st limit) \<le> 100"
  by (auto simp: Events_def)

lemma strict_weak_newest: "strict_weak_order (newest_first :: 'x event \<Rightarrow> 'x event \<Rightarrow> bool)"
proof -
  have "newest_first = (\<lambda>(x :: 'x event) y. ev_LastTimestamp y < ev_LastTimestamp x)"
    by (simp add: newest_first_def fun_eq_iff)
  then show ?thesis using strict_weak_order_key(2) by metis
qed

lemma sorted_newest: "sorted_wrt (\<lambda>x y. \<not> newest_first y x) evs \<longleftrightarrow> sorted (rev (map ev_LastTimestamp evs))"
  by (simp add: newest_first_def sorted_wrt_rev sorted_wrt_map not_less flip: rev_map)

text \<open>
  What a listing answers, for any store that keeps the contract: proved once here, for the interface.
\<close>

context event_store
begin

lemma listing_answer:
  assumes srt: "sort_slice_ok srt" and "rq_Method req \<noteq> ''OPTIONS''"
    and get: "st_Get st w (request_key (Events st limit) req)
        \<lparr>go_Limit = get_limit (gh_maxLimit (Events st limit)) (rq_Query req ''limit''), go_EndKey = []\<rparr>
      = ((data, found, None), w')"
    and ne: "data \<noteq> []" and enc: "\<And>evs. encl evs = Inr (render evs)"
  shows "\<exists>evs. getter_ServeHTTP srt encl msg (Events st limit) req new_response w
        = (\<lparr>rw_Header = [''Content-Type'' \<mapsto> [''application/json'']], rw_Status = Some 200,
            rw_Sent = [''Content-Type'' \<mapsto> [''application/json'']], rw_Body = render evs @ newline\<rparr>, w')
      \<and> mset evs = mset data \<and> sorted (rev (map ev_LastTimestamp evs))"
proof -
  have "found" using get_found [OF get] ne by simp
  moreover have "mset (srt newest_first data) = mset data" using srt by (rule sort_slice_mset)
  moreover have "sorted (rev (map ev_LastTimestamp (srt newest_first data)))"
    using sort_slice_sorted [OF srt strict_weak_newest] by (simp add: sorted_newest)
  ultimately show ?thesis
    using get assms(2) enc
    by (intro exI [of _ "srt newest_first data"])
       (simp add: getter_ServeHTTP_def Let_def http_defs new_response_def Events_def fun_upd_def)
qed

lemma listing_bounded:
  assumes "contract" and "get_limit (gh_maxLimit (Events st limit)) v \<noteq> 0"
    and "st_Get st w k \<lparr>go_Limit = get_limit (gh_maxLimit (Events st limit)) v, go_EndKey = []\<rparr>
      = ((data, found, None), w')"
  shows "length data \<le> 100"
proof -
  have "0 < get_limit (gh_maxLimit (Events st limit)) v" "get_limit (gh_maxLimit (Events st limit)) v \<le> 100"
    using assms(2) Events_maxLimit [of st limit] get_limit_bounds [of "gh_maxLimit (Events st limit)" v]
    by linarith+
  then show ?thesis using get_bound [OF assms(1,3)] by simp
qed

end

text \<open>An answer of 200, traced back to the key space: for the store over etcd.\<close>

lemma listing_of_200:
  assumes reads: "etcd_reads cli view" and srt: "sort_slice_ok srt" and m: "rq_Method req \<noteq> ''OPTIONS''"
    and encl: "\<And>evs. encl evs = Inr (render evs)"
    and res: "getter_ServeHTTP srt encl msg (Events (client_store ulow enc dec cli cl) limit) req new_response w = (rw, w')"
      "rw_Status rw = Some 200"
  obtains data evs where "list_all2 (\<lambda>x v. dec (kv_Value x) = Inr v)
      (limit_take (get_limit (gh_maxLimit (Events (client_store ulow enc dec cli cl) limit)) (rq_Query req ''limit''))
        (rev (filter (\<lambda>x. strings_HasPrefix (kv_Key x) (request_key (Events (client_store ulow enc dec cli cl) limit) req))
          (view w)))) data"
    and "mset evs = mset data" and "sorted (rev (map ev_LastTimestamp evs))" and "rw_Body rw = render evs @ newline"
proof -
  let ?st = "client_store ulow enc dec cli cl"
  let ?key = "request_key (Events ?st limit) req"
  let ?opts = "\<lparr>go_Limit = get_limit (gh_maxLimit (Events ?st limit)) (rq_Query req ''limit''), go_EndKey = []\<rparr>"
  obtain data where get: "client_Get dec cli w ?key ?opts = ((data, True, None), w')" and ne: "data \<noteq> []"
  proof -
    obtain data found e w1 where g: "client_Get dec cli w ?key ?opts = ((data, found, e), w1)" by (metis prod_cases4 surj_pair)
    then have st: "st_Get ?st w ?key ?opts = ((data, found, e), w1)" by (simp add: client_store_def)
    have "e = None \<and> found \<and> w1 = w'"
      using res m st encl
      by (cases e; cases found)
        (auto simp: getter_ServeHTTP_def Events_def [of ?st limit] http_defs new_response_def Let_def)
    moreover from this have "data \<noteq> []" using client_Get_ok [of dec cli w ?key ?opts data found w1] g by metis
    ultimately show ?thesis using that g by simp
  qed
  have st: "st_Get ?st w ?key ?opts = ((data, True, None), w')" using get by (simp add: client_store_def)
  obtain evs where evs: "getter_ServeHTTP srt encl msg (Events ?st limit) req new_response w
        = (\<lparr>rw_Header = [''Content-Type'' \<mapsto> [''application/json'']], rw_Status = Some 200,
            rw_Sent = [''Content-Type'' \<mapsto> [''application/json'']], rw_Body = render evs @ newline\<rparr>, w')"
      "mset evs = mset data" "sorted (rev (map ev_LastTimestamp evs))"
    using client.listing_answer [where encl = encl and render = render and msg = msg, OF srt m st ne encl] by blast
  obtain kvs where g: "et_Get cli w ?key (get_ops ?opts) = (Inr kvs, w')"
    and d: "list_all2 (\<lambda>x v. dec (kv_Value x) = Inr v) kvs data"
    using client_Get_ok [OF get] by metis
  have "kvs = limit_take (go_Limit ?opts) (rev (filter (\<lambda>x. strings_HasPrefix (kv_Key x) ?key) (view w)))"
    using reads_select [OF reads g] by (simp add: get_ops_sel)
  then show ?thesis using that [OF _ evs(2,3)] d evs(1) res(1) by simp
qed

lemma request_key_store:
  "request_key (Events (client_store ulow enc dec cli cl) limit) req
     = PrepareKey ulow [] (if rq_PathValue req ''composition'' = [] then rq_Query req ''composition''
                           else rq_PathValue req ''composition'')"
  by (simp add: request_key_def Events_def client_store_def)

text \<open>
  C17. The listing, on a cluster that keeps its contract. An answer of 200 carries the JSON of the events
  under the key of the composition that the path or the query names, newest last occurrence first.
  The query's limit counts when it is a number from 0 to the maximum, and the maximum counts otherwise: of the
  keys in descending order the first so many are listed, and all of them when the limit is zero. The
  maximum is what the handler was made with, if that is from 0 to 100, and else 100. (The limit is applied in
  key order, so these are not the newest ones.)
\<close>

theorem listing_sorted_and_bounded:
  assumes reads: "etcd_reads cli view" and srt: "sort_slice_ok srt" and m: "rq_Method req \<noteq> ''OPTIONS''"
    and encl: "\<And>evs. encl evs = Inr (render evs)"
    and res: "getter_ServeHTTP srt encl msg (Events (client_store ulow enc dec cli cl) limit) req new_response w = (rw, w')"
      "rw_Status rw = Some 200"
    and mx: "mx = (if 0 \<le> limit \<and> limit \<le> 100 then limit else 100)"
    and cap: "cap = (case strconv_Atoi (rq_Query req ''limit'') of Some n \<Rightarrow> if 0 \<le> n \<and> n \<le> mx then n else mx | None \<Rightarrow> mx)"
    and key: "key = PrepareKey ulow [] (if rq_PathValue req ''composition'' = [] then rq_Query req ''composition''
                                        else rq_PathValue req ''composition'')"
  shows "\<exists>data evs. list_all2 (\<lambda>x v. dec (kv_Value x) = Inr v)
        ((if cap = 0 then id else take (nat cap)) (rev (filter (\<lambda>x. strings_HasPrefix (kv_Key x) key) (view w)))) data
      \<and> mset evs = mset data \<and> sorted (rev (map ev_LastTimestamp evs)) \<and> rw_Body rw = render evs @ newline
      \<and> (cap \<noteq> 0 \<longrightarrow> int (length evs) \<le> cap)"
proof -
  let ?h = "Events (client_store ulow enc dec cli cl) limit"
  obtain data evs where d: "list_all2 (\<lambda>x v. dec (kv_Value x) = Inr v)
      (limit_take (get_limit (gh_maxLimit ?h) (rq_Query req ''limit''))
        (rev (filter (\<lambda>x. strings_HasPrefix (kv_Key x) (request_key ?h req)) (view w)))) data"
    and evs: "mset evs = mset data" "sorted (rev (map ev_LastTimestamp evs))" "rw_Body rw = render evs @ newline"
    by (rule listing_of_200 [OF reads srt m encl res])
  have mx': "gh_maxLimit ?h = mx" "0 \<le> mx" "mx \<le> 100" by (auto simp: Events_def mx)
  have "get_limit mx (rq_Query req ''limit'') = cap"
    using mx' by (auto simp: cap get_limit_def Let_def strconv_Atoi_def split: option.splits)
  moreover have "0 \<le> cap" using mx' by (auto simp: cap split: option.splits)
  ultimately have sel: "list_all2 (\<lambda>x v. dec (kv_Value x) = Inr v)
        ((if cap = 0 then id else take (nat cap)) (rev (filter (\<lambda>x. strings_HasPrefix (kv_Key x) key) (view w)))) data"
    using d unfolding mx' request_key_store key by (simp add: limit_take_def split: if_splits)
  have "length evs = length data" using evs(1) by (rule mset_eq_length)
  then have "cap \<noteq> 0 \<longrightarrow> int (length evs) \<le> cap"
    using list_all2_lengthD [OF sel] \<open>0 \<le> cap\<close> by auto
  with sel evs show ?thesis by blast
qed

definition wit_request :: "string \<Rightarrow> string \<Rightarrow> request" where
  "wit_request cid limit =
     \<lparr>rq_Method = ''GET'', rq_Header = Map.empty, rq_PathValue = (\<lambda>_. []),
      rq_Query = (\<lambda>k. if k = ''composition'' then cid else if k = ''limit'' then limit else []),
      rq_RemoteAddr = ''10.0.0.1:4000''\<rparr>"

text \<open>One event of the composition \<open>ab\<close>; the listing is asked for the composition \<open>a\<close>.\<close>

definition wit_listing :: "kv list" where
  "wit_listing = [\<lparr>kv_Key = ''krateo.io.events/comp-ab/1'', kv_Value = ''1.'', kv_CreateRevision = 1\<rparr>]"

definition wit_store :: "(kv list, unit, unit) Store" where
  "wit_store = client_store id wit_enc wit_dec tidy_etcd \<lparr>c_timeOut = 0, c_ttl = 180\<rparr>"

lemma wit_key: "request_key (Events wit_store n) (wit_request ''a'' v) = ''krateo.io.events/comp-a''"
proof -
  have "ids_ok [] ''a''" by (simp add: ids_ok_def is_ascii_def)
  then have "PrepareKey id [] ''a'' = ''krateo.io.events/comp-a''"
    using PrepareKey_layout [of "[]" "''a''" id] by (simp add: ascii_lower_def)
  then show ?thesis
    by (simp add: request_key_def wit_request_def Events_def wit_store_def client_store_def)
qed

lemma wit_answer:
  assumes "strconv_Atoi v = Some n" and "0 \<le> n" and "n \<le> 100"
  shows "getter_ServeHTTP insertion_sort (\<lambda>evs. Inr (concat (map ev_UID evs))) (\<lambda>_. []) (Events wit_store 100)
      (wit_request ''a'' v) new_response wit_listing
    = (\<lparr>rw_Header = [''Content-Type'' \<mapsto> [''application/json'']], rw_Status = Some 200,
        rw_Sent = [''Content-Type'' \<mapsto> [''application/json'']], rw_Body = ''1'' @ newline\<rparr>, wit_listing)"
proof -
  have lim: "get_limit (gh_maxLimit (Events wit_store 100)) v = n"
    using assms by (auto simp: get_limit_def Events_def Let_def strconv_Atoi_def)
  have "client_Get wit_dec tidy_etcd wit_listing ''krateo.io.events/comp-a'' \<lparr>go_Limit = n, go_EndKey = []\<rparr>
      = (([wit_event ''1''], True, None), wit_listing)"
    using assms(2)
    by (simp add: client_Get_def tidy_etcd_def get_ops_sel limit_take_def wit_dec_def tidy_def
        key_space_def wit_listing_def)
  then show ?thesis
    using lim wit_key [of 100 v]
    by (simp add: getter_ServeHTTP_def Let_def wit_request_def Events_def wit_store_def client_store_def http_defs
        new_response_def fun_upd_def wit_event_def insertion_sort_def)
qed

lemma wit_Atoi: "strconv_Atoi ''7'' = Some 7" "strconv_Atoi ''0'' = Some 0"
  by (simp_all add: strconv_Atoi_def is_digit_def digits_val_def digit_val_def)

theorem listing_sorted_and_bounded_witness:
  "\<exists>data evs. list_all2 (\<lambda>x v. wit_dec (kv_Value x) = Inr v)
        (take 7 (rev (filter (\<lambda>x. strings_HasPrefix (kv_Key x) ''krateo.io.events/comp-a'') wit_listing))) data
      \<and> mset evs = mset data \<and> ''1'' @ newline = concat (map ev_UID evs) @ newline \<and> int (length evs) \<le> 7"
proof -
  have reads: "etcd_reads tidy_etcd tidy" using tidy_contract by (simp add: etcd_contract_def)
  have m: "rq_Method (wit_request ''a'' ''7'') \<noteq> ''OPTIONS''" by (simp add: wit_request_def)
  have key: "PrepareKey id [] ''a'' = ''krateo.io.events/comp-a''"
    using wit_key [of 100 "''7''"] unfolding wit_store_def request_key_store by (simp add: wit_request_def)
  have tidy: "tidy wit_listing = wit_listing" by (simp add: tidy_def key_space_def wit_listing_def)
  note ans = wit_answer [OF wit_Atoi(1), simplified, unfolded wit_store_def]
  from listing_sorted_and_bounded [where render = "\<lambda>evs. concat (map ev_UID evs)", OF reads insertion_sort_ok m _ ans _ refl refl refl]
  show ?thesis by (simp add: wit_request_def wit_Atoi key tidy) blast
qed

text \<open>
  C36. Two ways around the listing's confinement. A query \<open>limit=0\<close> passes the handler's check and means
  no limit to etcd, so an answer of 200 lists every event stored in the range, however many. And the
  range of a composition is a plain prefix: the events of every composition whose id merely starts with
  the one asked for are listed too.
\<close>

theorem listing_limit_zero_and_prefix:
  assumes reads: "etcd_reads cli view" and srt: "sort_slice_ok srt" and m: "rq_Method req \<noteq> ''OPTIONS''"
    and encl: "\<And>evs. encl evs = Inr (render evs)"
    and ids: "ids_ok [] c" "ids_ok e (c @ d)" "c \<noteq> []"
    and v: "rq_Query req ''limit'' = ''0''" and cid: "rq_PathValue req ''composition'' = c"
    and res: "getter_ServeHTTP srt encl msg (Events (client_store ulow enc dec cli cl) limit) req new_response w = (rw, w')"
      "rw_Status rw = Some 200"
  shows "\<exists>evs. rw_Body rw = render evs @ newline
     \<and> length evs = length (filter (\<lambda>x. strings_HasPrefix (kv_Key x) (PrepareKey ulow [] c)) (view w))
     \<and> (\<forall>x \<in> set (view w). kv_Key x = PrepareKey ulow e (c @ d) \<longrightarrow>
          (\<exists>obj \<in> set evs. dec (kv_Value x) = Inr obj))"
proof -
  let ?h = "Events (client_store ulow enc dec cli cl) limit"
  let ?sel = "rev (filter (\<lambda>x. strings_HasPrefix (kv_Key x) (PrepareKey ulow [] c)) (view w))"
  obtain data evs where d: "list_all2 (\<lambda>x v. dec (kv_Value x) = Inr v)
      (limit_take (get_limit (gh_maxLimit ?h) (rq_Query req ''limit''))
        (rev (filter (\<lambda>x. strings_HasPrefix (kv_Key x) (request_key ?h req)) (view w)))) data"
    and evs: "mset evs = mset data" "rw_Body rw = render evs @ newline"
    by (rule listing_of_200 [OF reads srt m encl res])
  have "get_limit (gh_maxLimit ?h) (rq_Query req ''limit'') = 0"
    using Events_maxLimit [of "client_store ulow enc dec cli cl" limit]
    by (simp add: v get_limit_def strconv_Atoi_def is_digit_def digits_val_def digit_val_def)
  then have sel: "list_all2 (\<lambda>x v. dec (kv_Value x) = Inr v) ?sel data"
    using d ids(3) by (simp add: request_key_store cid limit_take_def)
  have "strings_HasPrefix (PrepareKey ulow e (c @ d)) (PrepareKey ulow [] c)"
    using PrepareKey_elems [OF ids(1)] PrepareKey_elems [OF ids(2)] ids(3)
    by (cases "e = []") (auto simp: key_elems_def HasPrefix_iff prefix_def)
  then have "\<exists>obj \<in> set data. dec (kv_Value x) = Inr obj"
    if "x \<in> set (view w)" "kv_Key x = PrepareKey ulow e (c @ d)" for x
  proof -
    have "x \<in> set ?sel" using that \<open>strings_HasPrefix _ _\<close> by simp
    then obtain i where i: "i < length ?sel" "?sel ! i = x" by (auto simp only: in_set_conv_nth)
    have "dec (kv_Value x) = Inr (data ! i)" using list_all2_nthD [OF sel i(1)] i(2) by simp
    moreover have "data ! i \<in> set data" using i(1) list_all2_lengthD [OF sel] by simp
    ultimately show ?thesis by blast
  qed
  moreover have "set evs = set data" "length evs = length data"
    using evs(1) by (metis set_mset_mset, rule mset_eq_length)
  ultimately show ?thesis using evs(2) list_all2_lengthD [OF sel] by auto
qed

text \<open>At a concrete input: the listing of \<open>a\<close>, named in the path, has the event of \<open>ab\<close>.\<close>

theorem listing_limit_zero_and_prefix_witness:
  "\<exists>evs. ''1'' @ newline = concat (map ev_UID evs) @ newline \<and> length evs = 1 \<and> wit_event ''1'' \<in> set evs"
proof -
  let ?r = "(wit_request [] ''0'')\<lparr>rq_PathValue := \<lambda>k. if k = ''composition'' then ''a'' else []\<rparr>"
  have ids: "ids_ok [] ''a''" "ids_ok ''1'' (''a'' @ ''b'')"
    by (simp_all add: ids_ok_def is_ascii_def plain_elem_def)
  have keys: "PrepareKey id [] ''a'' = ''krateo.io.events/comp-a''"
    "PrepareKey id ''1'' (''a'' @ ''b'') = ''krateo.io.events/comp-ab/1''"
    unfolding PrepareKey_elems [OF ids(1)] PrepareKey_elems [OF ids(2)]
    by (simp_all add: key_elems_def RootKey_def ascii_lower_def)
  have reads: "etcd_reads tidy_etcd tidy" using tidy_contract by (simp add: etcd_contract_def)
  have m: "rq_Method ?r \<noteq> ''OPTIONS''" by (simp add: wit_request_def)
  have v: "rq_Query ?r ''limit'' = ''0''" "rq_PathValue ?r ''composition'' = ''a''" by (simp_all add: wit_request_def)
  have "getter_ServeHTTP insertion_sort (\<lambda>evs. Inr (concat (map ev_UID evs))) (\<lambda>_. []) (Events wit_store 100)
      ?r new_response wit_listing
    = getter_ServeHTTP insertion_sort (\<lambda>evs. Inr (concat (map ev_UID evs))) (\<lambda>_. []) (Events wit_store 100)
      (wit_request ''a'' ''0'') new_response wit_listing"
    by (simp add: getter_ServeHTTP_def request_key_def wit_request_def)
  note ans = trans [OF this wit_answer [OF wit_Atoi(2), simplified], unfolded wit_store_def]
  have tidy: "tidy wit_listing = wit_listing" by (simp add: tidy_def key_space_def wit_listing_def)
  from listing_limit_zero_and_prefix [where render = "\<lambda>evs. concat (map ev_UID evs)",
      OF reads insertion_sort_ok m _ ids _ v ans]
  show ?thesis
    by (simp add: tidy keys keys(2) [simplified]) (simp add: wit_listing_def wit_dec_def keys(2) [simplified])
qed

section \<open>Properties of the reception\<close>

text \<open>
  C19. The status of a reception. It is 200, with the key as the body, exactly when the body decoded and
  the store took the event, and 500 when only the store failed; an empty body is answered 204 and
  without a body; every other defect is answered 400, a wrong content type too, although the decoder
  asks for 415 there. The content type set after the status line is not sent.
\<close>

theorem reception_answers:
  "\<exists>rw w'. sub_ServeHTTP ulow quote msg st first second req new_response w = Some (rw, w')
     \<and> (case the (JSONBody ulow quote (rq_Header req) first second) of
          Inl (MalformedRequest status m) \<Rightarrow>
            rw_Status rw = Some (if status = 204 then 204 else 400) \<and> w' = w
            \<and> rw_Body rw = (if status = 204 then [] else m @ newline)
        | Inl (PlainError m) \<Rightarrow> rw_Status rw = Some 400 \<and> w' = w \<and> rw_Body rw = m @ newline
        | Inr nfo \<Rightarrow>
            (let key = st_PrepareKey st (ev_UID nfo) (CompositionID nfo)
             in w' = snd (st_Set st w key nfo)
                \<and> (case fst (st_Set st w key nfo) of
                     Some e \<Rightarrow> rw_Status rw = Some 500 \<and> rw_Body rw = msg e @ newline
                   | None \<Rightarrow> rw_Status rw = Some 200 \<and> rw_Body rw = key \<and> rw_Sent rw ''Content-Type'' = None)))
     \<and> (\<forall>media. Header_Get (rq_Header req) ''Content-Type'' = media \<and> media \<noteq> []
          \<and> list_all (\<lambda>b. is_token b \<or> b = CHR ''/'') media \<and> map ascii_lower media \<noteq> ''application/json''
          \<longrightarrow> rw_Status rw = Some 400 \<and> w' = w)"
proof -
  have "JSONBody ulow quote (rq_Header req) first second \<noteq> None"
    using ParseValueAndParams_total [of ulow "rq_Header req" "''Content-Type''"]
    by (auto simp: JSONBody_def Let_def split: option.splits prod.splits)
  then obtain r where r: "JSONBody ulow quote (rq_Header req) first second = Some r" by blast
  have media: "r = Inl (MalformedRequest 415 ''Content-Type header is not application/json'')"
    if h: "Header_Get (rq_Header req) ''Content-Type'' = media" and "media \<noteq> []"
      "list_all (\<lambda>b. is_token b \<or> b = CHR ''/'') media" "map ascii_lower media \<noteq> ''application/json''" for media
  proof -
    have "ParseValueAndParams ulow (rq_Header req) ''Content-Type'' = Some (map ascii_lower media, Map.empty)"
      using ParseValueAndParams_media [of "rq_Header req" "''Content-Type''" media "[]" ulow] that by simp
    then show ?thesis using that r by (simp add: JSONBody_def)
  qed
  have "sub_ServeHTTP ulow quote msg st first second req new_response w \<noteq> None"
    by (auto simp: sub_ServeHTTP_def r Let_def split: sum.splits option.splits prod.splits)
  then obtain rw w' where s: "sub_ServeHTTP ulow quote msg st first second req new_response w = Some (rw, w')"
    by (metis not_None_eq surj_pair)
  show ?thesis
  proof (intro exI conjI, rule s, goal_cases)
    case 1
    show ?case
      using s unfolding r
      by (auto simp: sub_ServeHTTP_def r http_defs new_response_def
          split: sum.splits option.splits prod.splits body_error.splits if_splits)
  next
    case 2
    show ?case
      using s media
      by (auto simp: sub_ServeHTTP_def r http_defs new_response_def)
  qed
qed

theorem reception_answers_witness:
  "\<exists>rw w'. sub_ServeHTTP id id (\<lambda>_. []) wit_store (Inr (wit_event ''1'')) (Some DecEOF)
       ((wit_request [] [])\<lparr>rq_Header := [''Content-Type'' \<mapsto> [''text/plain'']]\<rparr>) new_response [] = Some (rw, w')
     \<and> rw_Status rw = Some 400 \<and> w' = []"
proof -
  have "list_all (\<lambda>b. is_token b \<or> b = CHR ''/'') ''text/plain''"
    by (simp add: is_token_iff separators_def)
  moreover have "map ascii_lower ''text/plain'' \<noteq> ''application/json''" by (simp add: ascii_lower_def)
  ultimately show ?thesis
    using reception_answers [of id id "\<lambda>_. []" wit_store "Inr (wit_event ''1'')" "Some DecEOF"
        "(wit_request [] [])\<lparr>rq_Header := [''Content-Type'' \<mapsto> [''text/plain'']]\<rparr>" "[]"]
    by (elim exE conjE allE [of _ "''text/plain''"]) (auto simp: Header_Get_def)
qed

section \<open>Properties of the stream\<close>

text \<open>
  The specification: how a client reads an event stream (the lines the server uses of the format:
  \<open>event\<close>, \<open>id\<close>, \<open>data\<close>, and the empty line that dispatches what was collected).
\<close>

record frame =
  fr_event :: string
  fr_id :: string
  fr_data :: "string list"

fun sse_lines :: "string list \<Rightarrow> string \<Rightarrow> string \<Rightarrow> string list \<Rightarrow> frame list" where
  "sse_lines [] event eid data = []"
| "sse_lines (l # ls) event eid data =
     (if l = [] then
        (if data = [] then [] else [\<lparr>fr_event = event, fr_id = eid, fr_data = data\<rparr>])
        @ sse_lines ls [] eid []
      else if strings_HasPrefix l ''event: '' then sse_lines ls (drop 7 l) eid data
      else if strings_HasPrefix l ''id: '' then sse_lines ls event (drop 4 l) data
      else if strings_HasPrefix l ''data: '' then sse_lines ls event eid (data @ [drop 6 l])
      else sse_lines ls event eid data)"

definition sse_parse :: "string \<Rightarrow> frame list" where
  "sse_parse body = sse_lines (butlast (strings_Split (CHR 0x0A) body)) [] [] []"

text \<open>The frame an event of a watch response should give, if any.\<close>

definition frame_of :: "(string \<Rightarrow> 'e + 'x event) \<Rightarrow> string \<times> string \<Rightarrow> frame list" where
  "frame_of dec ev =
     (if snd ev = [] then []
      else case dec (snd ev) of
             Inl e \<Rightarrow> []
           | Inr obj \<Rightarrow>
               [\<lparr>fr_event = (if CompositionID obj = [] then ''krateo'' else CompositionID obj),
                 fr_id = fst ev, fr_data = [butlast (snd ev)]\<rparr>])"

text \<open>Values as \<open>Set\<close> stores them, one line with its end, and no line breaks in key and label.\<close>

definition one_line :: "string \<Rightarrow> bool" where
  "one_line s \<longleftrightarrow> CHR 0x0A \<notin> set s"

definition stream_ok :: "(string \<Rightarrow> 'e + 'x event) \<Rightarrow> string \<times> string \<Rightarrow> bool" where
  "stream_ok dec ev \<longleftrightarrow>
     (\<forall>obj. snd ev \<noteq> [] \<and> dec (snd ev) = Inr obj \<longrightarrow>
        one_line (fst ev) \<and> one_line (CompositionID obj) \<and> one_line (butlast (snd ev))
        \<and> last (snd ev) = CHR 0x0A)"

fun watch_events :: "sse_input list \<Rightarrow> (string \<times> string) list" where
  "watch_events (WatchResp evs # inputs) = evs @ watch_events inputs"
| "watch_events _ = []"

definition frame_text :: "string \<Rightarrow> string \<Rightarrow> string \<Rightarrow> string" where
  "frame_text name key val =
     ''event: '' @ name @ newline @ ''id: '' @ key @ newline @ ''data: '' @ val @ newline @ newline"

lemma Write_200: "rw_Status w = Some 200 \<Longrightarrow> Write bs w = w\<lparr>rw_Body := rw_Body w @ bs\<rparr>"
  by (simp add: Write_def WriteHeader_def body_allowed_def Let_def)

definition event_text :: "(string \<Rightarrow> 'e + 'x event) \<Rightarrow> string \<times> string \<Rightarrow> string" where
  "event_text dec ev =
     (if snd ev = [] then []
      else case dec (snd ev) of
             Inl e \<Rightarrow> []
           | Inr obj \<Rightarrow> frame_text (if CompositionID obj = [] then ''krateo'' else CompositionID obj)
                          (fst ev) (snd ev))"

lemma sse_event_body:
  "rw_Status w = Some 200 \<Longrightarrow> sse_event dec ev w = w\<lparr>rw_Body := rw_Body w @ event_text dec ev\<rparr>"
  by (auto simp: sse_event_def Let_def event_text_def frame_text_def Write_200 split: sum.splits)

lemma sse_fold_body:
  "rw_Status w = Some 200 \<Longrightarrow>
     fold (sse_event dec) evs w = w\<lparr>rw_Body := rw_Body w @ concat (map (event_text dec) evs)\<rparr>"
  by (induction evs arbitrary: w) (simp_all add: sse_event_body)

lemma sse_loop_body:
  "rw_Status w = Some 200 \<Longrightarrow>
     sse_loop dec inputs w
       = w\<lparr>rw_Body := rw_Body w @ concat (map (event_text dec) (watch_events inputs))\<rparr>"
  by (induction inputs arbitrary: w rule: watch_events.induct) (simp_all add: sse_fold_body)

lemma butlast_Split_line:
  "one_line x \<Longrightarrow> butlast (strings_Split (CHR 0x0A) (x @ CHR 0x0A # s))
     = x # butlast (strings_Split (CHR 0x0A) s)"
  by (simp add: one_line_def Split_append_sep)

lemma butlast_Split_frame:
  assumes "one_line a" and "one_line b" and "one_line c"
  shows "butlast (strings_Split (CHR 0x0A) (a @ CHR 0x0A # b @ CHR 0x0A # c @ CHR 0x0A # CHR 0x0A # s))
     = a # b # c # [] # butlast (strings_Split (CHR 0x0A) s)"
  using assms by (simp add: butlast_Split_line)

lemma lines_frame:
  assumes "one_line name" and "one_line key" and "one_line b"
  shows "sse_lines (butlast (strings_Split (CHR 0x0A) (frame_text name key (b @ newline) @ s))) [] eid []
     = \<lparr>fr_event = name, fr_id = key, fr_data = [b]\<rparr>
       # sse_lines (butlast (strings_Split (CHR 0x0A) s)) [] key []"
proof -
  have lines: "one_line (''event: '' @ name)" "one_line (''id: '' @ key)" "one_line (''data: '' @ b)" "one_line []"
    using assms by (simp_all add: one_line_def)
  have "frame_text name key (b @ newline) @ s =
      (''event: '' @ name) @ CHR 0x0A # (''id: '' @ key) @ CHR 0x0A # (''data: '' @ b) @ CHR 0x0A
        # [] @ CHR 0x0A # [] @ CHR 0x0A # s"
    by (simp add: frame_text_def newline_def)
  then have "butlast (strings_Split (CHR 0x0A) (frame_text name key (b @ newline) @ s)) =
      (''event: '' @ name) # (''id: '' @ key) # (''data: '' @ b) # [] # []
        # butlast (strings_Split (CHR 0x0A) s)"
    using butlast_Split_line [OF lines(1)] butlast_Split_line [OF lines(2)]
      butlast_Split_line [OF lines(3)] butlast_Split_line [OF lines(4)]
    by (metis append_Nil)
  then show ?thesis by simp
qed

lemma lines_events:
  assumes "list_all (stream_ok dec) evs"
  shows "sse_lines (butlast (strings_Split (CHR 0x0A) (concat (map (event_text dec) evs)))) [] eid []
     = concat (map (frame_of dec) evs)"
  using assms
proof (induction evs arbitrary: eid)
  case Nil
  then show ?case by simp
next
  case (Cons ev evs)
  show ?case
  proof (cases "snd ev = [] \<or> \<not> is_ok (dec (snd ev))")
    case True
    then show ?thesis
      using Cons
      by (auto simp: event_text_def [of dec ev] frame_of_def [of dec ev] is_ok_def split: sum.splits)
  next
    case False
    then obtain obj where obj: "dec (snd ev) = Inr obj" by (auto simp: is_ok_def split: sum.splits)
    with False Cons.prems have ok: "one_line (fst ev)" "one_line (CompositionID obj)"
      "one_line (butlast (snd ev))" "snd ev = butlast (snd ev) @ newline"
      by (auto simp: stream_ok_def newline_def) (metis append_butlast_last_id)
    let ?name = "if CompositionID obj = [] then ''krateo'' else CompositionID obj"
    have "one_line ?name" using ok(2) by (simp add: one_line_def)
    from lines_frame [OF this ok(1,3), of "concat (map (event_text dec) evs)" eid]
    show ?thesis using False obj Cons
      by (simp add: event_text_def [of dec ev] frame_of_def [of dec ev] ok(4) [symmetric])
  qed
qed

lemma SSE_frames:
  assumes "rq_Method req \<noteq> ''OPTIONS''" and "list_all (stream_ok dec) (watch_events inputs)"
  shows "rw_Status (SSE_ServeHTTP dec True req inputs new_response) = Some 200
     \<and> tl (sse_parse (rw_Body (SSE_ServeHTTP dec True req inputs new_response)))
         = concat (map (frame_of dec) (watch_events inputs))
     \<and> fr_event (hd (sse_parse (rw_Body (SSE_ServeHTTP dec True req inputs new_response))))
         = ''connection-established''"
proof -
  let ?hello = "CHR ''{'' # CHR 0x22 # ''info'' @ CHR 0x22 # '': '' @ CHR 0x22 # ''Ready to watch events'' @ [CHR 0x22, CHR ''}'']"
  define rw1 where "rw1 = Header_Set ''X-Accel-Buffering'' ''no''
      (Header_Set ''Connection'' ''keep-alive''
        (Header_Set ''Cache-Control'' ''no-cache''
          (Header_Set ''Content-Type'' ''text/event-stream'' (setCORSHeaders new_response))))"
  let ?first = "''event: connection-established'' @ newline @ ''id: 88888888'' @ newline
    @ ''data: '' @ ?hello @ newline @ newline"
  have "rw_Status rw1 = None" "rw_Body rw1 = []"
    by (simp_all add: rw1_def setCORSHeaders_def Header_Set_def new_response_def)
  then have w: "rw_Status (sse_hello rw1) = Some 200" "rw_Body (sse_hello rw1) = ?first"
    by (simp_all add: sse_hello_def Write_def WriteHeader_def body_allowed_def Let_def)
  have "SSE_ServeHTTP dec True req inputs new_response = sse_loop dec inputs (sse_hello rw1)"
    using assms(1) by (simp add: SSE_ServeHTTP_def rw1_def)
  also have "\<dots> = (sse_hello rw1)\<lparr>rw_Body := ?first @ concat (map (event_text dec) (watch_events inputs))\<rparr>"
    using sse_loop_body [OF w(1)] w(2) by metis
  finally have s: "SSE_ServeHTTP dec True req inputs new_response
      = (sse_hello rw1)\<lparr>rw_Body := ?first @ concat (map (event_text dec) (watch_events inputs))\<rparr>" .
  have lines: "one_line ''event: connection-established''" "one_line ''id: 88888888''"
    "one_line (''data: '' @ ?hello)"
    by (simp_all add: one_line_def)
  have "sse_parse (?first @ rest) = \<lparr>fr_event = ''connection-established'', fr_id = ''88888888'', fr_data = [?hello]\<rparr>
      # sse_lines (butlast (strings_Split (CHR 0x0A) rest)) [] ''88888888'' []" for rest
  proof -
    have "?first @ rest = ''event: connection-established'' @ CHR 0x0A # ''id: 88888888'' @ CHR 0x0A
        # (''data: '' @ ?hello) @ CHR 0x0A # CHR 0x0A # rest"
      by (simp add: newline_def)
    then show ?thesis
      unfolding sse_parse_def by (simp only: butlast_Split_frame [OF lines]) simp
  qed
  then show ?thesis unfolding s by (simp add: w(1) lines_events [OF assms(2)])
qed

text \<open>
  C5. The stream carries the events. For a client that reads the response as an event stream, a request
  to a flushing writer yields the connection frame and then one frame per watch event with a value that
  decodes, in order, named after its composition (or \<open>krateo\<close>), with its key as id and the stored JSON as
  data; deletions and undecodable values leave no trace. This holds when no label or key contains a
  line break.
\<close>

theorem stream_carries_events:
  assumes "rq_Method req \<noteq> ''OPTIONS''" and "list_all (stream_ok dec) (watch_events inputs)"
  shows "rw_Status (SSE_ServeHTTP dec True req inputs new_response) = Some 200
     \<and> tl (sse_parse (rw_Body (SSE_ServeHTTP dec True req inputs new_response)))
         = concat (map (frame_of dec) (watch_events inputs))
     \<and> fr_event (hd (sse_parse (rw_Body (SSE_ServeHTTP dec True req inputs new_response))))
         = ''connection-established''"
  using SSE_frames [OF assms] .

theorem stream_carries_events_witness:
  "tl (sse_parse (rw_Body (SSE_ServeHTTP wit_dec True (wit_request [] [])
      [WatchResp [(''k1'', ''1'' @ newline), (''k2'', [])], WatchClosed] new_response)))
   = [\<lparr>fr_event = ''krateo'', fr_id = ''k1'', fr_data = [''1'']\<rparr>]"
proof -
  let ?i = "[WatchResp [(''k1'', ''1'' @ newline), (''k2'', [])], WatchClosed]"
  have "list_all (stream_ok wit_dec) (watch_events ?i)"
    by (simp add: stream_ok_def wit_dec_def newline_def one_line_def wit_event_def CompositionID_def GetLabels_def)
  moreover have "rq_Method (wit_request [] []) \<noteq> ''OPTIONS''" by (simp add: wit_request_def)
  ultimately show ?thesis
    using stream_carries_events [of "wit_request [] []" wit_dec ?i]
    by (simp add: frame_of_def wit_dec_def newline_def wit_event_def CompositionID_def GetLabels_def)
qed

end
