(* ===== verification/Router.thy ===== *)
theory Router
  imports Event "HOL-Library.AList"
begin

text \<open>
  The event router: \<open>eventrouter/internal/objects/objects.go\<close> and \<open>accept.go\<close> (resolving references
  and listing resources), \<open>internal/router/router.go\<close> (the informer's callbacks),
  \<open>handler.go\<close>, \<open>labels.go\<close> and \<open>advisor.go\<close> (from an event to the notifications).

  The Kubernetes client is not part of the repository. \<open>cluster\<close> is the record of the calls the
  program makes, over an abstract world \<open>'w\<close>; \<open>retry.OnError\<close>, \<open>NestedString\<close>, the JSON encoder and the
  HTTP client are arguments of the definitions that use them.
\<close>

section \<open>Resolving objects\<close>

record gvk =
  gvk_Group :: string
  gvk_Version :: string
  gvk_Kind :: string

datatype scope_name = RESTScopeNameRoot | RESTScopeNameNamespace

text \<open>A resource interface: the resource, and the namespace if it was narrowed to one.\<close>

type_synonym 'r resource_interface = "'r \<times> string option"

record ('w, 'e, 'r, 'o) cluster =
  k_RESTMapping :: "gvk \<Rightarrow> 'w \<Rightarrow> ('e + scope_name \<times> 'r) \<times> 'w"
  k_Get :: "'r resource_interface \<Rightarrow> string \<Rightarrow> 'w \<Rightarrow> ('e + 'o) \<times> 'w"
  k_List :: "'r resource_interface \<Rightarrow> 'w \<Rightarrow> ('e + 'o list) \<times> 'w"
  k_Patch :: "'r resource_interface \<Rightarrow> string \<Rightarrow> string \<Rightarrow> 'w \<Rightarrow> 'e option \<times> 'w"
  k_Invalidate :: "'w \<Rightarrow> 'w"
  k_IsNotFound :: "'e \<Rightarrow> bool"
  k_NoKindMatch :: "'e \<Rightarrow> bool"
  k_Labels :: "'o \<Rightarrow> label_map"
  k_Name :: "'o \<Rightarrow> string"

definition GroupVersionKind :: "object_reference \<Rightarrow> gvk" where
  "GroupVersionKind ref = \<lparr>gvk_Group = ref_Group ref, gvk_Version = ref_Version ref, gvk_Kind = ref_Kind ref\<rparr>"

definition getResourceInterfaceForGVR ::
  "('w, 'e, 'r, 'o) cluster \<Rightarrow> gvk \<Rightarrow> string \<Rightarrow> 'w \<Rightarrow> ('e + 'r resource_interface) \<times> 'w" where
  "getResourceInterfaceForGVR k gvk namespace w =
     (case k_RESTMapping k gvk w of
        (Inl err, w') \<Rightarrow> (Inl err, w')
      | (Inr (scope, r), w') \<Rightarrow>
          (Inr (if scope = RESTScopeNameRoot then (r, None) else (r, Some namespace)), w'))"

definition isNoKindMatchError :: "('w, 'e, 'r, 'o) cluster \<Rightarrow> 'e \<Rightarrow> bool" where
  "isNoKindMatchError k err = k_NoKindMatch k err"

definition resolver_List ::
  "('w, 'e, 'r, 'o) cluster \<Rightarrow> gvk \<Rightarrow> string \<Rightarrow> 'w \<Rightarrow> ('e + 'o list option) \<times> 'w" where
  "resolver_List k gvk ns w =
     (case getResourceInterfaceForGVR k gvk ns w of
        (Inl err, w1) \<Rightarrow> (if isNoKindMatchError k err then Inr None else Inl err, w1)
      | (Inr dri, w1) \<Rightarrow>
          (case k_List k dri w1 of
             (Inl err, w2) \<Rightarrow> (if k_IsNotFound k err then Inr None else Inl err, w2)
           | (Inr all, w2) \<Rightarrow> (Inr (Some all), w2)))"

definition ResolveReference ::
  "('w, 'e, 'r, 'o) cluster \<Rightarrow> object_reference \<Rightarrow> 'w \<Rightarrow> ('e + 'o option) \<times> 'w" where
  "ResolveReference k ref w =
     (case getResourceInterfaceForGVR k (GroupVersionKind ref) (ref_Namespace ref) w of
        (Inl err, w1) \<Rightarrow> (Inl err, w1)
      | (Inr dri, w1) \<Rightarrow>
          (case k_Get k dri (ref_Name ref) w1 of
             (Inl err, w2) \<Rightarrow> (if k_IsNotFound k err then Inr None else Inl err, w2)
           | (Inr obj, w2) \<Rightarrow> (Inr (Some obj), w2)))"

record PatchOpts =
  po_PatchData :: string
  po_GVK :: gvk
  po_Name :: string
  po_Namespace :: string

definition resolver_Patch :: "('w, 'e, 'r, 'o) cluster \<Rightarrow> PatchOpts \<Rightarrow> 'w \<Rightarrow> 'e option \<times> 'w" where
  "resolver_Patch k opts w =
     (case getResourceInterfaceForGVR k (po_GVK opts) (po_Namespace opts) w of
        (Inl err, w1) \<Rightarrow> (if isNoKindMatchError k err then None else Some err, w1)
      | (Inr dri, w1) \<Rightarrow>
          (case k_Patch k dri (po_Name opts) (po_PatchData opts) w1 of
             (Some err, w2) \<Rightarrow> (if \<not> k_IsNotFound k err then Some err else None, w2)
           | (None, w2) \<Rightarrow> (None, w2)))"

definition Accept :: "object_reference \<Rightarrow> bool" where
  "Accept ref =
     (let accept = [''.krateo.io''];
          apiGroup = gvk_Group (GroupVersionKind ref)
      in fold (\<lambda>el ok. ok \<or> strings_HasSuffix apiGroup el) accept True)"

section \<open>The composition of an event\<close>

text \<open>
  \<open>retry.OnError\<close>: the test on an error and the attempt are closures over the variables of
  \<open>findCompositionID\<close>, here the world, \<open>obj\<close> and \<open>err\<close>.
\<close>

type_synonym ('s, 'e) on_error =
  "('e \<Rightarrow> 's \<Rightarrow> bool \<times> 's) \<Rightarrow> ('s \<Rightarrow> 'e option \<times> 's) \<Rightarrow> 's \<Rightarrow> 'e option \<times> 's"

definition find_attempt ::
  "('w, 'e, 'r, 'o) cluster \<Rightarrow> object_reference \<Rightarrow> 'o option \<times> 'w \<Rightarrow> 'e option \<times> 'o option \<times> 'w" where
  "find_attempt k ref s =
     (case ResolveReference k ref (snd s) of
        (Inl err, w') \<Rightarrow> (Some err, None, w')
      | (Inr obj, w') \<Rightarrow> (None, obj, w'))"

definition find_retriable ::
  "('w, 'e, 'r, 'o) cluster \<Rightarrow> 'e \<Rightarrow> 'o option \<times> 'w \<Rightarrow> bool \<times> 'o option \<times> 'w" where
  "find_retriable k e s = (True, fst s, k_Invalidate k (snd s))"

definition findCompositionID ::
  "('o option \<times> 'w, 'e) on_error \<Rightarrow> ('w, 'e, 'r, 'o) cluster \<Rightarrow> object_reference \<Rightarrow> 'w \<Rightarrow> ('e + string) \<times> 'w" where
  "findCompositionID onError k ref w =
     (case onError (find_retriable k) (find_attempt k ref) (None, w) of
        (Some retryErr, obj, w') \<Rightarrow> (Inl retryErr, w')
      | (None, obj, w') \<Rightarrow>
          (case obj of
             None \<Rightarrow> (Inr [], w')
           | Some ob \<Rightarrow>
               (let labels = k_Labels k ob
                in if length labels = 0 then (Inr [], w')
                   else (Inr (map_index labels keyCompositionID), w'))))"

section \<open>Notifications\<close>

record RegistrationSpec =
  reg_ServiceName :: string
  reg_Endpoint :: string

record 'x advisor =
  adv_reg :: RegistrationSpec
  adv_evt :: "'x event"

datatype 'e notify_error =
    CannotEncode string string 'e
  | CannotCreate string string 'e
  | CannotSend string string 'e

text \<open>
  \<open>marshal\<close>, \<open>new_request\<close> and \<open>send\<close> are the JSON encoder, \<open>NewRequestWithContext\<close> with a POST of a body to
  a URL, and the client's \<open>Do\<close>, of which only the error is used.
\<close>

definition notify ::
  "('x event \<Rightarrow> 'e + string) \<Rightarrow> (string \<Rightarrow> string \<Rightarrow> 'e + 'req) \<Rightarrow> ('req \<Rightarrow> string \<times> string \<Rightarrow> 'req)
     \<Rightarrow> ('req \<Rightarrow> 'w \<Rightarrow> ('e + 'resp) \<times> 'w) \<Rightarrow> 'x advisor \<Rightarrow> 'w \<Rightarrow> 'e notify_error option \<times> 'w" where
  "notify marshal new_request set_header send c w =
     (let labels = GetLabels (adv_evt c);
          compositionId = (if 0 < length labels then map_index labels keyCompositionID else []);
          url = reg_Endpoint (adv_reg c)
      in case marshal (adv_evt c) of
           Inl err \<Rightarrow> (Some (CannotEncode compositionId url err), w)
         | Inr dat \<Rightarrow>
             (case new_request url dat of
                Inl err \<Rightarrow> (Some (CannotCreate compositionId url err), w)
              | Inr req \<Rightarrow>
                  (case send (set_header req (''Content-Type'', ''application/json'')) w of
                     (Inl err, w') \<Rightarrow> (Some (CannotSend compositionId url err), w')
                   | (Inr resp, w') \<Rightarrow> (None, w'))))"

definition registration_gvk :: gvk where
  "registration_gvk = \<lparr>gvk_Group = ''eventrouter.krateo.io'', gvk_Version = ''v1alpha1'', gvk_Kind = ''Registration''\<rparr>"

text \<open>\<open>nested\<close> is \<open>NestedString\<close>, the empty string when the field is missing.\<close>

fun collect_registrations ::
  "('o \<Rightarrow> string) \<Rightarrow> ('o \<Rightarrow> string list \<Rightarrow> 'e + string) \<Rightarrow> 'o list \<Rightarrow> (string \<times> RegistrationSpec) list
     \<Rightarrow> (string \<times> RegistrationSpec) list" where
  "collect_registrations name nested [] res = res"
| "collect_registrations name nested (el # items) res =
     (case nested el [''spec'', ''serviceName''] of
        Inl err \<Rightarrow> collect_registrations name nested items res
      | Inr serviceName \<Rightarrow>
          (case nested el [''spec'', ''endpoint''] of
             Inl err \<Rightarrow> collect_registrations name nested items res
           | Inr endpoint \<Rightarrow>
               collect_registrations name nested items
                 (AList.update (name el) \<lparr>reg_ServiceName = serviceName, reg_Endpoint = endpoint\<rparr> res)))"

definition getAllRegistrations ::
  "('w, 'e, 'r, 'o) cluster \<Rightarrow> ('o \<Rightarrow> string list \<Rightarrow> 'e + string) \<Rightarrow> 'w
     \<Rightarrow> ('e + (string \<times> RegistrationSpec) list) \<times> 'w" where
  "getAllRegistrations k nested w =
     (case resolver_List k registration_gvk [] w of
        (Inl err, w') \<Rightarrow> (Inl err, w')
      | (Inr None, w') \<Rightarrow> (Inr [], w')
      | (Inr (Some items), w') \<Rightarrow> (Inr (collect_registrations (k_Name k) nested items []), w'))"

text \<open>
  The jobs pushed to the queue, in order. \<open>order\<close> is the order in which the \<open>range\<close> over the map visits
  the entries, any permutation.
\<close>

definition notifyAll ::
  "((string \<times> RegistrationSpec) list \<Rightarrow> (string \<times> RegistrationSpec) list)
     \<Rightarrow> (string \<times> RegistrationSpec) list \<Rightarrow> 'x event \<Rightarrow> 'x advisor list" where
  "notifyAll order all evt = map (\<lambda>el. \<lparr>adv_reg = snd el, adv_evt = evt\<rparr>) (order all)"

definition Handle ::
  "('o option \<times> 'w, 'e) on_error \<Rightarrow> ('w, 'e, 'r, 'o) cluster \<Rightarrow> ('o \<Rightarrow> string list \<Rightarrow> 'e + string)
     \<Rightarrow> ((string \<times> RegistrationSpec) list \<Rightarrow> (string \<times> RegistrationSpec) list) \<Rightarrow> 'x event \<Rightarrow> 'w
     \<Rightarrow> 'x advisor list \<times> 'w" where
  "Handle onError k nested order evt w =
     (case findCompositionID onError k (ev_InvolvedObject evt) w of
        (Inl err, w1) \<Rightarrow> ([], w1)
      | (Inr compositionId, w1) \<Rightarrow>
          (case getAllRegistrations k nested w1 of
             (Inl err, w2) \<Rightarrow> ([], w2)
           | (Inr all, w2) \<Rightarrow>
               (let labels = map_put keyCompositionID compositionId (GetLabels evt)
                in (notifyAll order all (evt\<lparr>ev_Labels := labels\<rparr>), w2))))"

section \<open>The informer's callbacks\<close>

text \<open>\<open>handle\<close> is the handler; \<open>now\<close> the clock when the callback runs.\<close>

definition onEvent ::
  "('x event \<Rightarrow> 'w \<Rightarrow> 'j list \<times> 'w) \<Rightarrow> int \<Rightarrow> timestamp \<Rightarrow> 'x event \<Rightarrow> 'w \<Rightarrow> 'j list \<times> 'w" where
  "onEvent handle throttlePeriod now evt w =
     (if hasCompositionId evt then ([], w)
      else if 0 < throttlePeriod \<and> throttlePeriod < time_Since now (ev_LastTimestamp evt) then ([], w)
      else handle evt w)"

text \<open>An object from the informer; \<open>None\<close> is the panic of the type assertion.\<close>

datatype 'x informer_object = EventObject "'x event" | OtherObject

fun OnAdd ::
  "('x event \<Rightarrow> 'w \<Rightarrow> 'j list \<times> 'w) \<Rightarrow> int \<Rightarrow> timestamp \<Rightarrow> 'x informer_object \<Rightarrow> 'w \<Rightarrow> ('j list \<times> 'w) option" where
  "OnAdd handle period now (EventObject e) w = Some (onEvent handle period now e w)"
| "OnAdd handle period now OtherObject w = None"

fun OnUpdate ::
  "('x event \<Rightarrow> 'w \<Rightarrow> 'j list \<times> 'w) \<Rightarrow> int \<Rightarrow> timestamp \<Rightarrow> 'x informer_object \<Rightarrow> 'x informer_object \<Rightarrow> 'w
     \<Rightarrow> ('j list \<times> 'w) option" where
  "OnUpdate handle period now old (EventObject e) w = Some (onEvent handle period now e w)"
| "OnUpdate handle period now old OtherObject w = None"

fun OnDelete :: "bool \<Rightarrow> 'x informer_object \<Rightarrow> 'w \<Rightarrow> ('j list \<times> 'w) option" where
  "OnDelete verbose ob w =
     (if \<not> verbose then Some ([], w)
      else (case ob of EventObject e \<Rightarrow> Some ([], w) | OtherObject \<Rightarrow> None))"

section \<open>Lemmas\<close>

text \<open>The accept list is never consulted: the accumulator starts with \<open>True\<close>.\<close>

lemma Accept_always: "Accept ref"
  by (simp add: Accept_def)

text \<open>
  The documented behaviour of \<open>retry.OnError\<close> the program relies on: no error means that some attempt
  returned none and was the last thing done, an error means that some attempt returned it, and an
  attempt that succeeds at once is the only one.
\<close>

definition on_error_ok :: "('s, 'e) on_error \<Rightarrow> bool" where
  "on_error_ok onError \<longleftrightarrow>
     (\<forall>r f s s'. onError r f s = (None, s') \<longrightarrow> (\<exists>s0. f s0 = (None, s')))
     \<and> (\<forall>r f s e s'. onError r f s = (Some e, s') \<longrightarrow> (\<exists>s0. fst (f s0) = Some e))
     \<and> (\<forall>r f s s'. f s = (None, s') \<longrightarrow> onError r f s = (None, s'))"

text \<open>An instance: at most \<open>n + 1\<close> attempts.\<close>

definition retry_step :: "('e \<Rightarrow> 's \<Rightarrow> bool \<times> 's) \<Rightarrow> ('s \<Rightarrow> 'e option \<times> 's) \<Rightarrow> ('s \<Rightarrow> 'e option \<times> 's) \<Rightarrow> 's \<Rightarrow> 'e option \<times> 's" where
  "retry_step r f again s =
     (case f s of
        (None, s1) \<Rightarrow> (None, s1)
      | (Some e, s1) \<Rightarrow> (case r e s1 of (False, s2) \<Rightarrow> (Some e, s2) | (True, s2) \<Rightarrow> again s2))"

fun retry_times :: "nat \<Rightarrow> ('s, 'e) on_error" where
  "retry_times 0 r f s = (case f s of (None, s1) \<Rightarrow> (None, s1) | (Some e, s1) \<Rightarrow> (Some e, snd (r e s1)))"
| "retry_times (Suc n) r f s = retry_step r f (retry_times n r f) s"

lemma retry_step_None:
  assumes "retry_step r f again s = (None, s')" and "\<And>s. again s = (None, s') \<Longrightarrow> \<exists>s0. f s0 = (None, s')"
  shows "\<exists>s0. f s0 = (None, s')"
  using assms by (fastforce simp: retry_step_def split: prod.splits option.splits bool.splits)

lemma retry_step_Some:
  assumes "retry_step r f again s = (Some e, s')" and "\<And>s. again s = (Some e, s') \<Longrightarrow> \<exists>s0. fst (f s0) = Some e"
  shows "\<exists>s0. fst (f s0) = Some e"
  using assms by (cases "f s") (auto simp: retry_step_def split: prod.splits option.splits bool.splits, metis fst_conv)

lemma retry_times_None: "retry_times n r f s = (None, s') \<Longrightarrow> \<exists>s0. f s0 = (None, s')"
proof (induction n arbitrary: s)
  case 0
  then show ?case by (auto split: prod.splits option.splits)
next
  case (Suc n)
  then show ?case by (simp, elim retry_step_None) blast
qed

lemma retry_times_Some: "retry_times n r f s = (Some e, s') \<Longrightarrow> \<exists>s0. fst (f s0) = Some e"
proof (induction n arbitrary: s)
  case 0
  then show ?case by (intro exI [of _ s]) (auto split: prod.splits option.splits)
next
  case (Suc n)
  then show ?case by (simp, elim retry_step_Some) blast
qed

lemma retry_times_first: "f s = (None, s') \<Longrightarrow> retry_times n r f s = (None, s')"
  by (cases n) (simp_all add: retry_step_def)

lemma retry_times_ok: "on_error_ok (retry_times n)"
  unfolding on_error_ok_def
  by (intro conjI allI impI) (erule retry_times_None, erule retry_times_Some, erule retry_times_first)

definition object_composition :: "('w, 'e, 'r, 'o) cluster \<Rightarrow> 'o option \<Rightarrow> string" where
  "object_composition k ob = (case ob of None \<Rightarrow> [] | Some x \<Rightarrow> map_index (k_Labels k x) keyCompositionID)"

lemma findCompositionID_result:
  assumes "on_error_ok onError" and "findCompositionID onError k ref w = (Inr cid, w')"
  shows "\<exists>w0 ob. ResolveReference k ref w0 = (Inr ob, w') \<and> cid = object_composition k ob"
proof -
  obtain ob where r: "onError (find_retriable k) (find_attempt k ref) (None, w) = (None, ob, w')"
    and cid: "cid = object_composition k ob"
    using assms(2)
    by (auto simp: findCompositionID_def Let_def object_composition_def map_index_def
        split: prod.splits option.splits if_splits)
  obtain s0 where "find_attempt k ref s0 = (None, ob, w')"
    using assms(1) r unfolding on_error_ok_def by blast
  then have "ResolveReference k ref (snd s0) = (Inr ob, w')"
    by (auto simp: find_attempt_def split: prod.splits sum.splits)
  with cid show ?thesis by blast
qed

lemma findCompositionID_first:
  assumes "on_error_ok onError" and "ResolveReference k ref w = (Inr ob, w')"
  shows "findCompositionID onError k ref w = (Inr (object_composition k ob), w')"
proof -
  have "find_attempt k ref (None, w) = (None, ob, w')" using assms(2) by (simp add: find_attempt_def)
  then have "onError (find_retriable k) (find_attempt k ref) (None, w) = (None, ob, w')"
    using assms(1) unfolding on_error_ok_def by blast
  then show ?thesis
    by (auto simp: findCompositionID_def object_composition_def Let_def map_index_def split: option.splits)
qed

text \<open>The registrations both of whose fields can be read.\<close>

definition readable_spec :: "('o \<Rightarrow> string list \<Rightarrow> 'e + string) \<Rightarrow> 'o \<Rightarrow> RegistrationSpec option" where
  "readable_spec nested el =
     (case (nested el [''spec'', ''serviceName''], nested el [''spec'', ''endpoint'']) of
        (Inr s, Inr e) \<Rightarrow> Some \<lparr>reg_ServiceName = s, reg_Endpoint = e\<rparr>
      | _ \<Rightarrow> None)"

lemma update_new: "k \<notin> fst ` set al \<Longrightarrow> AList.update k v al = al @ [(k, v)]"
  by (induction al) auto

lemma collect_registrations_specs:
  assumes "distinct (map name items)" and "fst ` set res \<inter> name ` set items = {}"
  shows "map snd (collect_registrations name nested items res)
     = map snd res @ List.map_filter (readable_spec nested) items"
  using assms
proof (induction items arbitrary: res)
  case Nil
  then show ?case by (simp add: List.map_filter_simps)
next
  case (Cons el items)
  show ?case
  proof (cases "readable_spec nested el")
    case None
    then show ?thesis
      using Cons by (auto simp: readable_spec_def List.map_filter_simps split: sum.splits)
  next
    case (Some spec)
    then have eq: "collect_registrations name nested (el # items) res
        = collect_registrations name nested items (res @ [(name el, spec)])"
      using Cons.prems by (auto simp: readable_spec_def update_new split: sum.splits)
    show ?thesis
      unfolding eq using Cons Some by (subst Cons.IH) (auto simp: List.map_filter_simps)
  qed
qed

lemma getAllRegistrations_specs:
  assumes "resolver_List k registration_gvk [] w = (Inr (Some items), w')"
    and "distinct (map (k_Name k) items)"
  shows "\<exists>all. getAllRegistrations k nested w = (Inr all, w')
     \<and> map snd all = List.map_filter (readable_spec nested) items"
  using assms collect_registrations_specs [OF assms(2), of "[]" nested]
  by (simp add: getAllRegistrations_def)

section \<open>What the router does\<close>

text \<open>
  From an event to the jobs: when the involved object is found (or found absent) at once and the
  registrations are listed, the handler pushes one job per registration whose fields can be read, and
  no other; the event of each job is the one received with the object's composition id in its
  label, every other label and field as it was.
\<close>

theorem Handle_notifies_every_registration:
  assumes "on_error_ok onError" and order: "mset (order all) = mset all"
    and "ResolveReference k (ev_InvolvedObject evt) w = (Inr ob, w1)"
    and "resolver_List k registration_gvk [] w1 = (Inr (Some items), w2)"
    and "distinct (map (k_Name k) items)"
    and all: "getAllRegistrations k nested w1 = (Inr all, w2)"
  shows "\<exists>jobs. Handle onError k nested order evt w = (jobs, w2)
     \<and> mset (map adv_reg jobs) = mset (List.map_filter (readable_spec nested) items)
     \<and> (\<forall>job \<in> set jobs. adv_evt job = evt\<lparr>ev_Labels := ev_Labels (adv_evt job)\<rparr>
          \<and> map_of (ev_Labels (adv_evt job)) = (map_of (ev_Labels evt))(keyCompositionID \<mapsto> object_composition k ob))"
proof -
  let ?evt = "evt\<lparr>ev_Labels := map_put keyCompositionID (object_composition k ob) (GetLabels evt)\<rparr>"
  have "Handle onError k nested order evt w = (notifyAll order all ?evt, w2)"
    using findCompositionID_first [OF assms(1,3)] all by (simp add: Handle_def)
  moreover have "mset (map adv_reg (notifyAll order all ?evt)) = mset (map snd all)"
  proof -
    have "map adv_reg (notifyAll order all ?evt) = map snd (order all)"
      by (simp add: notifyAll_def comp_def)
    then show ?thesis using order by (metis mset_map)
  qed
  moreover have "map snd all = List.map_filter (readable_spec nested) items"
    using getAllRegistrations_specs [OF assms(4,5), of nested] all by auto
  ultimately show ?thesis
    by (intro exI [of _ "notifyAll order all ?evt"]) (auto simp: notifyAll_def GetLabels_def)
qed

text \<open>A cluster with two registrations, the second of which cannot be read, and no other object.\<close>

definition wit_cluster :: "(nat, string, string, string) cluster" where
  "wit_cluster =
     \<lparr>k_RESTMapping = (\<lambda>g w. (Inr (RESTScopeNameRoot, gvk_Kind g), w)),
      k_Get = (\<lambda>dri name w. (Inl ''NotFound'', w)),
      k_List = (\<lambda>dri w. (Inr [''one'', ''two''], w)),
      k_Patch = (\<lambda>dri name dat w. (None, w)),
      k_Invalidate = (\<lambda>w. w + 1),
      k_IsNotFound = (\<lambda>e. e = ''NotFound''),
      k_NoKindMatch = (\<lambda>e. False),
      k_Labels = (\<lambda>ob. []), k_Name = (\<lambda>ob. ob)\<rparr>"

definition wit_nested :: "string \<Rightarrow> string list \<Rightarrow> string + string" where
  "wit_nested ob path = (if ob = ''one'' then Inr ''http://one'' else Inl ''wrong type'')"

definition wit_evt :: "unit event" where
  "wit_evt =
     \<lparr>ev_UID = ''uid'', ev_Labels = [(''a'', ''b'')], ev_LastTimestamp = time_zero,
      ev_InvolvedObject = \<lparr>ref_Group = '''', ref_Version = ''v1'', ref_Kind = ''Pod'', ref_Name = ''p'',
                           ref_Namespace = ''default''\<rparr>, ev_rest = ()\<rparr>"

lemma wit_cluster_facts:
  "ResolveReference wit_cluster (ev_InvolvedObject wit_evt) 0 = (Inr None, 0)"
  "resolver_List wit_cluster registration_gvk [] 0 = (Inr (Some [''one'', ''two'']), 0)"
  "distinct (map (k_Name wit_cluster) [''one'', ''two''])"
  "getAllRegistrations wit_cluster wit_nested 0
     = (Inr [(''one'', \<lparr>reg_ServiceName = ''http://one'', reg_Endpoint = ''http://one''\<rparr>)], 0)"
  by (simp_all add: ResolveReference_def resolver_List_def getResourceInterfaceForGVR_def wit_cluster_def
      getAllRegistrations_def wit_nested_def registration_gvk_def isNoKindMatchError_def)

theorem Handle_notifies_every_registration_witness:
  "\<exists>jobs. Handle (retry_times 4) wit_cluster wit_nested rev wit_evt 0 = (jobs, 0)
     \<and> mset (map adv_reg jobs) = {#\<lparr>reg_ServiceName = ''http://one'', reg_Endpoint = ''http://one''\<rparr>#}"
proof -
  have specs: "List.map_filter (readable_spec wit_nested) [''one'', ''two'']
      = [\<lparr>reg_ServiceName = ''http://one'', reg_Endpoint = ''http://one''\<rparr>]"
    by (simp add: List.map_filter_simps readable_spec_def wit_nested_def)
  show ?thesis
    using Handle_notifies_every_registration [OF retry_times_ok _ wit_cluster_facts, of rev 4, unfolded specs]
    by auto
qed


text \<open>
  Throttling: an event without a composition id is handled exactly when its last timestamp is at
  most the throttle period old, on adding and on updating, although the difference of times saturates.
  With no period set it is always handled.
\<close>

theorem throttle_is_exact:
  assumes "\<not> hasCompositionId e" and "period < duration_max"
  shows "OnAdd handle period now (EventObject e) w
      = Some (if period \<le> 0 \<or> nanos now - nanos (ev_LastTimestamp e) \<le> period then handle e w else ([], w))
    \<and> OnUpdate handle period now old (EventObject e) w = OnAdd handle period now (EventObject e) w"
  using assms by (auto simp: onEvent_def time_Since_def duration_max_def duration_min_def)

lemma not_hasCompositionId_wit [simp]: "\<not> hasCompositionId wit_evt"
  by (simp add: hasCompositionId_def wit_evt_def GetLabels_def Let_def keyCompositionID_def)

text \<open>
  At a concrete input: an event whose last timestamp is the zero time, as the events recorded with an
  \<open>eventTime\<close> only have it, is dropped by any router that throttles, at any time after the year 293.
\<close>

theorem throttle_is_exact_witness:
  "OnAdd (\<lambda>e w. ([e], w)) (300 * 10 ^ 9) (Timestamp (2 * duration_max)) (EventObject wit_evt) () = Some ([], ())
   \<and> OnAdd (\<lambda>e w. ([e], w)) 0 (Timestamp (2 * duration_max)) (EventObject wit_evt) () = Some ([wit_evt], ())"
proof -
  have ts: "ev_LastTimestamp wit_evt = Timestamp 0" by (simp add: wit_evt_def time_zero_def)
  show ?thesis
    using throttle_is_exact [OF not_hasCompositionId_wit, of "300 * 10 ^ 9" "\<lambda>e w. ([e], w)" "Timestamp (2 * duration_max)" "()"]
      throttle_is_exact [OF not_hasCompositionId_wit, of 0 "\<lambda>e w. ([e], w)" "Timestamp (2 * duration_max)" "()"]
    by (simp add: ts duration_max_def)
qed

text \<open>
  An object that cannot be resolved pushes no notification, whatever the registrations; an object
  that is found absent still notifies every registration, with an empty composition id in the label.
\<close>

theorem unresolved_object_is_not_notified:
  assumes "on_error_ok onError"
  shows "((\<forall>w. isl (fst (ResolveReference k (ev_InvolvedObject evt) w)))
            \<longrightarrow> fst (Handle onError k nested order evt w) = [])
       \<and> (\<forall>w1 all w2. ResolveReference k (ev_InvolvedObject evt) w = (Inr None, w1)
            \<longrightarrow> getAllRegistrations k nested w1 = (Inr all, w2)
            \<longrightarrow> fst (Handle onError k nested order evt w)
                = notifyAll order all (evt\<lparr>ev_Labels := map_put keyCompositionID [] (GetLabels evt)\<rparr>))"
proof (intro conjI allI impI)
  assume fail: "\<forall>w. isl (fst (ResolveReference k (ev_InvolvedObject evt) w))"
  have "\<nexists>cid w'. findCompositionID onError k (ev_InvolvedObject evt) w = (Inr cid, w')"
    using findCompositionID_result [OF assms] fail by (metis fst_conv sum.disc(2))
  then obtain err w1 where "findCompositionID onError k (ev_InvolvedObject evt) w = (Inl err, w1)"
    by (metis old.sum.exhaust surj_pair)
  then show "fst (Handle onError k nested order evt w) = []" by (simp add: Handle_def)
next
  fix w1 all w2
  assume "ResolveReference k (ev_InvolvedObject evt) w = (Inr None, w1)"
    and all: "getAllRegistrations k nested w1 = (Inr all, w2)"
  from findCompositionID_first [OF assms this(1)]
  show "fst (Handle onError k nested order evt w)
      = notifyAll order all (evt\<lparr>ev_Labels := map_put keyCompositionID [] (GetLabels evt)\<rparr>)"
    using all by (simp add: Handle_def object_composition_def)
qed

theorem unresolved_object_is_not_notified_witness:
  "fst (Handle (retry_times 4) wit_cluster wit_nested rev wit_evt 0)
     = [\<lparr>adv_reg = \<lparr>reg_ServiceName = ''http://one'', reg_Endpoint = ''http://one''\<rparr>,
         adv_evt = wit_evt\<lparr>ev_Labels := map_put keyCompositionID [] (GetLabels wit_evt)\<rparr>\<rparr>]"
  using unresolved_object_is_not_notified [OF retry_times_ok, where k = wit_cluster and evt = wit_evt
      and nested = wit_nested and order = rev and w = 0]
    wit_cluster_facts by (simp add: notifyAll_def)

section \<open>Running the jobs\<close>

text \<open>\<open>Job\<close> logs the error of \<open>notify\<close> and drops it. The request of a job, when it can be built.\<close>

definition advisor_Job ::
  "('x event \<Rightarrow> 'e + string) \<Rightarrow> (string \<Rightarrow> string \<Rightarrow> 'e + 'req) \<Rightarrow> ('req \<Rightarrow> string \<times> string \<Rightarrow> 'req)
     \<Rightarrow> ('req \<Rightarrow> 'w \<Rightarrow> ('e + 'resp) \<times> 'w) \<Rightarrow> 'x advisor \<Rightarrow> 'w \<Rightarrow> 'w" where
  "advisor_Job marshal new_request set_header send c w =
     (let (err, w') = notify marshal new_request set_header send c w in w')"

definition notification ::
  "('x event \<Rightarrow> 'e + string) \<Rightarrow> (string \<Rightarrow> string \<Rightarrow> 'e + 'req) \<Rightarrow> ('req \<Rightarrow> string \<times> string \<Rightarrow> 'req)
     \<Rightarrow> 'x advisor \<Rightarrow> 'req option" where
  "notification marshal new_request set_header c =
     (case marshal (adv_evt c) of
        Inl err \<Rightarrow> None
      | Inr dat \<Rightarrow> (case new_request (reg_Endpoint (adv_reg c)) dat of
                     Inl err \<Rightarrow> None
                   | Inr req \<Rightarrow> Some (set_header req (''Content-Type'', ''application/json''))))"

lemma advisor_Job_sent:
  assumes "\<And>req v. sent (snd (send req v)) = sent v @ [req]"
  shows "sent (advisor_Job marshal new_request set_header send c v)
      = sent v @ (case notification marshal new_request set_header c of None \<Rightarrow> [] | Some req \<Rightarrow> [req])"
  using assms
  by (auto simp: advisor_Job_def notify_def notification_def Let_def split: sum.splits prod.splits)
    (metis snd_conv)+

lemma advisor_Jobs_sent:
  assumes "\<And>req v. sent (snd (send req v)) = sent v @ [req]"
  shows "sent (fold (advisor_Job marshal new_request set_header send) jobs v)
      = sent v @ List.map_filter (notification marshal new_request set_header) jobs"
  by (induction jobs arbitrary: v)
    (simp_all add: advisor_Job_sent [where sent = sent, OF assms] List.map_filter_simps split: option.splits)

lemma map_filter_map: "List.map_filter f (map g xs) = List.map_filter (f \<circ> g) xs"
  by (simp add: List.map_filter_def filter_map comp_def)

lemma mset_map_filter: "mset xs = mset ys \<Longrightarrow> mset (List.map_filter f xs) = mset (List.map_filter f ys)"
  by (simp only: List.map_filter_def mset_map mset_filter)

text \<open>The jobs of an event, up to the order in which the map of registrations is walked.\<close>

definition labelled :: "('w, 'e, 'r, 'o) cluster \<Rightarrow> 'o option \<Rightarrow> 'x event \<Rightarrow> 'x event" where
  "labelled k ob evt = evt\<lparr>ev_Labels := map_put keyCompositionID (object_composition k ob) (GetLabels evt)\<rparr>"

lemma Handle_jobs:
  assumes "on_error_ok onError" and order: "\<And>all. mset (order all) = mset all"
    and "ResolveReference k (ev_InvolvedObject evt) w = (Inr ob, w1)"
    and "resolver_List k registration_gvk [] w1 = (Inr (Some items), w2)"
    and "distinct (map (k_Name k) items)"
  shows "mset (fst (Handle onError k nested order evt w))
     = mset (map (\<lambda>spec. \<lparr>adv_reg = spec, adv_evt = labelled k ob evt\<rparr>) (List.map_filter (readable_spec nested) items))"
proof -
  obtain all where all: "getAllRegistrations k nested w1 = (Inr all, w2)"
    and specs: "map snd all = List.map_filter (readable_spec nested) items"
    using getAllRegistrations_specs [OF assms(4,5)] by blast
  have "fst (Handle onError k nested order evt w)
      = map (\<lambda>el. \<lparr>adv_reg = snd el, adv_evt = labelled k ob evt\<rparr>) (order all)"
    using findCompositionID_first [OF assms(1,3)] all by (simp add: Handle_def notifyAll_def labelled_def)
  then show ?thesis by (simp add: order specs [symmetric] image_mset.compositionality comp_def)
qed

text \<open>
  From an event to the wire: running the jobs of an event, in whatever order, posts its JSON with the
  composition id of the involved object to the endpoint of every registration that can be read,
  once each, although any of the posts may fail. \<open>sent\<close> reads the requests made from the world.
\<close>

theorem every_registration_is_posted:
  assumes "on_error_ok onError" and order: "\<And>all. mset (order all) = mset all"
    and "ResolveReference k (ev_InvolvedObject evt) w = (Inr ob, w1)"
    and "resolver_List k registration_gvk [] w1 = (Inr (Some items), w2)"
    and "distinct (map (k_Name k) items)"
    and sent: "\<And>req v. sent (snd (send req v)) = sent v @ [req]"
    and "Handle onError k nested order evt w = (jobs, w')" and "mset jobs' = mset jobs"
  shows "mset (sent (fold (advisor_Job marshal new_request set_header send) jobs' v))
     = mset (sent v)
       + mset (List.map_filter
           (\<lambda>spec. notification marshal new_request set_header
              \<lparr>adv_reg = spec,
               adv_evt = evt\<lparr>ev_Labels := map_put keyCompositionID (object_composition k ob) (GetLabels evt)\<rparr>\<rparr>)
           (List.map_filter (readable_spec nested) items))"
proof -
  have "mset jobs' = mset (map (\<lambda>spec. \<lparr>adv_reg = spec, adv_evt = labelled k ob evt\<rparr>)
      (List.map_filter (readable_spec nested) items))"
    using Handle_jobs [OF assms(1) order assms(3-5), of nested] assms(7,8) by simp
  from mset_map_filter [OF this] show ?thesis
    unfolding advisor_Jobs_sent [where sent = sent, OF sent] by (simp add: map_filter_map labelled_def comp_def)
qed

text \<open>At a concrete input: the transport records the request and fails every time.\<close>

theorem every_registration_is_posted_witness:
  "\<exists>jobs. Handle (retry_times 4) wit_cluster wit_nested rev wit_evt 0 = (jobs, 0)
     \<and> mset (fold (advisor_Job (\<lambda>e. Inr (ev_UID e)) (\<lambda>url dat. Inr (url, dat, [])) (\<lambda>(url, dat, hs) h. (url, dat, h # hs))
               (\<lambda>req v. (Inl ''refused'' :: string + unit, v @ [req]))) jobs [])
         = {#(''http://one'', ''uid'', [(''Content-Type'', ''application/json'')])#}"
proof -
  have specs: "List.map_filter (readable_spec wit_nested) [''one'', ''two'']
      = [\<lparr>reg_ServiceName = ''http://one'', reg_Endpoint = ''http://one''\<rparr>]"
    by (simp add: List.map_filter_simps readable_spec_def wit_nested_def)
  have w: "snd (Handle (retry_times 4) wit_cluster wit_nested rev wit_evt 0) = 0"
    using findCompositionID_first [OF retry_times_ok wit_cluster_facts(1)] wit_cluster_facts(4)
    by (simp add: Handle_def)
  then obtain jobs where jobs: "Handle (retry_times 4) wit_cluster wit_nested rev wit_evt 0 = (jobs, 0)"
    by (metis prod.collapse)
  show ?thesis
    using every_registration_is_posted [OF retry_times_ok _ wit_cluster_facts(1-3) _ jobs refl,
        where sent = "\<lambda>v. v" and v = "[]" and marshal = "\<lambda>e. Inr (ev_UID e)"
          and new_request = "\<lambda>url dat. Inr (url, dat, [])"
          and set_header = "\<lambda>(url, dat, hs) h. (url, dat, h # hs)"
          and send = "\<lambda>req v. (Inl ''refused'' :: string + unit, v @ [req])", unfolded specs]
      jobs
    by (simp add: notification_def List.map_filter_simps wit_evt_def)
qed

text \<open>
  What the router forwards is never forwarded again: an event it labelled with a composition id is
  skipped by the callbacks of any router that sees it later.
\<close>

theorem forwarded_events_are_final:
  assumes "on_error_ok onError" and "ResolveReference k (ev_InvolvedObject evt) w = (Inr (Some ob), w1)"
    and "map_index (k_Labels k ob) keyCompositionID \<noteq> []"
    and "Handle onError k nested order evt w = (jobs, w')" and "job \<in> set jobs"
  shows "OnAdd handle period now (EventObject (adv_evt job)) v = Some ([], v)
       \<and> OnUpdate handle period now old (EventObject (adv_evt job)) v = Some ([], v)"
proof -
  have "CompositionID (adv_evt job) = map_index (k_Labels k ob) keyCompositionID"
    using assms(4,5) findCompositionID_first [OF assms(1,2)]
    by (auto simp: Handle_def notifyAll_def CompositionID_index object_composition_def Let_def
        split: sum.splits prod.splits)
  with assms(3) show ?thesis by (simp add: onEvent_def hasCompositionId_iff)
qed

text \<open>At a concrete input: the object carries the label.\<close>

definition wit_labelled :: "(nat, string, string, string) cluster" where
  "wit_labelled = wit_cluster\<lparr>k_Get := (\<lambda>dri name w. (Inr name, w)), k_Labels := (\<lambda>ob. [(keyCompositionID, ''c'')])\<rparr>"

theorem forwarded_events_are_final_witness:
  "\<exists>job. fst (Handle (retry_times 4) wit_labelled wit_nested rev wit_evt 0) = [job]
     \<and> OnAdd (\<lambda>e w. ([e], w)) 0 time_zero (EventObject (adv_evt job)) (1::nat) = Some ([], 1)"
proof -
  have r: "ResolveReference wit_labelled (ev_InvolvedObject wit_evt) 0 = (Inr (Some ''p''), 0)"
    by (simp add: ResolveReference_def getResourceInterfaceForGVR_def wit_labelled_def wit_cluster_def wit_evt_def)
  have l: "map_index (k_Labels wit_labelled ''p'') keyCompositionID = ''c''"
    by (simp add: wit_labelled_def map_index_def)
  have all: "getAllRegistrations wit_labelled wit_nested 0
     = (Inr [(''one'', \<lparr>reg_ServiceName = ''http://one'', reg_Endpoint = ''http://one''\<rparr>)], 0)"
    by (simp add: resolver_List_def getResourceInterfaceForGVR_def wit_labelled_def wit_cluster_def
      getAllRegistrations_def wit_nested_def registration_gvk_def isNoKindMatchError_def)
  obtain job where h: "Handle (retry_times 4) wit_labelled wit_nested rev wit_evt 0 = ([job], 0)"
    using findCompositionID_first [OF retry_times_ok r] all by (simp add: Handle_def notifyAll_def)
  show ?thesis
    using forwarded_events_are_final [OF retry_times_ok r _ h, of job "\<lambda>e w. ([e], w)" 0 time_zero "1::nat"] l h
    by simp
qed

end
