(* ===== verification/Isaac64.thy ===== *)
theory Isaac64
  imports Prelude "HOL-Library.Monad_Syntax"
begin

text \<open>
  The ISAAC-64 generator of \<open>eventrouter/internal/helpers/uuid/isaac64.go\<close>: seeding, the unrolled
  shuffle, and the numbers it hands out. \<open>uint64\<close> is \<open>64 word\<close>, whose addition and multiplication
  wrap; the arrays are lists of 256 words, read and written with the bounds checks of Go, so an operation
  is \<open>None\<close> where the code panics. \<open>well_sized\<close> with \<open>i \<le> 256\<close> is the invariant under which none does.
\<close>

unbundle bit_operations_syntax

section \<open>The generator\<close>

type_synonym uint64 = "64 word"

record Rand =
  r_out :: "uint64 list"
  r_buf :: "uint64 list"
  r_a :: uint64
  r_b :: uint64
  r_c :: uint64
  r_i :: nat

definition NewISAAC64 :: Rand where
  "NewISAAC64 =
     \<lparr>r_out = replicate 256 0, r_buf = replicate 256 0, r_a = 0, r_b = 0, r_c = 0, r_i = 256\<rparr>"

text \<open>One of the four blocks of the loop of \<open>shuffle\<close>; they differ in the mixing of \<open>a\<close>.\<close>

definition shuffle_block :: "(uint64 \<Rightarrow> uint64) \<Rightarrow> nat \<Rightarrow> Rand \<Rightarrow> Rand option" where
  "shuffle_block mix i r = do {
     x \<leftarrow> read_at (r_buf r) i;
     opposite \<leftarrow> read_at (r_buf r) ((i + 128) AND 255);
     let a = mix (r_a r) + opposite;
     v \<leftarrow> read_at (r_buf r) (unat (drop_bit 3 x AND 255));
     buf \<leftarrow> write_at (r_buf r) i (v + a + r_b r);
     y \<leftarrow> read_at buf i;
     w \<leftarrow> read_at buf (unat (drop_bit 11 y AND 255));
     let b = w + x;
     out \<leftarrow> write_at (r_out r) i b;
     Some (r\<lparr>r_out := out, r_buf := buf, r_a := a, r_b := b\<rparr>)
   }"

definition mix0 :: "uint64 \<Rightarrow> uint64" where "mix0 a = NOT a XOR push_bit 21 a"
definition mix1 :: "uint64 \<Rightarrow> uint64" where "mix1 a = a XOR drop_bit 5 a"
definition mix2 :: "uint64 \<Rightarrow> uint64" where "mix2 a = a XOR push_bit 12 a"
definition mix3 :: "uint64 \<Rightarrow> uint64" where "mix3 a = a XOR drop_bit 33 a"

definition shuffle_body :: "nat \<Rightarrow> Rand \<Rightarrow> Rand option" where
  "shuffle_body i r = do {
     r \<leftarrow> shuffle_block mix0 (i + 0) r;
     r \<leftarrow> shuffle_block mix1 (i + 1) r;
     r \<leftarrow> shuffle_block mix2 (i + 2) r;
     shuffle_block mix3 (i + 3) r
   }"

function shuffle_loop :: "nat \<Rightarrow> Rand \<Rightarrow> Rand option" where
  "shuffle_loop i r =
     (if i < 256 then Option.bind (shuffle_body i r) (\<lambda>r. shuffle_loop (i + 4) r) else Some r)"
  by pat_completeness auto
termination by (relation "measure (\<lambda>(i, r). 256 - i)") auto

declare shuffle_loop.simps [simp del]

definition shuffle :: "Rand \<Rightarrow> Rand option" where
  "shuffle r = do {
     let c = r_c r + 1;
     let b = r_b r + c;
     r \<leftarrow> shuffle_loop 0 (r\<lparr>r_c := c, r_b := b\<rparr>);
     Some (r\<lparr>r_i := 0\<rparr>)
   }"

section \<open>Seeding\<close>

text \<open>SplitMix64, from a state to the next state and the output.\<close>

definition splitmix :: "uint64 \<Rightarrow> uint64 \<times> uint64" where
  "splitmix s =
     (let s = s + 0x9e3779b97f4a7c15;
          z = s;
          z = z XOR drop_bit 30 z;
          z = z * 0xbf58476d1ce4e5b9;
          z = z XOR drop_bit 27 z;
          z = z * 0x94d049bb133111eb;
          z = z XOR drop_bit 31 z
      in (s, z))"

fun seed_loop :: "nat list \<Rightarrow> uint64 \<Rightarrow> uint64 list \<Rightarrow> uint64 list option" where
  "seed_loop [] s buf = Some buf"
| "seed_loop (i # is) s buf = (let (s, z) = splitmix s in Option.bind (write_at buf i z) (seed_loop is s))"

definition Seed :: "64 word \<Rightarrow> Rand \<Rightarrow> Rand option" where
  "Seed seed r = do {
     let s = seed;
     buf \<leftarrow> seed_loop [0..<256] s (r_buf r);
     shuffle (r\<lparr>r_buf := buf, r_a := 0, r_b := 0, r_c := 0\<rparr>)
   }"

text \<open>
  \<open>binary.LittleEndian\<close>: \<open>Uint64\<close> of the first eight bytes, which panics when there are fewer, and
  \<open>PutUint64\<close>.
\<close>

definition le_Uint64 :: "byte list \<Rightarrow> uint64" where
  "le_Uint64 bs = fold (\<lambda>i x. x OR push_bit (8 * i) (ucast (bs ! i))) [0..<8] 0"

definition LittleEndian_Uint64 :: "byte list \<Rightarrow> uint64 option" where
  "LittleEndian_Uint64 bs = (if 8 \<le> length bs then Some (le_Uint64 bs) else None)"

definition le_PutUint64 :: "uint64 \<Rightarrow> byte list" where
  "le_PutUint64 x = map (\<lambda>i. ucast (drop_bit (8 * i) x)) [0..<8]"

text \<open>
  \<open>read_full\<close> is \<open>io.ReadFull\<close> on a reader: an error, or as many bytes as asked. On an error the
  generator is left as it was.
\<close>

definition seed_from_body :: "byte list \<Rightarrow> nat \<Rightarrow> uint64 list \<Rightarrow> uint64 list option" where
  "seed_from_body buf i words = do {
     bs \<leftarrow> slice_at buf (i * 8) (length buf);
     x \<leftarrow> LittleEndian_Uint64 bs;
     write_at words i x
   }"

definition SeedFrom ::
  "(nat \<Rightarrow> 's \<Rightarrow> ('e + byte list) \<times> 's) \<Rightarrow> 's \<Rightarrow> Rand \<Rightarrow> ('e option \<times> Rand \<times> 's) option" where
  "SeedFrom read_full src r =
     (case read_full (8 * 256) src of
        (Inl err, src') \<Rightarrow> Some (Some err, r, src')
      | (Inr buf, src') \<Rightarrow> do {
          words \<leftarrow> for_each (seed_from_body buf) [0..<256] (r_buf r);
          r \<leftarrow> shuffle (r\<lparr>r_buf := words, r_a := 0, r_b := 0, r_c := 0\<rparr>);
          Some (None, r, src')
        })"

section \<open>Drawing numbers\<close>

definition Uint64 :: "Rand \<Rightarrow> (uint64 \<times> Rand) option" where
  "Uint64 r = do {
     r \<leftarrow> if r_i r = 256 then shuffle r else Some r;
     next_value \<leftarrow> read_at (r_out r) (r_i r);
     Some (next_value, r\<lparr>r_i := r_i r + 1\<rparr>)
   }"

definition Int63 :: "Rand \<Rightarrow> (64 word \<times> Rand) option" where
  "Int63 r = do { (x, r) \<leftarrow> Uint64 r; Some (drop_bit 1 x, r) }"

fun draws :: "nat \<Rightarrow> Rand \<Rightarrow> Rand option" where
  "draws 0 r = Some r"
| "draws (Suc n) r = do { r \<leftarrow> draws n r; (x, r) \<leftarrow> Uint64 r; Some r }"

section \<open>The reference\<close>

text \<open>
  One round of ISAAC-64 on arrays of 256 words, the mixing and the indices as the algorithm states them:
  every index is taken modulo 256, so no bound is checked. A shuffle is 256 of them.
\<close>

definition isaac_mix :: "nat \<Rightarrow> uint64 \<Rightarrow> uint64" where
  "isaac_mix i = [mix0, mix1, mix2, mix3] ! (i mod 4)"

definition isaac_round :: "nat \<Rightarrow> Rand \<Rightarrow> Rand" where
  "isaac_round i r =
     (let x = r_buf r ! i;
          a = isaac_mix i (r_a r) + r_buf r ! ((i + 128) mod 256);
          y = r_buf r ! (unat (drop_bit 3 x) mod 256) + a + r_b r;
          buf = (r_buf r)[i := y];
          b = buf ! (unat (drop_bit 11 y) mod 256) + x
      in r\<lparr>r_out := (r_out r)[i := b], r_buf := buf, r_a := a, r_b := b\<rparr>)"

definition isaac :: "Rand \<Rightarrow> Rand" where
  "isaac r = (fold isaac_round [0..<256] (r\<lparr>r_c := r_c r + 1, r_b := r_b r + (r_c r + 1)\<rparr>))\<lparr>r_i := 0\<rparr>"

definition well_sized :: "Rand \<Rightarrow> bool" where
  "well_sized r \<longleftrightarrow> length (r_out r) = 256 \<and> length (r_buf r) = 256"

section \<open>The shuffle is the reference\<close>

text \<open>Masking with \<open>0xff\<close> is taking the remainder, so the masked indices are in range.\<close>

lemma masked_index: "unat (x AND 255 :: uint64) = unat x mod 256"
proof -
  have "unat (take_bit 8 x) = unat x mod 256"
    by (subst unsigned_take_bit_eq) (simp add: take_bit_eq_mod)
  moreover have "x AND 255 = take_bit 8 x" by (simp only: take_bit_eq_mask mask_eq_exp_minus_1) simp
  ultimately show ?thesis by (simp only:)
qed

lemma opposite_index: "((i + 128) AND 255 :: nat) = (i + 128) mod 256"
proof -
  have "(i + 128) AND 255 = take_bit 8 (i + 128)"
    by (simp add: take_bit_eq_mask mask_eq_exp_minus_1)
  then show ?thesis by (simp add: take_bit_eq_mod)
qed

lemma block_is_round:
  assumes "well_sized r" and "i < 256"
  shows "shuffle_block (isaac_mix i) i r = Some (isaac_round i r)"
  using assms by (simp add: shuffle_block_def isaac_round_def well_sized_def masked_index opposite_index Let_def)

lemma round_well_sized [simp]: "well_sized (isaac_round i r) = well_sized r"
  by (simp add: isaac_round_def well_sized_def Let_def)

lemma rounds_well_sized [simp]: "well_sized (fold isaac_round is r) = well_sized r"
  by (induction "is" arbitrary: r) simp_all

lemma well_sized_update [simp]:
  "well_sized (r\<lparr>r_i := k\<rparr>) = well_sized r" "well_sized (r\<lparr>r_c := c, r_b := b\<rparr>) = well_sized r"
  by (simp_all add: well_sized_def)

lemma isaac_well_sized [simp]: "well_sized (isaac r) = well_sized r"
  by (simp add: isaac_def)

lemma isaac_i [simp]: "r_i (isaac r) = 0"
  by (simp add: isaac_def)

lemma body_is_rounds:
  assumes "well_sized r" and "4 dvd i" and "i < 256"
  shows "shuffle_body i r = Some (fold isaac_round [i, i + 1, i + 2, i + 3] r)"
proof -
  obtain m where m: "i = 4 * m" using assms(2) by auto
  have mods: "(4 * m + 1) mod 4 = 1" "(4 * m + 2) mod 4 = 2" "(4 * m + 3) mod 4 = 3" by presburger+
  have mixes: "mix0 = isaac_mix i" "mix1 = isaac_mix (i + 1)" "mix2 = isaac_mix (i + 2)" "mix3 = isaac_mix (i + 3)"
    using mods by (simp_all add: isaac_mix_def m)
  have "i + 3 < 256" using assms(3) m by presburger
  then show ?thesis
    using assms(1) unfolding shuffle_body_def mixes by (simp add: block_is_round)
qed

lemma loop_is_rounds:
  assumes "well_sized r" and "4 dvd i" and "i \<le> 256"
  shows "shuffle_loop i r = Some (fold isaac_round [i..<256] r)"
  using assms
proof (induction i r rule: shuffle_loop.induct)
  case (1 i r)
  show ?case
  proof (cases "i < 256")
    case False
    then show ?thesis by (subst shuffle_loop.simps) simp
  next
    case True
    obtain m where "i = 4 * m" using "1.prems" by auto
    with True have four: "i + 4 \<le> 256" by simp
    have "[i..<i + 4] = [i, i + 1, i + 2, i + 3]" by (simp add: numeral_eq_Suc)
    moreover have "[i..<256] = [i..<i + 4] @ [i + 4..<256]"
      using upt_add_eq_append [of i "i + 4" "252 - i"] four by simp
    ultimately have up: "[i..<256] = [i, i + 1, i + 2, i + 3] @ [i + 4..<256]" by (simp only:)
    define r' where "r' = fold isaac_round [i, i + 1, i + 2, i + 3] r"
    have body: "shuffle_body i r = Some r'"
      using body_is_rounds [OF "1.prems"(1,2) True] by (simp only: r'_def)
    have "4 dvd i + 4" "well_sized r'" using "1.prems"(1,2) by (simp_all add: r'_def)
    with four have "shuffle_loop (i + 4) r' = Some (fold isaac_round [i + 4..<256] r')"
      by (intro "1.IH" [OF True body])
    moreover have "shuffle_loop i r = Option.bind (shuffle_body i r) (shuffle_loop (i + 4))"
      using True by (subst shuffle_loop.simps) simp
    ultimately show ?thesis
      unfolding up fold_append comp_apply body r'_def [symmetric] by simp
  qed
qed

text \<open>
  The loop of \<open>shuffle\<close>, unrolled four times, does not panic and is the 256 rounds of ISAAC-64, one per
  word of the state with the mixing function of the round's index.
\<close>

theorem shuffle_is_isaac_rounds: "well_sized r \<Longrightarrow> shuffle r = Some (isaac r)"
  by (simp add: shuffle_def isaac_def loop_is_rounds Let_def)

section \<open>The numbers drawn\<close>

text \<open>The rounds and the reads of the state do not depend on the position.\<close>

lemma round_position: "isaac_round j (r\<lparr>r_i := k\<rparr>) = (isaac_round j r)\<lparr>r_i := k\<rparr>"
  by (simp add: isaac_round_def Let_def)

lemma rounds_position: "fold isaac_round is (r\<lparr>r_i := k\<rparr>) = (fold isaac_round is r)\<lparr>r_i := k\<rparr>"
  by (induction "is" arbitrary: r) (simp_all add: round_position)

lemma isaac_position [simp]: "isaac (r\<lparr>r_i := k\<rparr>) = isaac r"
proof -
  have "r\<lparr>r_i := k, r_c := c, r_b := b\<rparr> = r\<lparr>r_c := c, r_b := b\<rparr>\<lparr>r_i := k\<rparr>" for c b by simp
  then have "fold isaac_round is (r\<lparr>r_i := k, r_c := c, r_b := b\<rparr>)
      = (fold isaac_round is (r\<lparr>r_c := c, r_b := b\<rparr>))\<lparr>r_i := k\<rparr>" for "is" c b
    by (simp only: rounds_position)
  then show ?thesis by (simp add: isaac_def)
qed

lemma power_well_sized [simp]: "well_sized ((isaac ^^ n) r) = well_sized r"
  by (induction n) simp_all

text \<open>A draw from a generator within its bounds returns the word at the position, after a shuffle if it was used up.\<close>

lemma Uint64_draw:
  assumes "well_sized r" and "r_i r \<le> 256"
  defines "r' \<equiv> if r_i r = 256 then isaac r else r"
  shows "Uint64 r = Some (r_out r' ! r_i r', r'\<lparr>r_i := r_i r' + 1\<rparr>) \<and> well_sized r' \<and> r_i r' < 256"
  using assms isaac_well_sized [of r]
  by (auto simp: Uint64_def shuffle_is_isaac_rounds well_sized_def)

lemma draws_state:
  assumes "well_sized r" and "r_i r = 0"
  defines "out \<equiv> \<lambda>k. (isaac ^^ (k div 256)) r"
  shows "draws (Suc k) r = Some ((out k)\<lparr>r_i := k mod 256 + 1\<rparr>)
       \<and> (\<exists>h. draws k r = Some h \<and> map_option fst (Uint64 h) = Some (r_out (out k) ! (k mod 256)))"
proof (induction k)
  case 0
  then show ?case using assms Uint64_draw [of r] by simp
next
  case (Suc k)
  let ?s = "(out k)\<lparr>r_i := k mod 256 + 1\<rparr>"
  have state: "draws (Suc k) r = Some ?s" using Suc by blast
  have ws: "well_sized ?s" using assms(1) by (simp add: out_def)
  have "r_i ?s \<le> 256" by (simp add: Suc_leI)
  note draw = Uint64_draw [OF ws this]
  show ?case
  proof (cases "k mod 256 = 255")
    case True
    then have "Suc k mod 256 = 0" "Suc k div 256 = Suc (k div 256)"
      by (simp_all add: mod_Suc div_Suc)
    then show ?thesis
      using True draw unfolding draws.simps(2) [of "Suc k"] state by (simp add: out_def)
  next
    case False
    then have "Suc k mod 256 = k mod 256 + 1" "Suc k div 256 = k div 256" "k mod 256 + 1 \<noteq> 256"
      by (simp_all add: mod_Suc div_Suc)
    then show ?thesis
      using draw unfolding draws.simps(2) [of "Suc k"] state by (simp add: out_def)
  qed
qed

text \<open>Seeding fills the buffer with the outputs of SplitMix64, whatever it held.\<close>

lemma seed_loop_in_range:
  assumes "\<forall>i\<in>set is. i < length buf"
  shows "\<exists>buf'. seed_loop is s buf = Some buf' \<and> length buf' = length buf"
  using assms
proof (induction "is" arbitrary: s buf)
  case (Cons i "is")
  obtain s' z where "splitmix s = (s', z)" by (cases "splitmix s")
  then show ?case using Cons.IH [of "buf[i := z]" s'] Cons.prems by simp
qed simp

lemma Seed_well_sized:
  assumes "well_sized r"
  shows "\<exists>g. Seed s r = Some g \<and> well_sized g \<and> r_i g = 0"
proof -
  obtain buf where buf: "seed_loop [0..<256] s (r_buf r) = Some buf" "length buf = 256"
    using seed_loop_in_range [of "[0..<256]" "r_buf r" s] assms by (auto simp: well_sized_def)
  then have "well_sized (r\<lparr>r_buf := buf, r_a := 0, r_b := 0, r_c := 0\<rparr>)"
    using assms by (simp add: well_sized_def)
  then show ?thesis by (simp add: Seed_def buf(1) shuffle_is_isaac_rounds)
qed

text \<open>Seeding from a reader that gives the bytes asked for, which are taken eight by eight, or fails.\<close>

lemma seed_words:
  assumes "length bs = 2048" and "m \<le> 256" and "length words = 256"
  shows "for_each (seed_from_body bs) [0..<m] words
     = Some (map (\<lambda>i. le_Uint64 (drop (i * 8) bs)) [0..<m] @ drop m words)"
  using assms(2)
proof (induction m)
  case (Suc m)
  let ?ws = "map (\<lambda>i. le_Uint64 (drop (i * 8) bs)) [0..<m]"
  have "words = take m words @ words ! m # drop (Suc m) words"
    using Suc.prems assms(3) by (simp add: id_take_nth_drop)
  then have "drop m words = words ! m # drop (Suc m) words"
    using Suc.prems assms(3) by (simp add: Cons_nth_drop_Suc)
  then have "(?ws @ drop m words)[m := v] = ?ws @ v # drop (Suc m) words" for v
    by (simp add: list_update_append)
  moreover have "seed_from_body bs m (?ws @ drop m words)
      = Some ((?ws @ drop m words)[m := le_Uint64 (drop (m * 8) bs)])"
    using Suc.prems assms by (simp add: seed_from_body_def LittleEndian_Uint64_def slice_at_def)
  ultimately show ?case using Suc by (simp add: for_each_append)
qed simp

lemma SeedFrom_well_sized:
  assumes "\<And>bs src'. read_full 2048 src = (Inr bs, src') \<Longrightarrow> length bs = 2048" and "well_sized r" and "r_i r \<le> 256"
  shows "\<exists>err g src'. SeedFrom read_full src r = Some (err, g, src') \<and> well_sized g \<and> r_i g \<le> 256"
proof -
  obtain res src' where src: "read_full 2048 src = (res, src')" by (cases "read_full 2048 src")
  show ?thesis
  proof (cases res)
    case Inl
    then show ?thesis using src assms(2,3) by (simp add: SeedFrom_def)
  next
    case (Inr bs)
    let ?ws = "map (\<lambda>i. le_Uint64 (drop (i * 8) bs)) [0..<256]"
    have "length bs = 2048" using src Inr assms(1) by simp
    then have "for_each (seed_from_body bs) [0..<256] (r_buf r) = Some ?ws"
      using seed_words [of bs 256 "r_buf r"] assms(2) by (simp add: well_sized_def)
    moreover have "well_sized (r\<lparr>r_buf := ?ws, r_a := 0, r_b := 0, r_c := 0\<rparr>)"
      using assms(2) by (simp add: well_sized_def)
    ultimately show ?thesis using src Inr by (simp add: SeedFrom_def shuffle_is_isaac_rounds)
  qed
qed

lemma new_well_sized: "well_sized NewISAAC64" "r_i NewISAAC64 = 256"
  by (simp_all add: well_sized_def NewISAAC64_def)

text \<open>
  The numbers handed out: after a seed, the \<open>k\<close>-th number is the \<open>k mod 256\<close>-th output of the
  \<open>k div 256\<close>-th further shuffle, so that every output is used exactly once, in order.
\<close>

theorem draws_outputs_in_order:
  assumes "well_sized r"
  shows "\<exists>g h. Seed s r = Some g \<and> draws k g = Some h
    \<and> map_option fst (Uint64 h) = Some (r_out ((isaac ^^ (k div 256)) g) ! (k mod 256))"
  using Seed_well_sized [OF assms, of s] draws_state by blast

lemma draws_well_sized:
  assumes "well_sized r" and "r_i r \<le> 256"
  shows "\<exists>h. draws n r = Some h \<and> well_sized h \<and> r_i h \<le> 256"
proof (induction n)
  case (Suc n)
  then obtain h where h: "draws n r = Some h" "well_sized h" "r_i h \<le> 256" by blast
  then show ?case using Uint64_draw [OF h(2,3)] by auto
qed (use assms in simp)

lemma Int63_not_negative [simp]: "0 \<le> sint (drop_bit (Suc 0) x :: uint64)"
proof -
  have "\<not> bit (drop_bit (Suc 0) x) 63" using bit_imp_le_length [of x 64] by (auto simp: bit_drop_bit_eq)
  then show ?thesis by (simp add: sint_uint bit_uint_iff signed_take_bit_int_eq_self_iff signed_take_bit_eq_if_positive)
qed

text \<open>
  C40. No index of the generator's code is out of range: a generator made by \<open>NewISAAC64\<close>, unseeded, seeded with a
  number, or seeded from a reader that gives the bytes asked for or fails, never panics however many numbers are
  drawn, by \<open>Uint64\<close> or by \<open>Int63\<close>, which returns one that is not negative; its arrays keep their 256 words and
  its position stays within them.
\<close>

theorem generator_never_out_of_range:
  assumes "\<And>bs src'. read_full 2048 src = (Inr bs, src') \<Longrightarrow> length bs = 2048"
    and "start \<in> {Some NewISAAC64, Seed s NewISAAC64,
           map_option (\<lambda>(err, g, src'). g) (SeedFrom read_full src NewISAAC64)}"
  shows "\<exists>r x r'. Option.bind start (draws n) = Some r
     \<and> Uint64 r = Some (x, r') \<and> Int63 r = Some (drop_bit 1 x, r') \<and> 0 \<le> sint (drop_bit 1 x)
     \<and> length (r_out r') = 256 \<and> length (r_buf r') = 256 \<and> 0 < r_i r' \<and> r_i r' \<le> 256"
proof -
  obtain g where g: "start = Some g" "well_sized g" "r_i g \<le> 256"
    using assms(2) Seed_well_sized [OF new_well_sized(1), of s] new_well_sized
      SeedFrom_well_sized [OF assms(1) new_well_sized(1)] by force
  obtain r where r: "draws n g = Some r" "well_sized r" "r_i r \<le> 256"
    using draws_well_sized [OF g(2,3)] by blast
  from Uint64_draw [OF r(2,3)] show ?thesis
    using g(1) r(1) by (auto simp: Int63_def well_sized_def)
qed

text \<open>At a concrete input: seeded from a reader of zeros, and 300 numbers drawn.\<close>

theorem generator_never_out_of_range_witness:
  "\<exists>g r x r'. SeedFrom (\<lambda>k src. (Inr (replicate k 0) :: unit + byte list, src + k)) (0 :: nat) NewISAAC64
       = Some (None, g, 2048)
     \<and> draws 300 g = Some r \<and> Uint64 r = Some (x, r') \<and> Int63 r = Some (drop_bit 1 x, r')"
proof -
  let ?read = "\<lambda>k src. (Inr (replicate k 0) :: unit + byte list, src + k)"
  obtain err g src' where s: "SeedFrom ?read (0 :: nat) NewISAAC64 = Some (err, g, src')"
    using SeedFrom_well_sized [of ?read "0 :: nat" NewISAAC64] new_well_sized by auto
  then have "err = None" "src' = 2048" by (auto simp: SeedFrom_def bind_eq_Some_conv)
  moreover have "\<exists>r x r'. Option.bind (Some g) (draws 300) = Some r
     \<and> Uint64 r = Some (x, r') \<and> Int63 r = Some (drop_bit 1 x, r') \<and> 0 \<le> sint (drop_bit 1 x)
     \<and> length (r_out r') = 256 \<and> length (r_buf r') = 256 \<and> 0 < r_i r' \<and> r_i r' \<le> 256"
    by (rule generator_never_out_of_range [of ?read "0 :: nat"]) (auto simp: s)
  ultimately show ?thesis using s by auto
qed

end
