(* ===== verification/Uuid.thy ===== *)
theory Uuid
  imports Isaac64
begin

text \<open>
  UUIDs: \<open>eventrouter/internal/helpers/uuid/uuid.go\<close>. A \<open>UUID\<close> is an array of 16 bytes, here a list
  (\<open>wf_uuid\<close> says it has 16); byte slices are lists of bytes and strings lists of characters.
\<close>

section \<open>Tables\<close>

type_synonym UUID = "byte list"

datatype uuid_error = ErrInvalid | ErrInvalidLength

definition encode :: "nat list" where
  "encode = [0, 2, 4, 6, 9, 11, 14, 16, 19, 21, 24, 26, 28, 30, 32, 34]"

definition nibbles :: "byte list" where
  "nibbles = replicate 48 255 @ [0, 1, 2, 3, 4, 5, 6, 7, 8, 9] @ replicate 7 255
     @ [10, 11, 12, 13, 14, 15] @ replicate 26 255 @ [10, 11, 12, 13, 14, 15] @ replicate 153 255"

text \<open>The digits \<open>0\<close> to \<open>9\<close> and \<open>a\<close> to \<open>f\<close>, and the dash.\<close>

definition hex :: "byte list" where
  "hex = [48, 49, 50, 51, 52, 53, 54, 55, 56, 57, 97, 98, 99, 100, 101, 102]"

section \<open>Printing and parsing\<close>

definition put_hex :: "UUID \<Rightarrow> nat \<times> nat \<Rightarrow> byte list \<Rightarrow> byte list" where
  "put_hex u ij buf =
     (let (i, j) = ij
      in buf[j + 0 := hex ! unat (drop_bit 4 (u ! i)), j + 1 := hex ! unat (u ! i AND 15)])"

definition hexify :: "UUID \<Rightarrow> byte list \<Rightarrow> byte list" where
  "hexify u buf = fold (put_hex u) (enumerate 0 encode) (buf[8 := 45, 13 := 45, 18 := 45, 23 := 45])"

definition uuid_String :: "UUID \<Rightarrow> string" where
  "uuid_String u = (let buf = hexify u (replicate 36 0) in map char_of_byte buf)"

definition MarshalBinary :: "UUID \<Rightarrow> byte list" where
  "MarshalBinary u = u"

definition UnmarshalBinary :: "byte list \<Rightarrow> uuid_error + UUID" where
  "UnmarshalBinary dat = (if length dat < 16 then Inl ErrInvalidLength else Inr (take 16 dat))"

definition MarshalJSON :: "UUID \<Rightarrow> byte list" where
  "MarshalJSON u =
     (let buf = (replicate 38 0)[0 := 34];
          buf = take 1 buf @ hexify u (drop 1 buf)
      in buf[37 := 34])"

fun parse_loop :: "byte list \<Rightarrow> (nat \<times> nat) list \<Rightarrow> UUID \<Rightarrow> UUID option" where
  "parse_loop buf [] u = Some u"
| "parse_loop buf ((i, j) # rest) u =
     (let hi = nibbles ! unat (buf ! (j + 0)); lo = nibbles ! unat (buf ! (j + 1))
      in if hi = 255 \<or> lo = 255 then None
         else parse_loop buf rest (u[i := push_bit 4 hi OR lo]))"

definition ParseBytes :: "byte list \<Rightarrow> uuid_error + UUID" where
  "ParseBytes buf =
     (if length buf \<noteq> 36 then Inl ErrInvalid
      else if buf ! 8 \<noteq> 45 \<or> buf ! 13 \<noteq> 45 \<or> buf ! 18 \<noteq> 45 \<or> buf ! 23 \<noteq> 45 then Inl ErrInvalid
      else (case parse_loop buf (enumerate 0 encode) (replicate 16 0) of
              None \<Rightarrow> Inl ErrInvalid
            | Some u \<Rightarrow> Inr u))"

definition UnmarshalJSON :: "byte list \<Rightarrow> uuid_error + UUID" where
  "UnmarshalJSON buf =
     (if length buf \<noteq> 38 \<or> buf ! 0 \<noteq> 34 \<or> buf ! 37 \<noteq> 34 then Inl ErrInvalid
      else (case ParseBytes (take 36 (drop 1 buf)) of
              Inl err \<Rightarrow> Inl err
            | Inr uuid \<Rightarrow> Inr uuid))"

definition Parse :: "string \<Rightarrow> uuid_error + UUID" where
  "Parse s = ParseBytes (map byte_of_char s)"

text \<open>\<open>None\<close> is a panic.\<close>

definition MustParse :: "string \<Rightarrow> UUID option" where
  "MustParse s = (case Parse s of Inl err \<Rightarrow> None | Inr uuid \<Rightarrow> Some uuid)"

section \<open>Version 4\<close>

definition NewGen ::
  "(nat \<Rightarrow> 's \<Rightarrow> ('e + byte list) \<times> 's) \<Rightarrow> 's \<Rightarrow> (Rand \<times> 's) option" where
  "NewGen read_full reader =
     (let r = NewISAAC64
      in case SeedFrom read_full reader r of
           None \<Rightarrow> None
         | Some (Some err, r, reader') \<Rightarrow> None
         | Some (None, r, reader') \<Rightarrow> Some (r, reader'))"

definition NewV4 :: "Rand \<Rightarrow> (UUID \<times> Rand) option" where
  "NewV4 r = do {
     (x, r) \<leftarrow> Uint64 r;
     (y, r) \<leftarrow> Uint64 r;
     let u = le_PutUint64 x @ le_PutUint64 y;
     let u = u[6 := (u ! 6 AND 0x0f) OR 0x40];
     let u = u[8 := (u ! 8 AND 0x3f) OR 0x80];
     Some (u, r)
   }"

section \<open>The tables are inverse\<close>

definition wf_uuid :: "UUID \<Rightarrow> bool" where
  "wf_uuid u \<longleftrightarrow> length u = 16"

definition lower_byte :: "byte \<Rightarrow> byte" where
  "lower_byte b = (if 65 \<le> b \<and> b \<le> 90 then b + 32 else b)"

definition is_hex :: "byte \<Rightarrow> bool" where
  "is_hex b \<longleftrightarrow> (48 \<le> b \<and> b \<le> 57) \<or> (65 \<le> b \<and> b \<le> 70) \<or> (97 \<le> b \<and> b \<le> 102)"

lemma nibbles_table:
  "list_all (\<lambda>n. (nibbles ! n \<noteq> 255) = is_hex (of_nat n)
      \<and> (nibbles ! n \<noteq> 255 \<longrightarrow> unat (nibbles ! n) < 16 \<and> hex ! unat (nibbles ! n) = lower_byte (of_nat n))) [0..<256]"
  by code_simp

lemma hex_table: "list_all (\<lambda>n. nibbles ! unat (hex ! n) = of_nat n) [0..<16]"
  by code_simp


lemma unat_byte_less: "unat (b :: byte) < 256"
  using unsigned_less [of b, where ?'a = nat] by simp

lemma nibble_table_at:
  "(nibbles ! unat b \<noteq> 255) = is_hex b"
  "is_hex b \<Longrightarrow> unat (nibbles ! unat b) < 16"
  "is_hex b \<Longrightarrow> hex ! unat (nibbles ! unat b) = lower_byte b"
  using nibbles_table unat_byte_less [of b] by (auto simp: list_all_iff)

lemma nibble_of_hex:
  assumes "n < 16"
  shows "nibbles ! unat (hex ! n) = of_nat n" "is_hex (hex ! n)"
proof -
  show eq: "nibbles ! unat (hex ! n) = of_nat n" using hex_table assms by (auto simp: list_all_iff)
  have "of_nat n \<noteq> (255 :: byte)"
  proof
    assume "of_nat n = (255 :: byte)"
    then have "unat (of_nat n :: byte) = unat (255 :: byte)" by simp
    then show False using assms by (simp add: unat_of_nat)
  qed
  then show "is_hex (hex ! n)" using eq nibble_table_at(1) by metis
qed

lemma high_nibble: "unat (drop_bit 4 (b :: byte)) < 16"
proof -
  have "unat (drop_bit 4 b) = unat b div 16" by (simp add: unat_div drop_bit_eq_div)
  then show ?thesis using unat_byte_less [of b] by simp
qed

lemma low_nibble: "unat ((b :: byte) AND 15) < 16"
proof -
  have "unat (b AND 15) \<le> unat (15 :: byte)" by (rule word_and_le1 [THEN word_le_nat_alt [THEN iffD1]])
  then show ?thesis by simp
qed

lemma nibbles_join: "push_bit 4 (drop_bit 4 b) OR (b AND 15) = (b :: byte)"
proof -
  have "b AND 15 = take_bit 4 b" by (simp add: take_bit_eq_mask mask_eq_exp_minus_1)
  then show ?thesis
    by (intro bit_word_eqI) (auto simp: bit_simps)
qed

lemma nibbles_split:
  assumes "unat (hi :: byte) < 16" and "unat lo < 16"
  shows "drop_bit 4 (push_bit 4 hi OR lo) = hi" "(push_bit 4 hi OR lo) AND 15 = lo"
proof -
  have small: "\<not> bit x n" if "unat x < 16" "4 \<le> n" for x :: byte and n
  proof -
    have "(2 :: nat) ^ 4 \<le> 2 ^ n" using that(2) by (rule power_increasing) simp
    then have "\<not> bit (unat x) n" using that(1) by (simp add: bit_iff_odd)
    then show ?thesis by (auto simp: bit_unsigned_iff dest: bit_imp_le_length)
  qed
  have "(push_bit 4 hi OR lo) AND 15 = take_bit 4 (push_bit 4 hi OR lo)"
    by (simp add: take_bit_eq_mask mask_eq_exp_minus_1)
  then show "(push_bit 4 hi OR lo) AND 15 = lo"
    using small [OF assms(2)] by (intro bit_word_eqI) (auto simp: bit_simps not_le)
  show "drop_bit 4 (push_bit 4 hi OR lo) = hi"
    using small [OF assms(2)] small [OF assms(1)]
    by (intro bit_word_eqI) (auto simp: bit_simps intro: leI, (metis leI)?)
qed

section \<open>What is printed, and what is accepted\<close>

definition hex_hi :: "byte \<Rightarrow> byte" where "hex_hi b = hex ! unat (drop_bit 4 b)"
definition hex_lo :: "byte \<Rightarrow> byte" where "hex_lo b = hex ! unat (b AND 15)"

definition byte_at :: "byte list \<Rightarrow> nat \<Rightarrow> byte" where
  "byte_at buf j = push_bit 4 (nibbles ! unat (buf ! j)) OR nibbles ! unat (buf ! (j + 1))"

definition hex_at :: "byte list \<Rightarrow> nat \<Rightarrow> bool" where
  "hex_at buf j \<longleftrightarrow> is_hex (buf ! j) \<and> is_hex (buf ! (j + 1))"

lemma hex_pair:
  assumes "buf ! j = hex_hi b" and "buf ! Suc j = hex_lo b"
  shows "hex_at buf j" "byte_at buf j = b"
  using nibble_of_hex [OF high_nibble, of b] nibble_of_hex [OF low_nibble, of b] assms
  by (simp_all add: hex_at_def byte_at_def hex_hi_def hex_lo_def nibbles_join)

lemma pair_hex:
  assumes "hex_at buf j"
  shows "hex_hi (byte_at buf j) = lower_byte (buf ! j)" "hex_lo (byte_at buf j) = lower_byte (buf ! Suc j)"
proof -
  have h: "is_hex (buf ! j)" "is_hex (buf ! Suc j)" using assms by (simp_all add: hex_at_def)
  note split = nibbles_split [OF nibble_table_at(2) [OF h(1)] nibble_table_at(2) [OF h(2)]]
  show "hex_hi (byte_at buf j) = lower_byte (buf ! j)"
    using split h by (simp add: hex_hi_def byte_at_def nibble_table_at(3))
  show "hex_lo (byte_at buf j) = lower_byte (buf ! Suc j)"
    using split h by (simp add: hex_lo_def byte_at_def nibble_table_at(3))
qed

definition uuid_text :: "UUID \<Rightarrow> byte list" where
  "uuid_text u =
     (let p = (\<lambda>i. [hex_hi (u ! i), hex_lo (u ! i)])
      in p 0 @ p 1 @ p 2 @ p 3 @ [45] @ p 4 @ p 5 @ [45] @ p 6 @ p 7 @ [45] @ p 8 @ p 9 @ [45]
         @ p 10 @ p 11 @ p 12 @ p 13 @ p 14 @ p 15)"

lemma hexify_text:
  assumes "length buf = 36"
  shows "hexify u (buf @ rest) = uuid_text u @ rest"
proof -
  obtain f where "buf = map f [0..<36]" using assms by (metis map_nth)
  then have "hexify u buf = uuid_text u"
    by (simp add: hexify_def encode_def put_hex_def uuid_text_def hex_hi_def hex_lo_def upt_rec
        numeral_eq_Suc)
  moreover have "hexify u (buf @ rest) = hexify u buf @ rest"
    using assms by (simp add: hexify_def encode_def put_hex_def list_update_append1)
  ultimately show ?thesis by simp
qed

lemma parse_loop_enumerate:
  assumes "k + length js = length u"
  shows "parse_loop buf (enumerate k js) u =
     (if list_all (hex_at buf) js then Some (take k u @ map (byte_at buf) js) else None)"
  using assms
proof (induction js arbitrary: k u)
  case Nil
  then show ?case by simp
next
  case (Cons j js)
  have take: "take (Suc k) (u[k := x]) = take k u @ [x]" for x
    using Cons.prems by (simp add: take_Suc_conv_app_nth)
  have "parse_loop buf (enumerate (Suc k) js) (u[k := byte_at buf j]) =
      (if list_all (hex_at buf) js then Some (take k u @ byte_at buf j # map (byte_at buf) js) else None)"
    using Cons.IH [of "Suc k" "u[k := byte_at buf j]"] Cons.prems take by simp
  moreover have "nibbles ! unat (buf ! j) = 255 \<or> nibbles ! unat (buf ! (j + 1)) = 255 \<longleftrightarrow> \<not> hex_at buf j"
    unfolding hex_at_def nibble_table_at(1) [symmetric] by blast
  ultimately show ?case by (simp add: Let_def byte_at_def)
qed

definition uuid_format :: "byte list \<Rightarrow> bool" where
  "uuid_format buf \<longleftrightarrow> length buf = 36 \<and> buf ! 8 = 45 \<and> buf ! 13 = 45 \<and> buf ! 18 = 45 \<and> buf ! 23 = 45
     \<and> list_all (hex_at buf) encode"

lemma ParseBytes_eq:
  "ParseBytes buf = (if uuid_format buf then Inr (map (byte_at buf) encode) else Inl ErrInvalid)"
proof -
  have "parse_loop buf (enumerate 0 encode) (replicate 16 0)
      = (if list_all (hex_at buf) encode then Some (map (byte_at buf) encode) else None)"
    by (subst parse_loop_enumerate) (simp_all add: encode_def)
  then show ?thesis by (simp add: ParseBytes_def uuid_format_def)
qed


lemma uuid_text_at:
  assumes "i < 16"
  shows "uuid_text u ! (encode ! i) = hex_hi (u ! i)" "uuid_text u ! Suc (encode ! i) = hex_lo (u ! i)"
proof -
  have "list_all (\<lambda>i. uuid_text u ! (encode ! i) = hex_hi (u ! i) \<and> uuid_text u ! Suc (encode ! i) = hex_lo (u ! i))
      [0, 1, 2, 3, 4, 5, 6, 7, 8, 9, 10, 11, 12, 13, 14, 15]"
    by (simp add: uuid_text_def encode_def)
  moreover have "i \<in> set [0, 1, 2, 3, 4, 5, 6, 7, 8, 9, 10, 11, 12, 13, 14, 15]"
    using assms by (simp, presburger)
  ultimately show "uuid_text u ! (encode ! i) = hex_hi (u ! i)" "uuid_text u ! Suc (encode ! i) = hex_lo (u ! i)"
    unfolding list_all_iff by blast+
qed

lemma encode_map: "map f encode = map (\<lambda>i. f (encode ! i)) [0..<16]"
  by (simp add: encode_def upt_rec numeral_eq_Suc)

lemma length_uuid_text [simp]: "length (uuid_text u) = 36"
  by (simp add: uuid_text_def)

lemma ParseBytes_text:
  assumes "wf_uuid u"
  shows "ParseBytes (uuid_text u) = Inr u"
proof -
  have pair: "hex_at (uuid_text u) (encode ! i)" "byte_at (uuid_text u) (encode ! i) = u ! i" if "i < 16" for i
    using hex_pair [OF uuid_text_at [OF that]] by blast+
  have "map (byte_at (uuid_text u)) encode = map ((!) u) [0..<16]"
    unfolding encode_map [of "byte_at (uuid_text u)"] using pair(2) by simp
  then have "map (byte_at (uuid_text u)) encode = u"
    using assms by (metis wf_uuid_def map_nth)
  moreover have "list_all (hex_at (uuid_text u)) encode"
    using pair(1) by (auto simp: list_all_length encode_def)
  moreover have "uuid_text u ! 8 = 45 \<and> uuid_text u ! 13 = 45 \<and> uuid_text u ! 18 = 45 \<and> uuid_text u ! 23 = 45"
    by (simp add: uuid_text_def)
  ultimately show ?thesis by (simp add: ParseBytes_eq uuid_format_def)
qed

lemma upto_36: "[0..<36] = [0, 1, 2, 3, 4, 5, 6, 7, 8, 9, 10, 11, 12, 13, 14, 15, 16, 17, 18, 19, 20, 21, 22, 23,
    24, 25, 26, 27, 28, 29, 30, 31, 32, 33, 34, 35]"
  by (simp add: upt_rec)

lemma text_ParseBytes:
  assumes "ParseBytes buf = Inr u"
  shows "wf_uuid u \<and> uuid_text u = map lower_byte buf"
proof -
  have f: "uuid_format buf" and u: "u = map (byte_at buf) encode"
    using assms by (auto simp: ParseBytes_eq split: if_splits)
  have len: "length u = 16" by (simp add: u encode_def)
  have pair: "hex_hi (u ! i) = lower_byte (buf ! (encode ! i))" "hex_lo (u ! i) = lower_byte (buf ! Suc (encode ! i))"
    if "i < 16" for i
  proof -
    have "hex_at buf (encode ! i)" "u ! i = byte_at buf (encode ! i)"
      using f that len by (auto simp: uuid_format_def list_all_length u)
    then show "hex_hi (u ! i) = lower_byte (buf ! (encode ! i))" "hex_lo (u ! i) = lower_byte (buf ! Suc (encode ! i))"
      using pair_hex by simp_all
  qed
  have "length buf = 36" using f by (simp add: uuid_format_def)
  then have "buf = map ((!) buf) [0..<36]" using map_nth [of buf] by simp
  then have "map lower_byte buf = map lower_byte (map ((!) buf) [0..<36])" by (rule arg_cong)
  also have "\<dots> = uuid_text u"
    using f pair [of 0] pair [of 1] pair [of 2] pair [of 3] pair [of 4] pair [of 5] pair [of 6] pair [of 7]
      pair [of 8] pair [of 9] pair [of 10] pair [of 11] pair [of 12] pair [of 13] pair [of 14] pair [of 15]
    unfolding upto_36
    by (simp add: uuid_text_def encode_def uuid_format_def lower_byte_def [of 45] Let_def)
  finally show ?thesis using len by (simp add: wf_uuid_def)
qed

text \<open>The three encodings are codecs; text and JSON accept upper case, and print lower case.\<close>

definition hexified :: "UUID \<Rightarrow> byte list" where
  "hexified u = hexify u (replicate 36 0)"

lemma hexified_text: "hexified u = uuid_text u"
  using hexify_text [of "replicate 36 0" u "[]"] by (simp add: hexified_def)

interpretation uuid_bytes: canonical_codec hexified ParseBytes wf_uuid "map lower_byte"
  by unfold_locales (use ParseBytes_text text_ParseBytes in \<open>auto simp: hexified_text\<close>)

interpretation uuid_binary: canonical_codec MarshalBinary UnmarshalBinary wf_uuid "take 16"
  by unfold_locales (auto simp: MarshalBinary_def UnmarshalBinary_def wf_uuid_def split: if_splits)

lemma MarshalJSON_text: "MarshalJSON u = [34] @ uuid_text u @ [34]"
proof -
  have "drop 1 ((replicate 38 0)[0 := 34]) = replicate 36 0 @ [0 :: byte]"
    by (simp add: numeral_eq_Suc)
  then have "MarshalJSON u = ([34] @ uuid_text u @ [0])[37 := 34]"
    using hexify_text [of "replicate 36 0" u "[0]"]
    by (simp add: MarshalJSON_def Let_def numeral_eq_Suc)
  then show ?thesis by (simp add: list_update_append)
qed

definition json_canon :: "byte list \<Rightarrow> byte list" where
  "json_canon buf = [34] @ map lower_byte (take 36 (drop 1 buf)) @ [34]"

interpretation uuid_json: canonical_codec MarshalJSON UnmarshalJSON wf_uuid json_canon
proof
  fix u assume "wf_uuid u"
  then show "UnmarshalJSON (MarshalJSON u) = Inr u"
    by (simp add: MarshalJSON_text UnmarshalJSON_def ParseBytes_text nth_append)
next
  fix b u assume "UnmarshalJSON b = Inr u"
  then have "ParseBytes (take 36 (drop 1 b)) = Inr u"
    by (auto simp: UnmarshalJSON_def split: if_splits sum.splits)
  then show "wf_uuid u" "MarshalJSON u = json_canon b"
    using text_ParseBytes by (auto simp: MarshalJSON_text json_canon_def)
qed


section \<open>Round trips and version 4\<close>

lemma char_bytes [simp]: "map byte_of_char (map char_of_byte bs) = bs"
  by (induction bs) simp_all

lemma uuid_String_hexified: "uuid_String u = map char_of_byte (hexified u)"
  by (simp add: uuid_String_def hexified_def)

text \<open>
  C23. Every UUID survives its three encodings: its text and its JSON are parsed back, and its binary form
  too, whatever bytes follow it; different UUIDs have different texts.
\<close>

theorem uuid_roundtrips:
  assumes "wf_uuid u"
  shows "Parse (uuid_String u) = Inr u \<and> MustParse (uuid_String u) = Some u \<and> length (uuid_String u) = 36
       \<and> UnmarshalJSON (MarshalJSON u) = Inr u \<and> UnmarshalBinary (MarshalBinary u @ extra) = Inr u
       \<and> (uuid_String u = uuid_String v \<longrightarrow> wf_uuid v \<longrightarrow> u = v)"
proof -
  have parse: "Parse (uuid_String w) = Inr w" if "wf_uuid w" for w
    using uuid_bytes.dec_enc [OF that] by (simp add: Parse_def uuid_String_hexified del: map_map)
  then have "uuid_String u = uuid_String v \<longrightarrow> wf_uuid v \<longrightarrow> u = v"
    using assms by (metis sum.inject(2))
  then show ?thesis
    using parse [OF assms] uuid_json.dec_enc [OF assms] assms
    by (simp add: MustParse_def UnmarshalBinary_def MarshalBinary_def wf_uuid_def uuid_String_hexified hexified_text)
qed

theorem uuid_roundtrips_witness:
  "Parse (uuid_String (replicate 16 171)) = Inr (replicate 16 171) \<and> length (uuid_String (replicate 16 171)) = 36"
  using uuid_roundtrips [of "replicate 16 171" "[]" "[]"] by (simp add: wf_uuid_def)

lemma encode_places:
  "list_all (\<lambda>k. k \<in> set [8, 13, 18, 23] \<or> (\<exists>j\<in>set encode. k = j \<or> k = Suc j)) [0..<36]"
  "list_all (\<lambda>j. Suc j < 36 \<and> j \<notin> set [8, 13, 18, 23] \<and> Suc j \<notin> set [8, 13, 18, 23]) encode"
  by code_simp+

text \<open>
  C24. What the parser accepts: exactly the 36-byte texts with dashes at the four places and a hexadecimal
  digit, in either case, at every other; and two accepted texts are the same UUID exactly when they are
  equal up to the case of the letters, the printed one being in lower case.
\<close>

theorem ParseBytes_accepts_exactly:
  "((\<exists>u. ParseBytes buf = Inr u) \<longleftrightarrow>
      length buf = 36 \<and> (\<forall>k<36. if k \<in> {8, 13, 18, 23} then buf ! k = 45 else is_hex (buf ! k)))
   \<and> (ParseBytes buf = Inr u \<longrightarrow> wf_uuid u \<and> hexify u (replicate 36 0) = map lower_byte buf)
   \<and> (ParseBytes buf = Inr u \<longrightarrow> ParseBytes buf' = Inr u' \<longrightarrow>
        (u = u' \<longleftrightarrow> map lower_byte buf = map lower_byte buf'))"
proof (intro conjI)
  have "(\<forall>k<36. if k \<in> {8, 13, 18, 23} then buf ! k = 45 else is_hex (buf ! k))
      \<longleftrightarrow> buf ! 8 = 45 \<and> buf ! 13 = 45 \<and> buf ! 18 = 45 \<and> buf ! 23 = 45 \<and> list_all (hex_at buf) encode"
    (is "?all \<longleftrightarrow> ?parts")
  proof
    assume all: ?all
    have "hex_at buf j" if "j \<in> set encode" for j
      using all that encode_places(2) by (auto simp: hex_at_def list_all_iff)
    then show ?parts using all by (auto simp: list_all_iff)
  next
    assume parts: ?parts
    show ?all
    proof (intro allI impI)
      fix k :: nat assume "k < 36"
      then have "k \<in> {8, 13, 18, 23} \<or> (\<exists>j\<in>set encode. k = j \<or> k = Suc j)"
        using encode_places(1) by (auto simp: list_all_iff)
      then show "if k \<in> {8, 13, 18, 23} then buf ! k = 45 else is_hex (buf ! k)"
        using parts by (auto simp: list_all_iff hex_at_def)
    qed
  qed
  then show "(\<exists>u. ParseBytes buf = Inr u) \<longleftrightarrow>
      length buf = 36 \<and> (\<forall>k<36. if k \<in> {8, 13, 18, 23} then buf ! k = 45 else is_hex (buf ! k))"
    by (simp add: ParseBytes_eq uuid_format_def)
  show "ParseBytes buf = Inr u \<longrightarrow> wf_uuid u \<and> hexify u (replicate 36 0) = map lower_byte buf"
    using uuid_bytes.dec_wf uuid_bytes.enc_dec by (auto simp: hexified_def)
  show "ParseBytes buf = Inr u \<longrightarrow> ParseBytes buf' = Inr u' \<longrightarrow>
        (u = u' \<longleftrightarrow> map lower_byte buf = map lower_byte buf')"
    using uuid_bytes.dec_eq_iff_canon by blast
qed

text \<open>At a concrete input: two spellings of one UUID.\<close>

definition wit_text :: "byte \<Rightarrow> byte list" where
  "wit_text b = replicate 8 b @ [45] @ replicate 4 b @ [45] @ replicate 4 b @ [45] @ replicate 4 b @ [45] @ replicate 12 b"

lemma wit_text_facts:
  "list_all (\<lambda>b. length (wit_text b) = 36
      \<and> list_all (\<lambda>k. if k \<in> set [8, 13, 18, 23] then wit_text b ! k = 45 else is_hex (wit_text b ! k)) [0..<36]) [65, 97]"
  "map lower_byte (wit_text 65) = map lower_byte (wit_text 97) \<and> wit_text 65 \<noteq> wit_text 97"
  by code_simp+

lemma wit_text_format:
  assumes "b \<in> {65, 97}"
  shows "length (wit_text b) = 36
    \<and> (\<forall>k<36. if k \<in> {8, 13, 18, 23} then wit_text b ! k = 45 else is_hex (wit_text b ! k))"
proof -
  have "length (wit_text b) = 36
      \<and> (\<forall>k\<in>{0..<36}. if k \<in> set [8, 13, 18, 23] then wit_text b ! k = 45 else is_hex (wit_text b ! k))"
    using wit_text_facts(1) assms unfolding list_all_iff by auto
  then show ?thesis by (simp add: Ball_def)
qed

theorem ParseBytes_accepts_exactly_witness:
  "wit_text 65 \<noteq> wit_text 97 \<and> ParseBytes (wit_text 65) = ParseBytes (wit_text 97)"
proof -
  obtain u v where "ParseBytes (wit_text 65) = Inr u" "ParseBytes (wit_text 97) = Inr v"
    using ParseBytes_accepts_exactly [of "wit_text 65"] ParseBytes_accepts_exactly [of "wit_text 97"]
      wit_text_format [of 65] wit_text_format [of 97] by blast
  then show ?thesis
    using ParseBytes_accepts_exactly [of "wit_text 65" u "wit_text 97" v] wit_text_facts(2) by simp
qed

lemma le_fold_bit:
  "bit (fold (\<lambda>i x. x OR push_bit (8 * i) (ucast (bs ! i))) [0..<m] (0 :: uint64)) n
     \<longleftrightarrow> n < 64 \<and> (\<exists>i<m. 8 * i \<le> n \<and> n < 8 * i + 8 \<and> bit (bs ! i :: byte) (n - 8 * i))"
proof (induction m)
  case 0
  then show ?case by simp
next
  case (Suc m)
  have "bit (push_bit (8 * m) (ucast (bs ! m)) :: uint64) n
      \<longleftrightarrow> n < 64 \<and> 8 * m \<le> n \<and> n < 8 * m + 8 \<and> bit (bs ! m) (n - 8 * m)"
    using bit_imp_le_length [of "bs ! m" "n - 8 * m"] by (auto simp: bit_simps)
  then show ?case using Suc by (auto simp: bit_or_iff less_Suc_eq)
qed

lemma le_Uint64_bit:
  "bit (le_Uint64 bs) n \<longleftrightarrow> n < 64 \<and> bit (bs ! (n div 8)) (n mod 8)"
proof -
  have "8 * i \<le> n \<and> n < 8 * i + 8 \<longleftrightarrow> i = n div 8" for i
    using div_mult_mod_eq [of n 8] mod_less_divisor [of 8 n] by linarith
  then have pos: "8 * i \<le> n \<and> n < 8 * i + 8 \<and> Q \<longleftrightarrow> i = n div 8 \<and> Q" for i Q by blast
  have "bit (le_Uint64 bs) n \<longleftrightarrow> n < 64 \<and> (\<exists>i<8. i = n div 8 \<and> bit (bs ! i) (n - 8 * i))"
    unfolding le_Uint64_def le_fold_bit pos by simp
  then show ?thesis by (auto simp: minus_mult_div_eq_mod less_mult_imp_div_less)
qed

lemma le_PutUint64_bit:
  assumes "i < 8" and "j < 8"
  shows "bit (le_PutUint64 x ! i) j \<longleftrightarrow> bit x (8 * i + j)"
  using assms by (auto simp: le_PutUint64_def bit_simps)

lemma length_PutUint64 [simp]: "length (le_PutUint64 x) = 8"
  by (simp add: le_PutUint64_def)

interpretation uint64_bytes: codec le_PutUint64 "\<lambda>bs. Inr (le_Uint64 bs) :: unit + uint64" "\<lambda>x. True"
proof
  fix x :: uint64
  show "(Inr (le_Uint64 (le_PutUint64 x)) :: unit + uint64) = Inr x"
    by (simp, intro bit_word_eqI) (simp add: le_Uint64_bit le_PutUint64_bit less_mult_imp_div_less)
qed

lemma NewV4_shape:
  assumes "NewV4 r = Some (u, r2)" and "Uint64 r = Some (x, r1)" and "Uint64 r1 = Some (y, r2')"
  shows "r2 = r2' \<and> u = (le_PutUint64 x)[6 := (le_PutUint64 x ! 6 AND 15) OR 64]
     @ (le_PutUint64 y)[0 := (le_PutUint64 y ! 0 AND 63) OR 128]"
  using assms by (auto simp: NewV4_def Let_def list_update_append nth_append)

lemma bit_15: "bit (15 :: byte) j \<longleftrightarrow> j < 4"
  using bit_mask_iff [where ?'a = "8 word", of 4 j] by (auto simp: mask_eq_exp_minus_1)

lemma bit_63: "bit (63 :: byte) j \<longleftrightarrow> j < 6"
  using bit_mask_iff [where ?'a = "8 word", of 6 j] by (auto simp: mask_eq_exp_minus_1)

lemma bit_64: "bit (64 :: byte) j \<longleftrightarrow> j = 6"
  using bit_exp_iff [where ?'a = "8 word", of 6 j] by auto

lemma bit_128: "bit (128 :: byte) j \<longleftrightarrow> j = 7"
  using bit_exp_iff [where ?'a = "8 word", of 7 j] by auto

text \<open>
  C25. A version 4 UUID takes two numbers from the generator: read back as two little-endian words it is
  those numbers but for six bits, the version field (bits 52 to 55 of the first are 0100) and the
  variant field (bits 6 and 7 of the second are 10), so 122 of its bits are the generator's.
\<close>

theorem NewV4_is_random_but_version:
  assumes "Uint64 r = Some (x, r1)" and "Uint64 r1 = Some (y, r2)"
  shows "\<exists>u. NewV4 r = Some (u, r2) \<and> wf_uuid u
     \<and> (\<forall>n<64. bit (le_Uint64 (take 8 u)) n = (if 52 \<le> n \<and> n < 56 then n = 54 else bit x n))
     \<and> (\<forall>n<64. bit (le_Uint64 (drop 8 u)) n = (if n = 6 \<or> n = 7 then n = 7 else bit y n))"
proof -
  obtain u where new: "NewV4 r = Some (u, r2)" using assms by (simp add: NewV4_def Let_def)
  let ?x = "(le_PutUint64 x)[6 := (le_PutUint64 x ! 6 AND 15) OR 64]"
  let ?y = "(le_PutUint64 y)[0 := (le_PutUint64 y ! 0 AND 63) OR 128]"
  have u: "u = ?x @ ?y" using NewV4_shape [OF new assms] by blast
  have x: "bit (le_Uint64 ?x) n = (if 52 \<le> n \<and> n < 56 then n = 54 else bit x n)" if "n < 64" for n
  proof (cases "n div 8 = 6")
    case True
    obtain m where m: "n mod 8 = m" "m < 8" by simp
    then have n: "n = 48 + m" using True by presburger
    have byte: "?x ! 6 = (le_PutUint64 x ! 6 AND 15) OR 64" by simp
    have "bit (le_Uint64 ?x) n \<longleftrightarrow> bit ((le_PutUint64 x ! 6 AND 15) OR 64) m"
      unfolding le_Uint64_bit True m(1) byte using that by simp
    also have "\<dots> \<longleftrightarrow> (bit x n \<and> m < 4) \<or> m = 6"
      unfolding bit_or_iff bit_and_iff bit_15 bit_64 using le_PutUint64_bit [of 6 m x] m n by simp
    finally show ?thesis using n m by auto
  next
    case False
    then have "bit (le_Uint64 ?x) n = bit x n"
      using that by (simp add: le_Uint64_bit le_PutUint64_bit less_mult_imp_div_less)
    moreover have "(52 \<le> n \<and> n < 56) = False" using False by presburger
    ultimately show ?thesis by (simp only: if_False)
  qed
  have y: "bit (le_Uint64 ?y) n = (if n = 6 \<or> n = 7 then n = 7 else bit y n)" if "n < 64" for n
  proof (cases "n < 8")
    case True
    have byte: "?y ! 0 = (le_PutUint64 y ! 0 AND 63) OR 128" by (simp add: le_PutUint64_def)
    have d: "n div 8 = 0" "n mod 8 = n" using True by simp_all
    have "bit (le_Uint64 ?y) n \<longleftrightarrow> bit ((le_PutUint64 y ! 0 AND 63) OR 128) n"
      unfolding le_Uint64_bit d byte using that by simp
    also have "\<dots> \<longleftrightarrow> (bit y n \<and> n < 6) \<or> n = 7"
      unfolding bit_or_iff bit_and_iff bit_63 bit_128 using le_PutUint64_bit [of 0 n y] True by simp
    finally show ?thesis using True by auto
  next
    case False
    then have "0 < n div 8" by (simp add: div_greater_zero_iff)
    then show ?thesis
      using that False by (simp add: le_Uint64_bit le_PutUint64_bit less_mult_imp_div_less)
  qed
  show ?thesis using x y by (intro exI [of _ u]) (simp add: new [unfolded u] u wf_uuid_def)
qed


text \<open>At a concrete input: the generator whose next two outputs are 0 and all ones.\<close>

definition wit_rand :: Rand where
  "wit_rand = NewISAAC64\<lparr>r_i := 0, r_out := (replicate 256 0)[1 := - 1]\<rparr>"

theorem NewV4_is_random_but_version_witness:
  "\<exists>u. NewV4 wit_rand = Some (u, wit_rand\<lparr>r_i := 2\<rparr>) \<and> wf_uuid u \<and> bit (le_Uint64 (take 8 u)) 54
     \<and> \<not> bit (le_Uint64 (take 8 u)) 53
     \<and> bit (le_Uint64 (drop 8 u)) 7 \<and> \<not> bit (le_Uint64 (drop 8 u)) 6 \<and> bit (le_Uint64 (drop 8 u)) 5"
proof -
  have 0: "Uint64 wit_rand = Some (0, wit_rand\<lparr>r_i := 1\<rparr>)"
    by (simp add: Uint64_def wit_rand_def)
  have 1: "Uint64 (wit_rand\<lparr>r_i := 1\<rparr>) = Some (- 1, wit_rand\<lparr>r_i := 2\<rparr>)"
    by (simp add: Uint64_def wit_rand_def)
  obtain u where "NewV4 wit_rand = Some (u, wit_rand\<lparr>r_i := 2\<rparr>) \<and> wf_uuid u
     \<and> (\<forall>n<64. bit (le_Uint64 (take 8 u)) n = (if 52 \<le> n \<and> n < 56 then n = 54 else bit (0 :: uint64) n))
     \<and> (\<forall>n<64. bit (le_Uint64 (drop 8 u)) n = (if n = 6 \<or> n = 7 then n = 7 else bit (- 1 :: uint64) n))"
    using NewV4_is_random_but_version [OF 0 1] by blast
  then show ?thesis by (intro exI [of _ u]) simp
qed

text \<open>
  A generator is made exactly when the source of randomness, which fills what it is asked to fill or fails, gives
  its 2048 bytes, otherwise \<open>NewGen\<close> panics; a source that fails is asked once, and the generator is a
  function of those bytes alone.
\<close>

theorem NewGen_needs_the_seed:
  assumes "\<And>bs reader'. read_full 2048 reader = (Inr bs, reader') \<Longrightarrow> length bs = 2048"
  shows "(NewGen read_full reader = None \<longleftrightarrow> isl (fst (read_full 2048 reader)))
   \<and> (\<forall>bs reader'. read_full 2048 reader = (Inr bs, reader') \<longrightarrow>
        (\<exists>r. NewGen read_full reader = Some (r, reader') \<and> well_sized r \<and> r_i r = 0
           \<and> r = isaac (NewISAAC64\<lparr>r_buf := map (\<lambda>i. le_Uint64 (drop (i * 8) bs)) [0..<256]\<rparr>)))"
proof -
  have w: "well_sized (NewISAAC64\<lparr>r_buf := map f [0..<256]\<rparr>)" for f
    by (simp add: well_sized_def NewISAAC64_def)
  have eq: "NewISAAC64\<lparr>r_buf := b, r_a := 0, r_b := 0, r_c := 0\<rparr> = NewISAAC64\<lparr>r_buf := b\<rparr>" for b
    by (simp add: NewISAAC64_def)
  obtain res reader' where src: "read_full 2048 reader = (res, reader')" by (cases "read_full 2048 reader")
  show ?thesis
  proof (cases res)
    case (Inl err)
    then show ?thesis using src by (simp add: NewGen_def SeedFrom_def)
  next
    case (Inr bs)
    with src assms have "length bs = 2048" by simp
    then have "for_each (seed_from_body bs) [0..<256] (r_buf NewISAAC64)
        = Some (map (\<lambda>i. le_Uint64 (drop (i * 8) bs)) [0..<256])"
      using seed_words [of bs 256 "r_buf NewISAAC64"] by (simp add: NewISAAC64_def)
    then show ?thesis
      using src Inr by (simp add: NewGen_def SeedFrom_def eq shuffle_is_isaac_rounds [OF w] w)
  qed
qed

end
