(* ===== verification/Env.thy ===== *)
theory Env
  imports Float64
begin

text \<open>
  Reading the configuration from the environment: \<open>internal/env/env.go\<close>, the same file in
  \<open>eventrouter\<close> and in \<open>eventsse\<close>. The environment is a map from names to values. \<open>time.ParseDuration\<close> of
  the standard library is modelled as it is written, on unbounded integers where its checks exclude an
  overflow and modulo \<open>2 ^ 64\<close> where they do not.
\<close>

section \<open>Durations\<close>

definition unitMap :: "(string \<times> int) list" where
  "unitMap =
     [(''ns'', 1), (''us'', 10 ^ 3), ([CHR 0xC2, CHR 0xB5, CHR ''s''], 10 ^ 3), ([CHR 0xCE, CHR 0xBC, CHR ''s''], 10 ^ 3),
      (''ms'', 10 ^ 6), (''s'', 10 ^ 9), (''m'', 60 * 10 ^ 9), (''h'', 3600 * 10 ^ 9)]"

text \<open>The leading digits as a number; \<open>None\<close> on overflow.\<close>

fun leadingInt :: "string \<Rightarrow> int \<Rightarrow> (int \<times> string) option" where
  "leadingInt [] x = Some (x, [])"
| "leadingInt (c # s) x =
     (if \<not> is_digit c then Some (x, c # s)
      else if 2 ^ 63 div 10 < x then None
      else if 2 ^ 63 < x * 10 + digit_val c then None
      else leadingInt s (x * 10 + digit_val c))"

fun leadingFraction :: "string \<Rightarrow> int \<Rightarrow> float64 \<Rightarrow> bool \<Rightarrow> int \<times> float64 \<times> string" where
  "leadingFraction [] x scale overflow = (x, scale, [])"
| "leadingFraction (c # s) x scale overflow =
     (if \<not> is_digit c then (x, scale, c # s)
      else if overflow then leadingFraction s x scale overflow
      else if (2 ^ 63 - 1) div 10 < x then leadingFraction s x scale True
      else if 2 ^ 63 < x * 10 + digit_val c then leadingFraction s x scale True
      else leadingFraction s (x * 10 + digit_val c) (f64_mul scale (Fin 10)) overflow)"

definition in_unit :: "char \<Rightarrow> bool" where
  "in_unit c = (c \<noteq> CHR ''.'' \<and> \<not> is_digit c)"

text \<open>
  One turn of the loop of \<open>ParseDuration\<close>: a number with an optional fraction, then a unit. At least
  one digit is there, before the point or after it.
\<close>

definition duration_number :: "string \<Rightarrow> (int \<times> int \<times> float64 \<times> string) option" where
  "duration_number s =
     (case leadingInt s 0 of
        None \<Rightarrow> None
      | Some (v, s1) \<Rightarrow>
          (let pre = (length s1 \<noteq> length s)
           in if s1 \<noteq> [] \<and> hd s1 = CHR ''.'' then
                (let (f, scale, s2) = leadingFraction (tl s1) 0 (Fin 1) False;
                     post = (length s2 \<noteq> length (tl s1))
                 in if \<not> pre \<and> \<not> post then None else Some (v, f, scale, s2))
              else if \<not> pre then None else Some (v, 0, Fin 1, s1)))"

definition duration_value :: "int \<Rightarrow> int \<Rightarrow> float64 \<Rightarrow> int \<Rightarrow> int option" where
  "duration_value v f scale unit =
     (if 2 ^ 63 div unit < v then None
      else
        (let v = v * unit
         in if 0 < f then
              (let v = v + f64_to_int64 (\<lambda>_. 0)
                             (f64_mul (f64_of_int f) (f64_div (f64_of_int unit) scale))
               in if 2 ^ 63 < v then None else Some v)
            else Some v))"

definition duration_segment :: "string \<Rightarrow> (int \<times> string) option" where
  "duration_segment s =
     (if s = [] \<or> \<not> (hd s = CHR ''.'' \<or> is_digit (hd s)) then None
      else
        (case duration_number s of
           None \<Rightarrow> None
         | Some (v, f, scale, s2) \<Rightarrow>
             (let u = takeWhile in_unit s2; rest = dropWhile in_unit s2
              in if u = [] then None
                 else (case map_of unitMap u of
                         None \<Rightarrow> None
                       | Some unit \<Rightarrow> map_option (\<lambda>v. (v, rest)) (duration_value v f scale unit)))))"

lemma leadingInt_rest: "leadingInt s x = Some (v, r) \<Longrightarrow> length r \<le> length s"
  by (induction s x rule: leadingInt.induct) (auto split: if_splits)

lemma leadingFraction_rest: "leadingFraction s x scale ov = (f, sc, r) \<Longrightarrow> length r \<le> length s"
  by (induction s x scale ov rule: leadingFraction.induct) (auto split: if_splits)

lemma duration_number_rest: "duration_number s = Some (v, f, scale, r) \<Longrightarrow> length r \<le> length s"
  using leadingInt_rest [of s 0] leadingFraction_rest
  by (fastforce simp: duration_number_def Let_def split: option.splits prod.splits if_splits)

lemma duration_segment_rest: "duration_segment s = Some (v, rest) \<Longrightarrow> length rest < length s"
proof -
  assume "duration_segment s = Some (v, rest)"
  then obtain v0 f scale s2 where n: "duration_number s = Some (v0, f, scale, s2)"
    and rest: "rest = dropWhile in_unit s2" and u: "takeWhile in_unit s2 \<noteq> []"
    by (auto simp: duration_segment_def Let_def split: if_splits option.splits prod.splits)
  have "length s2 = length (takeWhile in_unit s2) + length (dropWhile in_unit s2)"
    by (metis takeWhile_dropWhile_id length_append)
  moreover have "0 < length (takeWhile in_unit s2)" using u by blast
  ultimately show ?thesis using duration_number_rest [OF n] unfolding rest by linarith
qed

function duration_loop :: "string \<Rightarrow> int \<Rightarrow> int option" where
  "duration_loop s d =
     (if s = [] then Some d
      else (case duration_segment s of
              None \<Rightarrow> None
            | Some (v, rest) \<Rightarrow>
                (let d = (d + v) mod 2 ^ 64
                 in if 2 ^ 63 < d then None else duration_loop rest d)))"
  by pat_completeness auto
termination by (relation "measure (\<lambda>(s, d). length s)") (auto dest: duration_segment_rest)

declare duration_loop.simps [simp del]

definition time_ParseDuration :: "string \<Rightarrow> int option" where
  "time_ParseDuration s =
     (let neg = (s \<noteq> [] \<and> hd s = CHR ''-'');
          body = (if s \<noteq> [] \<and> (hd s = CHR ''-'' \<or> hd s = CHR ''+'') then tl s else s)
      in if body = ''0'' then Some 0
         else if body = [] then None
         else (case duration_loop body 0 of
                 None \<Rightarrow> None
               | Some d \<Rightarrow> if neg then Some (- d) else if 2 ^ 63 - 1 < d then None else Some d))"

section \<open>The package\<close>

type_synonym environ = "string \<Rightarrow> string option"

definition env_String :: "environ \<Rightarrow> string \<Rightarrow> string \<Rightarrow> string" where
  "env_String env key defaultValue =
     (case env key of None \<Rightarrow> defaultValue | Some val \<Rightarrow> val)"

definition env_Int :: "environ \<Rightarrow> string \<Rightarrow> int \<Rightarrow> int" where
  "env_Int env key defaultValue =
     (case env key of
        None \<Rightarrow> defaultValue
      | Some val \<Rightarrow>
          (let n = strings_TrimSpace val
           in if length n = 0 then defaultValue
              else (case strconv_Atoi n of None \<Rightarrow> defaultValue | Some res \<Rightarrow> res)))"

definition env_Bool :: "environ \<Rightarrow> string \<Rightarrow> bool \<Rightarrow> bool" where
  "env_Bool env key defaultValue =
     (case env key of
        None \<Rightarrow> defaultValue
      | Some val \<Rightarrow>
          (case strconv_ParseBool (strings_TrimSpace val) of None \<Rightarrow> defaultValue | Some res \<Rightarrow> res))"

definition env_Duration :: "environ \<Rightarrow> string \<Rightarrow> int \<Rightarrow> int" where
  "env_Duration env key defaultValue =
     (case env key of
        None \<Rightarrow> defaultValue
      | Some val \<Rightarrow>
          (case time_ParseDuration (strings_TrimSpace val) of None \<Rightarrow> defaultValue | Some res \<Rightarrow> res))"

text \<open>
  How a \<open>main\<close> that reads its configuration ends its start: \<open>Fatal\<close> is a call of a fatal log function,
  which ends the process; \<open>Panicked\<close> a panic.
\<close>

datatype ('q, 'r) startup = Fatal string | Panicked | Started 'q 'r

section \<open>What a duration reads as\<close>

text \<open>A component of a duration: digits and a unit.\<close>

definition component_ok :: "string \<times> string \<Rightarrow> bool" where
  "component_ok c \<longleftrightarrow> fst c \<noteq> [] \<and> list_all is_digit (fst c) \<and> map_of unitMap (snd c) \<noteq> None"

definition component_nanos :: "string \<times> string \<Rightarrow> int" where
  "component_nanos c = digits_val (fst c) * the (map_of unitMap (snd c))"

lemma digits_val_snoc: "digits_val (ds @ [c]) = 10 * digits_val ds + digit_val c"
  by (simp add: digits_val_def)

lemma foldl_digits_mono:
  assumes "list_all is_digit ds" and "0 \<le> x"
  shows "x \<le> foldl (\<lambda>n c. 10 * n + digit_val c) x ds"
  using assms
proof (induction ds arbitrary: x)
  case (Cons c ds)
  have "0 \<le> digit_val c" using Cons.prems by (simp add: is_digit_def digit_val_def)
  then have "x \<le> 10 * x + digit_val c" using Cons.prems by simp
  then show ?case using Cons.IH [of "10 * x + digit_val c"] Cons.prems by simp
qed simp

lemma leadingInt_digits:
  assumes "list_all is_digit ds" and "rest = [] \<or> \<not> is_digit (hd rest)" and "0 \<le> x"
    and "foldl (\<lambda>n c. 10 * n + digit_val c) x ds \<le> 2 ^ 63"
  shows "leadingInt (ds @ rest) x = Some (foldl (\<lambda>n c. 10 * n + digit_val c) x ds, rest)"
  using assms
proof (induction ds arbitrary: x)
  case Nil
  then show ?case by (cases rest) auto
next
  case (Cons c ds)
  have d: "0 \<le> digit_val c" using Cons.prems by (simp add: is_digit_def digit_val_def)
  have "10 * x + digit_val c \<le> 2 ^ 63"
    using foldl_digits_mono [of ds "10 * x + digit_val c"] Cons.prems d by simp
  then show ?case
    using Cons.IH [of "10 * x + digit_val c"] Cons.prems d by (simp add: mult.commute)
qed

lemma unit_shape:
  assumes "map_of unitMap u = Some unit"
  shows "u \<noteq> []" "list_all in_unit u" "0 < unit"
  using assms
  by (auto simp: unitMap_def in_unit_def is_digit_def split: if_splits)

definition starts_number :: "string \<Rightarrow> bool" where
  "starts_number s \<longleftrightarrow> s = [] \<or> hd s = CHR ''.'' \<or> is_digit (hd s)"

lemma component_segment:
  assumes c: "component_ok (ds, u)" and rest: "starts_number rest"
    and fits: "component_nanos (ds, u) \<le> 2 ^ 63"
  shows "duration_segment (ds @ u @ rest) = Some (component_nanos (ds, u), rest)"
proof -
  obtain unit where unit: "map_of unitMap u = Some unit" and ds: "ds \<noteq> []" "list_all is_digit ds"
    using c by (auto simp: component_ok_def)
  note shape = unit_shape [OF unit]
  have pos: "0 \<le> digits_val ds" using foldl_digits_mono [OF ds(2), of 0] by (simp add: digits_val_def)
  have nanos: "component_nanos (ds, u) = digits_val ds * unit" by (simp add: component_nanos_def unit)
  have "digits_val ds \<le> digits_val ds * unit" using pos shape(3) by (simp add: mult_le_cancel_left1)
  then have small: "digits_val ds \<le> 2 ^ 63" using fits nanos by linarith
  have u0: "u = hd u # tl u" "in_unit (hd u)" using shape(1,2) by (cases u; simp)+
  have "\<not> is_digit (hd (u @ rest))" using u0 shape(1) by (simp add: in_unit_def)
  then have lead: "leadingInt (ds @ u @ rest) 0 = Some (digits_val ds, u @ rest)"
    using leadingInt_digits [OF ds(2), of "u @ rest" 0] small by (simp add: digits_val_def)
  have "hd (u @ rest) \<noteq> CHR ''.''" using u0 shape(1) by (simp add: in_unit_def)
  then have num: "duration_number (ds @ u @ rest) = Some (digits_val ds, 0, Fin 1, u @ rest)"
    using lead ds(1) by (simp add: duration_number_def Let_def)
  have "digits_val ds * unit div unit \<le> 2 ^ 63 div unit"
    using fits shape(3) unfolding nanos by (rule zdiv_mono1)
  then have "digits_val ds \<le> 2 ^ 63 div unit" using shape(3) by simp
  then have val: "duration_value (digits_val ds) 0 (Fin 1) unit = Some (digits_val ds * unit)"
    by (simp add: duration_value_def)
  have span: "takeWhile in_unit (u @ rest) = u" "dropWhile in_unit (u @ rest) = rest"
    using shape(2) rest by (cases rest; auto simp: list_all_iff starts_number_def in_unit_def)+
  have "is_digit (hd (ds @ u @ rest))" using ds by (cases ds) simp_all
  then show ?thesis
    using ds(1) shape(1) unit by (simp add: duration_segment_def num span val nanos Let_def)
qed

definition duration_text :: "(string \<times> string) list \<Rightarrow> string" where
  "duration_text cs = concat (map (\<lambda>c. fst c @ snd c) cs)"

lemma component_nonneg: "component_ok c \<Longrightarrow> 0 \<le> component_nanos c"
  using foldl_digits_mono [of "fst c" 0] unit_shape(3) [of "snd c"]
  by (auto simp: component_ok_def component_nanos_def digits_val_def)

lemma duration_text_starts: "list_all component_ok cs \<Longrightarrow> starts_number (duration_text cs)"
proof (cases cs)
  case (Cons c cs')
  assume "list_all component_ok cs"
  with Cons show ?thesis
    by (cases "fst c") (auto simp: duration_text_def starts_number_def component_ok_def)
qed (simp add: duration_text_def starts_number_def)

lemma duration_loop_text:
  assumes "list_all component_ok cs" and "0 \<le> d" and "d + (\<Sum>c\<leftarrow>cs. component_nanos c) \<le> 2 ^ 63"
  shows "duration_loop (duration_text cs) d = Some (d + (\<Sum>c\<leftarrow>cs. component_nanos c))"
  using assms
proof (induction cs arbitrary: d)
  case Nil
  then show ?case by (simp add: duration_text_def duration_loop.simps)
next
  case (Cons c cs)
  obtain ds u where c: "c = (ds, u)" by fastforce
  have nonneg: "0 \<le> component_nanos c" "0 \<le> (\<Sum>c\<leftarrow>cs. component_nanos c)"
    using Cons.prems component_nonneg by (auto simp: list_all_iff intro!: sum_list_nonneg)
  have eq: "duration_text (c # cs) = ds @ u @ duration_text cs" by (simp add: duration_text_def c)
  have "duration_segment (ds @ u @ duration_text cs) = Some (component_nanos c, duration_text cs)"
    using component_segment [of ds u "duration_text cs"] Cons.prems duration_text_starts nonneg c by simp
  moreover have "ds \<noteq> []" using Cons.prems c by (auto simp: component_ok_def)
  moreover have "(d + component_nanos c) mod 2 ^ 64 = d + component_nanos c"
    using Cons.prems nonneg by simp
  ultimately show ?case
    using Cons.IH [of "d + component_nanos c"] Cons.prems nonneg unfolding eq
    by (subst duration_loop.simps) (simp add: Let_def add.assoc)
qed

text \<open>
  A duration in the environment is read exactly: a value written as one or more numbers with units,
  after trimming, is the sum of its components in nanoseconds, as long as the sum is below \<open>2 ^ 63\<close>
  (292 years), and its negative with a minus in front. An unset variable yields the default.
\<close>

theorem duration_is_read_exactly:
  assumes "env key = Some val" and "strings_TrimSpace val = sign @ duration_text cs" and "sign \<in> {[], ''-''}"
    and "cs \<noteq> []" and "list_all component_ok cs" and "(\<Sum>c\<leftarrow>cs. component_nanos c) < 2 ^ 63"
  shows "env_Duration env key defaultValue
     = (if sign = [] then (\<Sum>c\<leftarrow>cs. component_nanos c) else - (\<Sum>c\<leftarrow>cs. component_nanos c))"
proof -
  obtain ds u cs' where cs: "cs = (ds, u) # cs'" using assms(4) by (cases cs) auto
  then have ok: "ds \<noteq> []" "list_all is_digit ds" "u \<noteq> []"
    using assms(5) unit_shape(1) by (auto simp: component_ok_def)
  have body: "duration_text cs \<noteq> []" "hd (duration_text cs) = hd ds" "length (duration_text cs) \<noteq> 1"
    using ok by (auto simp: cs duration_text_def neq_Nil_conv)
  have "is_digit (hd ds)" using ok by (cases ds) simp_all
  then have hd: "hd (duration_text cs) \<noteq> CHR ''-''" "hd (duration_text cs) \<noteq> CHR ''+''"
    unfolding body(2) by (auto simp: is_digit_def)
  have "duration_text cs \<noteq> ''0''" using body(3) by auto
  moreover have "duration_loop (duration_text cs) 0 = Some (\<Sum>c\<leftarrow>cs. component_nanos c)"
    using duration_loop_text [OF assms(5), of 0] assms(6) by simp
  ultimately have "time_ParseDuration (sign @ duration_text cs)
      = Some (if sign = [] then (\<Sum>c\<leftarrow>cs. component_nanos c) else - (\<Sum>c\<leftarrow>cs. component_nanos c))"
    using assms(3,6) body(1) hd by (auto simp: time_ParseDuration_def Let_def)
  then show ?thesis using assms(1,2) by (simp add: env_Duration_def)
qed

text \<open>At a concrete input: minus one hour and thirty minutes, with a space on either side.\<close>

theorem duration_is_read_exactly_witness:
  "env_Duration [''K'' \<mapsto> '' -1h30m '' ] ''K'' 0 = - 5400 * 10 ^ 9"
proof -
  let ?cs = "[(''1'', ''h''), (''30'', ''m'')]"
  have "strings_TrimSpace '' -1h30m '' = ''-'' @ duration_text ?cs"
    by code_simp
  moreover have "list_all component_ok ?cs" by code_simp
  moreover have "(\<Sum>c\<leftarrow>?cs. component_nanos c) = 5400 * 10 ^ 9" by code_simp
  ultimately show ?thesis
    using duration_is_read_exactly [of "[''K'' \<mapsto> '' -1h30m '' ]" "''K''" "'' -1h30m ''" "''-''" ?cs 0] by simp
qed

end
