(* ===== verification/HttpClient.thy ===== *)
theory HttpClient
  imports Http
begin

text \<open>
  The HTTP client of the event router: \<open>eventrouter/internal/helpers/http/client.go\<close> (the transports
  and the timeout) and \<open>tracer.go\<close> (the transport that prints what passes through it). Durations are
  nanoseconds. \<open>net/http\<close>'s transport is a record of the fields the code sets, with the zero value and
  \<open>DefaultTransport\<close> of the standard library; sending with it is an argument.
\<close>

section \<open>Transports\<close>

record http_transport =
  ht_InsecureSkipVerify :: bool
  ht_MaxIdleConns :: int
  ht_MaxConnsPerHost :: int
  ht_MaxIdleConnsPerHost :: int
  ht_TLSHandshakeTimeout :: int
  ht_ExpectContinueTimeout :: int

definition second :: int where
  "second = 10 ^ 9"

definition zero_transport :: http_transport where
  "zero_transport =
     \<lparr>ht_InsecureSkipVerify = False, ht_MaxIdleConns = 0, ht_MaxConnsPerHost = 0, ht_MaxIdleConnsPerHost = 0,
      ht_TLSHandshakeTimeout = 0, ht_ExpectContinueTimeout = 0\<rparr>"

definition http_DefaultTransport :: http_transport where
  "http_DefaultTransport =
     zero_transport\<lparr>ht_MaxIdleConns := 100, ht_TLSHandshakeTimeout := 10 * second, ht_ExpectContinueTimeout := second\<rparr>"

definition defaultTransport :: http_transport where
  "defaultTransport =
     (let t = http_DefaultTransport;
          t = t\<lparr>ht_MaxIdleConns := 50\<rparr>;
          t = t\<lparr>ht_MaxConnsPerHost := 50\<rparr>;
          t = t\<lparr>ht_MaxIdleConnsPerHost := 50\<rparr>;
          t = t\<lparr>ht_TLSHandshakeTimeout := 20 * second\<rparr>
      in t\<lparr>ht_ExpectContinueTimeout := 2 * second\<rparr>)"

datatype round_tripper = Transport http_transport | Tracer round_tripper

record ClientOpts =
  co_Verbose :: bool
  co_Insecure :: bool
  co_Timeout :: int

record http_client =
  hc_Transport :: round_tripper
  hc_Timeout :: int

definition ClientFromOpts :: "ClientOpts \<Rightarrow> http_client" where
  "ClientFromOpts opts =
     (let transport = Transport defaultTransport;
          transport = (if co_Insecure opts then Transport (zero_transport\<lparr>ht_InsecureSkipVerify := True\<rparr>) else transport);
          transport = (if co_Verbose opts then Tracer transport else transport);
          timeout = 20 * second;
          timeout = (if 0 < co_Timeout opts then co_Timeout opts else timeout)
      in \<lparr>hc_Transport = transport, hc_Timeout = timeout\<rparr>)"

section \<open>Sending\<close>

text \<open>
  \<open>dump_req\<close> and \<open>dump_resp\<close> are \<open>DumpRequestOut\<close> and \<open>DumpResponse\<close>, \<open>watch\<close> the query parameter of that
  name, \<open>msg\<close> an error's text. The state is what was written to the standard error and the world.
\<close>

fun RoundTrip ::
  "('req \<Rightarrow> 'e + string) \<Rightarrow> ('resp \<Rightarrow> bool \<Rightarrow> 'e + string) \<Rightarrow> ('req \<Rightarrow> string) \<Rightarrow> ('e \<Rightarrow> string)
     \<Rightarrow> (http_transport \<Rightarrow> 'req \<Rightarrow> 'w \<Rightarrow> ('e + 'resp) \<times> 'w) \<Rightarrow> round_tripper \<Rightarrow> 'req \<Rightarrow> string \<times> 'w
     \<Rightarrow> ('e + 'resp) \<times> string \<times> 'w" where
  "RoundTrip dump_req dump_resp watch msg send (Transport t) req (out, w) =
     (let (res, w') = send t req w in (res, out, w'))"
| "RoundTrip dump_req dump_resp watch msg send (Tracer t) req (out, w) =
     (case dump_req req of
        Inl err \<Rightarrow> (Inl err, out, w)
      | Inr b \<Rightarrow>
          (case RoundTrip dump_req dump_resp watch msg send t req (out @ b @ newline, w) of
             (Inl err, out, w) \<Rightarrow> (Inl err, out @ msg err @ newline, w)
           | (Inr resp, out, w) \<Rightarrow>
               (case dump_resp resp (watch req \<noteq> ''true'') of
                  Inl err \<Rightarrow> (Inl err, out, w)
                | Inr b \<Rightarrow> (Inr resp, out @ b @ newline, w))))"

fun inner_transport :: "round_tripper \<Rightarrow> http_transport" where
  "inner_transport (Transport t) = t"
| "inner_transport (Tracer t) = inner_transport t"

fun tracers :: "round_tripper \<Rightarrow> nat" where
  "tracers (Transport t) = 0"
| "tracers (Tracer t) = Suc (tracers t)"

lemma RoundTrip_cases:
  "(snd (snd (RoundTrip dump_req dump_resp watch msg send rt req (out, w))) = w
      \<and> isl (fst (RoundTrip dump_req dump_resp watch msg send rt req (out, w))) \<and> 0 < tracers rt \<and> isl (dump_req req))
   \<or> (snd (snd (RoundTrip dump_req dump_resp watch msg send rt req (out, w))) = snd (send (inner_transport rt) req w)
      \<and> (fst (RoundTrip dump_req dump_resp watch msg send rt req (out, w)) = fst (send (inner_transport rt) req w)
         \<or> (isl (fst (RoundTrip dump_req dump_resp watch msg send rt req (out, w))) \<and> 0 < tracers rt
            \<and> (\<exists>resp. fst (send (inner_transport rt) req w) = Inr resp \<and> isl (dump_resp resp (watch req \<noteq> ''true''))))))"
proof (induction rt arbitrary: out)
  case (Transport t)
  then show ?case by (simp split: prod.splits)
next
  case (Tracer t)
  show ?case
  proof (cases "dump_req req")
    case (Inr b)
    obtain res out' w' where r: "RoundTrip dump_req dump_resp watch msg send t req (out @ b @ newline, w) = (res, out', w')"
      by (metis surj_pair)
    show ?thesis
      using Tracer.IH [of "out @ b @ newline"] Inr r by (auto split: sum.splits)
  qed simp
qed

text \<open>
  A client of this package sends a request at most once and always within a positive timeout. Without
  tracing its outcome is the transport's. With tracing it differs in two ways: a request that cannot be
  printed is not sent, and a request that was sent and answered is reported as failed when the answer
  cannot be printed; in every other case the outcome and the effect are the transport's.
\<close>

theorem client_sends_at_most_once:
  assumes "RoundTrip dump_req dump_resp watch msg send (hc_Transport (ClientFromOpts opts)) req (out, w) = (res, out', w')"
    and "send (inner_transport (hc_Transport (ClientFromOpts opts))) req w = (answer, w_sent)"
  shows "0 < hc_Timeout (ClientFromOpts opts)
    \<and> ((w' = w \<and> isl res \<and> co_Verbose opts \<and> isl (dump_req req))
       \<or> (w' = w_sent
          \<and> (res = answer
             \<or> isl res \<and> co_Verbose opts
               \<and> (\<exists>resp. answer = Inr resp \<and> isl (dump_resp resp (watch req \<noteq> ''true''))))))"
proof -
  have "0 < tracers (hc_Transport (ClientFromOpts opts)) \<longleftrightarrow> co_Verbose opts"
    by (simp add: ClientFromOpts_def Let_def)
  moreover have "0 < hc_Timeout (ClientFromOpts opts)"
    by (simp add: ClientFromOpts_def Let_def second_def)
  ultimately show ?thesis
    using RoundTrip_cases [of dump_req dump_resp watch msg send "hc_Transport (ClientFromOpts opts)" req out w] assms
    by simp
qed

text \<open>At a concrete input: a traced request whose answer cannot be printed was sent all the same.\<close>

theorem client_sends_at_most_once_witness:
  "\<exists>out'. RoundTrip (\<lambda>req. Inr req) (\<lambda>resp b. Inl ''unreadable'') (\<lambda>req. []) (\<lambda>e. e)
      (\<lambda>t req w. (Inr ''200'', w @ [req])) (hc_Transport (ClientFromOpts \<lparr>co_Verbose = True, co_Insecure = False, co_Timeout = 0\<rparr>))
      ''POST /'' ([], []) = (Inl ''unreadable'', out', [''POST /''])
    \<and> hc_Timeout (ClientFromOpts \<lparr>co_Verbose = True, co_Insecure = False, co_Timeout = 0\<rparr>) = 20 * second"
proof -
  let ?opts = "\<lparr>co_Verbose = True, co_Insecure = False, co_Timeout = 0\<rparr>"
  let ?send = "\<lambda>(t :: http_transport) req w. (Inr ''200'' :: string + string, w @ [req])"
  obtain res out' w' where r: "RoundTrip (\<lambda>req. Inr req) (\<lambda>resp b. Inl ''unreadable'') (\<lambda>req. []) (\<lambda>e. e)
      ?send (hc_Transport (ClientFromOpts ?opts)) ''POST /'' ([], []) = (res, out', w')"
    by (metis surj_pair)
  have "res = Inl ''unreadable''"
    using r by (auto simp: ClientFromOpts_def Let_def)
  then show ?thesis
    using client_sends_at_most_once [OF r refl] r by (auto simp: ClientFromOpts_def Let_def)
qed

end
