(* ===== verification/RouterMain.thy ===== *)
theory RouterMain
  imports Env HttpClient Router Queues
begin

text \<open>
  How \<open>eventrouter/main.go\<close> puts the event router together: the settings read from the environment and
  the flags, the notification queue, the pusher (\<open>NewPusher\<close>, \<open>NewObjectResolver\<close>) and the router
  (\<open>NewEventRouter\<close>), and the router's \<open>Run\<close> over what the informer delivers. The constructors of the
  Kubernetes packages are the fields of a record; the flag package is a function from the settings
  with their defaults to the settings.
\<close>

section \<open>Settings\<close>

record settings =
  set_kubeconfig :: string
  set_debug :: bool
  set_insecure :: bool
  set_resyncInterval :: int
  set_throttlePeriod :: int
  set_namespace :: string
  set_queueMaxCapacity :: int
  set_queueWorkerThreads :: int

definition default_settings :: "environ \<Rightarrow> settings" where
  "default_settings env =
     \<lparr>set_kubeconfig = '''',
      set_debug = env_Bool env ''EVENT_ROUTER_DEBUG'' False,
      set_insecure = env_Bool env ''EVENT_ROUTER_INSECURE'' False,
      set_resyncInterval = env_Duration env ''EVENT_ROUTER_RESYNC_INTERVAL'' (180 * second),
      set_throttlePeriod = env_Duration env ''EVENT_ROUTER_THROTTLE_PERIOD'' 0,
      set_namespace = env_String env ''EVENT_ROUTER_NAMESPACE'' '''',
      set_queueMaxCapacity = env_Int env ''EVENT_ROUTER_QUEUE_MAX_CAPACITY'' 10,
      set_queueWorkerThreads = env_Int env ''EVENT_ROUTER_QUEUE_WORKER_THREADS'' 50\<rparr>"

section \<open>The parts\<close>

text \<open>
  \<open>BuildConfigFromFlags\<close> on a path and \<open>InClusterConfig\<close>, the assignments to the configuration's fields
  \<open>QPS\<close> and \<open>WrapTransport\<close>, and the constructors of the clients, of the discovery cache and of the mapper.
\<close>

record ('e, 'cfg, 'cs, 'dyn, 'disc, 'cache, 'mapper) kube =
  ku_BuildConfig :: "string \<Rightarrow> 'e + 'cfg"
  ku_InCluster :: "'e + 'cfg"
  ku_QPS :: "int \<Rightarrow> 'cfg \<Rightarrow> 'cfg"
  ku_WrapTransport :: "(round_tripper \<Rightarrow> round_tripper) \<Rightarrow> 'cfg \<Rightarrow> 'cfg"
  ku_clientset :: "'cfg \<Rightarrow> 'e + 'cs"
  ku_dynamic :: "'cfg \<Rightarrow> 'e + 'dyn"
  ku_discovery :: "'cfg \<Rightarrow> 'e + 'disc"
  ku_memCache :: "'disc \<Rightarrow> 'cache"
  ku_mapper :: "'cache \<Rightarrow> 'mapper"

record ('dyn, 'disc, 'cache, 'mapper) resolver =
  or_dynamicClient :: 'dyn
  or_discoveryClient :: 'disc
  or_mapper :: 'mapper
  or_mapperCache :: 'cache

definition NewObjectResolver ::
  "('e, 'cfg, 'cs, 'dyn, 'disc, 'cache, 'mapper) kube \<Rightarrow> 'cfg \<Rightarrow> 'e + ('dyn, 'disc, 'cache, 'mapper) resolver" where
  "NewObjectResolver ku restConfig =
     (case ku_dynamic ku restConfig of
        Inl err \<Rightarrow> Inl err
      | Inr dynamicClient \<Rightarrow>
          (case ku_discovery ku restConfig of
             Inl err \<Rightarrow> Inl err
           | Inr discoveryClient \<Rightarrow>
               (let mapperCache = ku_memCache ku discoveryClient
                in Inr \<lparr>or_dynamicClient = dynamicClient, or_discoveryClient = discoveryClient,
                        or_mapper = ku_mapper ku mapperCache, or_mapperCache = mapperCache\<rparr>)))"

record ('cfg, 'q) PusherOpts =
  po_RESTConfig :: 'cfg
  po_Queue :: 'q
  po_Verbose :: bool
  po_Insecure :: bool

record ('dyn, 'disc, 'cache, 'mapper, 'q) pusher =
  pu_objectResolver :: "('dyn, 'disc, 'cache, 'mapper) resolver"
  pu_notifyQueue :: 'q
  pu_httpClient :: http_client
  pu_verbose :: bool

definition NewPusher ::
  "('e, 'cfg, 'cs, 'dyn, 'disc, 'cache, 'mapper) kube \<Rightarrow> ('cfg, 'q) PusherOpts
     \<Rightarrow> 'e + ('dyn, 'disc, 'cache, 'mapper, 'q) pusher" where
  "NewPusher ku opts =
     (case NewObjectResolver ku (po_RESTConfig opts) of
        Inl err \<Rightarrow> Inl err
      | Inr objectResolver \<Rightarrow>
          Inr \<lparr>pu_objectResolver = objectResolver,
               pu_notifyQueue = po_Queue opts,
               pu_httpClient = ClientFromOpts \<lparr>co_Verbose = po_Verbose opts, co_Insecure = po_Insecure opts, co_Timeout = 0\<rparr>,
               pu_verbose = po_Verbose opts\<rparr>)"

record ('cs, 'h) EventRouterOpts =
  ero_RESTClient :: 'cs
  ero_Handler :: 'h
  ero_ResyncInterval :: int
  ero_ThrottlePeriod :: int
  ero_Namespace :: string

text \<open>The list and watch, and the informer, are what they were made with.\<close>

record 'cs list_watch =
  lw_client :: 'cs
  lw_resource :: string
  lw_namespace :: string

record ('cs, 'h) EventRouter =
  er_handler :: 'h
  er_informer :: "'cs list_watch \<times> int"
  er_throttlePeriod :: int

definition NewEventRouter :: "('cs, 'h) EventRouterOpts \<Rightarrow> ('cs, 'h) EventRouter" where
  "NewEventRouter opts =
     (let lw = \<lparr>lw_client = ero_RESTClient opts, lw_resource = ''events'', lw_namespace = ero_Namespace opts\<rparr>;
          si = (lw, ero_ResyncInterval opts)
      in \<lparr>er_handler = ero_Handler opts, er_informer = si, er_throttlePeriod = ero_ThrottlePeriod opts\<rparr>)"

section \<open>Run\<close>

text \<open>
  What the informer delivers to the three callbacks \<open>Run\<close> registers, one at a time, each with the clock then. A
  panic in a callback ends the program: \<open>None\<close>. \<open>handler\<close> is what the handler's \<open>Handle\<close> does;
  \<open>verbose\<close> is \<open>klog.V(6).Enabled()\<close>.
\<close>

datatype 'x delivery =
    Added "'x informer_object"
  | Updated "'x informer_object" "'x informer_object"
  | Deleted "'x informer_object"

fun callback ::
  "('x event \<Rightarrow> 'w \<Rightarrow> 'j list \<times> 'w) \<Rightarrow> int \<Rightarrow> bool \<Rightarrow> timestamp \<times> 'x delivery \<Rightarrow> 'w \<Rightarrow> ('j list \<times> 'w) option" where
  "callback handler period verbose (now, Added ob) w = OnAdd handler period now ob w"
| "callback handler period verbose (now, Updated old ob) w = OnUpdate handler period now old ob w"
| "callback handler period verbose (now, Deleted ob) w = OnDelete verbose ob w"

fun router_Run ::
  "('h \<Rightarrow> 'x event \<Rightarrow> 'w \<Rightarrow> 'j list \<times> 'w) \<Rightarrow> ('cs, 'h) EventRouter \<Rightarrow> bool \<Rightarrow> (timestamp \<times> 'x delivery) list \<Rightarrow> 'w
     \<Rightarrow> ('j list \<times> 'w) option" where
  "router_Run handle er verbose [] w = Some ([], w)"
| "router_Run handle er verbose (d # ds) w =
     (case callback (handle (er_handler er)) (er_throttlePeriod er) verbose d w of
        None \<Rightarrow> None
      | Some (jobs, w1) \<Rightarrow> map_option (\<lambda>(jobs', w2). (jobs @ jobs', w2)) (router_Run handle er verbose ds w1))"

section \<open>main\<close>

text \<open>The configuration of the Kubernetes clients; \<open>v4\<close> is \<open>klog.V(4).Enabled()\<close>.\<close>

definition rest_config ::
  "('e, 'cfg, 'cs, 'dyn, 'disc, 'cache, 'mapper) kube \<Rightarrow> bool \<Rightarrow> string \<Rightarrow> 'e + 'cfg" where
  "rest_config ku v4 kubeconfig =
     (case (if 0 < length kubeconfig then ku_BuildConfig ku kubeconfig else ku_InCluster ku) of
        Inl err \<Rightarrow> Inl err
      | Inr cfg \<Rightarrow>
          (let cfg = ku_QPS ku (- 1) cfg
           in Inr (if v4 then ku_WrapTransport ku Tracer cfg else cfg)))"

definition router_main ::
  "('e, 'cfg, 'cs, 'dyn, 'disc, 'cache, 'mapper) kube \<Rightarrow> bool \<Rightarrow> (settings \<Rightarrow> settings) \<Rightarrow> environ
     \<Rightarrow> ('j chan_queue, ('cs, ('dyn, 'disc, 'cache, 'mapper, 'j chan_queue) pusher) EventRouter) startup" where
  "router_main ku v4 flags env =
     (let s = flags (default_settings env)
      in case rest_config ku v4 (set_kubeconfig s) of
           Inl err \<Rightarrow> Fatal ''unable to init kubeconfig''
         | Inr cfg \<Rightarrow>
             (case ku_clientset ku cfg of
                Inl err \<Rightarrow> Fatal ''unable to create kubernetes clientset''
              | Inr clientSet \<Rightarrow>
                  (case Option.bind (NewQueue (set_queueMaxCapacity s) (set_queueWorkerThreads s)) Run of
                     None \<Rightarrow> Panicked
                   | Some q \<Rightarrow>
                       (case NewPusher ku \<lparr>po_RESTConfig = cfg, po_Queue = q, po_Verbose = set_debug s,
                                           po_Insecure = set_insecure s\<rparr> of
                          Inl err \<Rightarrow> Fatal ''unable to create the event notifier''
                        | Inr handler \<Rightarrow>
                            Started q
                              (NewEventRouter
                                 \<lparr>ero_RESTClient = clientSet, ero_Handler = handler, ero_ResyncInterval = 0,
                                  ero_ThrottlePeriod = set_throttlePeriod s, ero_Namespace = set_namespace s\<rparr>)))))"

lemma router_main_Started:
  fixes q :: "'j chan_queue"
  assumes "router_main ku v4 flags env = Started q er"
  defines "s \<equiv> flags (default_settings env)"
  shows "Option.bind (NewQueue (set_queueMaxCapacity s) (set_queueWorkerThreads s)) Run = Some q"
    and "er_throttlePeriod er = set_throttlePeriod s" and "lw_namespace (fst (er_informer er)) = set_namespace s"
    and "snd (er_informer er) = 0" and "pu_notifyQueue (er_handler er) = q"
    and "hc_Timeout (pu_httpClient (er_handler er)) = 20 * second"
proof -
  obtain cfg where cfg: "rest_config ku v4 (set_kubeconfig s) = Inr cfg"
    using assms by (auto simp: router_main_def Let_def split: sum.splits)
  obtain cs where cs: "ku_clientset ku cfg = Inr cs"
    using assms cfg by (auto simp: router_main_def Let_def split: sum.splits)
  obtain q' :: "'j chan_queue" where q: "Option.bind (NewQueue (set_queueMaxCapacity s) (set_queueWorkerThreads s)) Run = Some q'"
    using assms(1) cfg cs by (auto simp: router_main_def Let_def s_def split: option.splits)
  let ?opts = "\<lparr>po_RESTConfig = cfg, po_Queue = q', po_Verbose = set_debug s, po_Insecure = set_insecure s\<rparr>"
  obtain h where h: "NewPusher ku ?opts = Inr h"
    using assms(1) cfg cs q unfolding s_def by (cases "NewPusher ku ?opts") (simp_all add: router_main_def Let_def s_def)
  have st: "q' = q" "er = NewEventRouter \<lparr>ero_RESTClient = cs, ero_Handler = h, ero_ResyncInterval = 0,
      ero_ThrottlePeriod = set_throttlePeriod s, ero_Namespace = set_namespace s\<rparr>"
    using assms(1) cfg cs q h by (simp_all add: router_main_def Let_def s_def)
  show "Option.bind (NewQueue (set_queueMaxCapacity s) (set_queueWorkerThreads s)) Run = Some q"
    using q st(1) by simp
  show "er_throttlePeriod er = set_throttlePeriod s" "lw_namespace (fst (er_informer er)) = set_namespace s"
    "snd (er_informer er) = 0"
    by (simp_all add: st(2) NewEventRouter_def Let_def)
  show "pu_notifyQueue (er_handler er) = q" "hc_Timeout (pu_httpClient (er_handler er)) = 20 * second"
    using h st(1) by (auto simp: st(2) NewEventRouter_def Let_def NewPusher_def ClientFromOpts_def split: sum.splits)
qed

lemma router_main_queue:
  assumes "router_main ku v4 flags env = Started q er"
  shows "chan_init (set_queueMaxCapacity (flags (default_settings env)))
     (set_queueWorkerThreads (flags (default_settings env))) q"
  using router_main_Started(1) [OF assms] by (simp add: chan_init_def)

text \<open>A Kubernetes that answers, for the witnesses.\<close>

definition wit_kube :: "(string, unit, unit, unit, unit, unit, unit) kube" where
  "wit_kube =
     \<lparr>ku_BuildConfig = (\<lambda>path. Inl path), ku_InCluster = Inr (), ku_QPS = (\<lambda>q c. c), ku_WrapTransport = (\<lambda>f c. c),
      ku_clientset = Inr, ku_dynamic = Inr, ku_discovery = Inr, ku_memCache = (\<lambda>d. d), ku_mapper = (\<lambda>c. c)\<rparr>"

section \<open>Properties\<close>

text \<open>
  The resync interval is read and never used: \<open>main\<close> does not pass it on, so whatever the variable
  holds, the same queue and router are started, and the router's informer never resyncs; the
  throttle period and the namespace do reach it.
\<close>

theorem resync_interval_has_no_effect:
  assumes "router_main ku v4 (\<lambda>s. s) env = Started q er"
  shows "router_main ku v4 (\<lambda>s. s)
           (env(''EVENT_ROUTER_RESYNC_INTERVAL'' := v)) = Started q er
       \<and> lw_namespace (fst (er_informer er)) = env_String env ''EVENT_ROUTER_NAMESPACE'' ''''
       \<and> snd (er_informer er) = 0
       \<and> er_throttlePeriod er = env_Duration env ''EVENT_ROUTER_THROTTLE_PERIOD'' 0
       \<and> hc_Timeout (pu_httpClient (er_handler er)) = 20 * second"
proof -
  let ?env = "env(''EVENT_ROUTER_RESYNC_INTERVAL'' := v)"
  have "default_settings ?env
      = (default_settings env)\<lparr>set_resyncInterval := env_Duration ?env ''EVENT_ROUTER_RESYNC_INTERVAL'' (180 * second)\<rparr>"
    by (simp add: default_settings_def env_Bool_def env_Duration_def env_String_def env_Int_def)
  then have "router_main ku v4 (\<lambda>s. s) ?env = Started q er"
    using assms by (simp add: router_main_def Let_def cong: sum.case_cong option.case_cong)
  then show ?thesis
    using router_main_Started(2-4,6) [OF assms] by (simp add: default_settings_def)
qed

theorem resync_interval_has_no_effect_witness:
  "\<exists>q er. router_main wit_kube False (\<lambda>s. s)
      [''EVENT_ROUTER_RESYNC_INTERVAL'' \<mapsto> ''1m'']
      = (Started q er :: (string chan_queue, (unit, (unit, unit, unit, unit, string chan_queue) pusher) EventRouter) startup) \<and> snd (er_informer er) = 0"
proof -
  obtain q er where "router_main wit_kube False (\<lambda>s. s) Map.empty
      = (Started q er :: (string chan_queue, (unit, (unit, unit, unit, unit, string chan_queue) pusher) EventRouter) startup)"
    by (simp add: router_main_def default_settings_def env_Int_def NewQueue_def Run_def NewPusher_def
        NewObjectResolver_def Let_def rest_config_def wit_kube_def)
  from resync_interval_has_no_effect [OF this, of "Some ''1m''"] show ?thesis by auto
qed

text \<open>
  \<open>main\<close> starts exactly when the Kubernetes clients can be made and neither the queue's capacity nor its
  number of threads is negative; a negative one, which the environment may hold, panics before the router
  is made. The queue it starts is in its initial state.
\<close>

theorem main_starts_iff:
  assumes s: "s = flags (default_settings env)"
    and "\<And>path. \<not> isl (ku_BuildConfig ku path)" and "\<not> isl (ku_InCluster ku)" and "\<And>cfg. \<not> isl (ku_clientset ku cfg)"
    and "\<And>cfg. \<not> isl (ku_dynamic ku cfg)" and "\<And>cfg. \<not> isl (ku_discovery ku cfg)"
  shows "if set_queueMaxCapacity s < 0 \<or> set_queueWorkerThreads s < 0
         then router_main ku v4 flags env = Panicked
         else \<exists>q er. router_main ku v4 flags env = Started q er
                \<and> chan_init (set_queueMaxCapacity s) (set_queueWorkerThreads s) q"
proof -
  have "\<not> isl (rest_config ku v4 (set_kubeconfig s))"
    using assms(2) [of "set_kubeconfig s"] assms(3) by (auto simp: rest_config_def Let_def split: sum.splits if_splits)
  then obtain cfg where cfg: "rest_config ku v4 (set_kubeconfig s) = Inr cfg" by (auto simp: isl_def) (metis sum.exhaust)
  obtain cs dyn disc where "ku_clientset ku cfg = Inr cs" "ku_dynamic ku cfg = Inr dyn" "ku_discovery ku cfg = Inr disc"
    using assms(4-6) [of cfg] by (auto simp: isl_def) (metis sum.exhaust)
  with cfg show ?thesis
    by (auto simp: router_main_def s [symmetric] chan_init_def NewQueue_def Run_def NewPusher_def NewObjectResolver_def
        Let_def)
qed

section \<open>No worker threads\<close>

definition idle_pool :: "'j chan_queue \<Rightarrow> bool" where
  "idle_pool s \<longleftrightarrow> p_workers s = [] \<and> p_executed s = {#} \<and> p_wg s = size (q_accepted s)"

lemma idle_pool_step:
  assumes "chan_step s t" and "idle_pool s"
  shows "idle_pool t \<and> p_wg s \<le> p_wg t
    \<and> (0 < p_wg s \<and> p_terminate s = TWaiting \<longrightarrow> p_terminate t = TWaiting)"
  using assms(1)
proof cases
  case queue
  then show ?thesis
    using assms(2) by cases (auto simp: idle_pool_def elim: worker_stepE)
next
  case (queue_quit i)
  then show ?thesis using assms(2) by (auto simp: idle_pool_def elim: quit_stepE)
qed (use assms(2) in \<open>auto simp: idle_pool_def\<close>)

lemma idle_pool_run:
  assumes "chan_step\<^sup>*\<^sup>* s t" and "idle_pool s"
  shows "idle_pool t \<and> p_wg s \<le> p_wg t
    \<and> (0 < p_wg s \<and> p_terminate s = TWaiting \<longrightarrow> p_terminate t = TWaiting)"
  using assms
proof (induction rule: rtranclp_induct)
  case (step t u)
  then show ?case using idle_pool_step [of t u] by fastforce
qed auto

text \<open>
  With zero worker threads, which the environment may ask for and \<open>main\<close> accepts, the queue accepts jobs and
  never runs one: in no interleaving is a job executed, and once one is accepted a \<open>Terminate\<close> that waits
  then waits for ever.
\<close>

theorem zero_threads_run_nothing:
  assumes "router_main ku v4 flags env = Started q er"
    and "set_queueWorkerThreads (flags (default_settings env)) = 0"
    and "chan_step\<^sup>*\<^sup>* q s" and "chan_step\<^sup>*\<^sup>* s t"
  shows "p_executed t = {#}
    \<and> (q_accepted s \<noteq> {#} \<and> p_terminate s = TWaiting \<longrightarrow> p_terminate t = TWaiting)"
proof -
  have "idle_pool q"
    using router_main_Started(1) [OF assms(1)] assms(2)
    by (auto simp: NewQueue_def Run_def idle_pool_def split: if_splits)
  then have s: "idle_pool s" using idle_pool_run [OF assms(3)] by blast
  have "0 < p_wg s \<longleftrightarrow> q_accepted s \<noteq> {#}" using s by (simp add: idle_pool_def nonempty_has_size)
  then show ?thesis using idle_pool_run [OF assms(4) s] by (auto simp: idle_pool_def)
qed

text \<open>At a concrete input: a job is accepted, and \<open>Terminate\<close> waits for it.\<close>

theorem zero_threads_run_nothing_witness:
  "\<exists>(q :: string chan_queue) er s.
     router_main wit_kube False
       (\<lambda>s. s\<lparr>set_queueWorkerThreads := 0\<rparr>) Map.empty = Started q er
     \<and> chan_step\<^sup>*\<^sup>* q s \<and> q_accepted s = {#''job''#} \<and> p_terminate s = TWaiting
     \<and> (\<forall>t. chan_step\<^sup>*\<^sup>* s t \<longrightarrow> p_executed t = {#} \<and> p_terminate t = TWaiting)"
proof -
  let ?main = "router_main wit_kube False (\<lambda>s. s\<lparr>set_queueWorkerThreads := 0\<rparr>) Map.empty"
  obtain q :: "string chan_queue" and er where m: "?main = Started q er"
    and q: "q_adding q = {#} \<and> q_sending q = {#} \<and> q_accepted q = {#} \<and> p_running q \<and> \<not> p_panic q \<and> p_terminate q = TIdle"
    by (simp add: router_main_def default_settings_def env_Int_def NewQueue_def Run_def NewPusher_def
        NewObjectResolver_def Let_def rest_config_def wit_kube_def)
  define q1 where "q1 = q\<lparr>q_adding := {#''job''#}\<rparr>"
  define q2 where "q2 = q1\<lparr>q_adding := {#}, q_sending := {#''job''#}, p_wg := p_wg q + 1, q_accepted := {#''job''#}, q_late := q_late q\<rparr>"
  define q3 where "q3 = q2\<lparr>p_running := False, p_terminate := TWaiting\<rparr>"
  have "chan_step q q1" using push [of q "''job''"] q by (simp add: q1_def)
  moreover have "chan_step q1 q2" using push_add [of q1 "''job''"] q by (simp add: q1_def q2_def)
  moreover have "chan_step q2 q3" using term_start [of q2] q by (simp add: q1_def q2_def q3_def)
  ultimately have run: "chan_step\<^sup>*\<^sup>* q q3" by (meson r_into_rtranclp rtranclp_trans)
  have s3: "q_accepted q3 = {#''job''#}" "p_terminate q3 = TWaiting" by (simp_all add: q2_def q3_def)
  have "p_executed t = {#} \<and> p_terminate t = TWaiting" if "chan_step\<^sup>*\<^sup>* q3 t" for t
    using zero_threads_run_nothing [OF m _ run that] s3 by simp
  with m run s3 show ?thesis by blast
qed


section \<open>What a run pushes\<close>

fun delivery_ok :: "bool \<Rightarrow> 'x delivery \<Rightarrow> bool" where
  "delivery_ok verbose (Added ob) = (ob \<noteq> OtherObject)"
| "delivery_ok verbose (Updated old ob) = (ob \<noteq> OtherObject)"
| "delivery_ok verbose (Deleted ob) = (verbose \<longrightarrow> ob \<noteq> OtherObject)"

definition fresh :: "int \<Rightarrow> timestamp \<Rightarrow> 'x event \<Rightarrow> bool" where
  "fresh period now e \<longleftrightarrow>
     CompositionID e = [] \<and> (period \<le> 0 \<or> time_Since now (ev_LastTimestamp e) \<le> period)"

fun pending :: "int \<Rightarrow> timestamp \<times> 'x delivery \<Rightarrow> 'x event list" where
  "pending period (now, Added (EventObject e)) = (if fresh period now e then [e] else [])"
| "pending period (now, Updated old (EventObject e)) = (if fresh period now e then [e] else [])"
| "pending period (now, d) = []"

fun handle_all :: "('x event \<Rightarrow> 'w \<Rightarrow> 'j list \<times> 'w) \<Rightarrow> 'x event list \<Rightarrow> 'w \<Rightarrow> 'j list \<times> 'w" where
  "handle_all h [] w = ([], w)"
| "handle_all h (e # es) w = (let (jobs, w1) = h e w; (jobs', w2) = handle_all h es w1 in (jobs @ jobs', w2))"

lemma onEvent_fresh: "onEvent h period now e w = (if fresh period now e then h e w else ([], w))"
  by (auto simp: onEvent_def fresh_def hasCompositionId_iff)

lemma callback_pending:
  "callback h period verbose d w =
     (if delivery_ok verbose (snd d) then Some (handle_all h (pending period d) w) else None)"
  by (cases "(period, d)" rule: pending.cases) (auto simp: onEvent_fresh split: informer_object.splits)

lemma handle_all_append:
  "handle_all h (es @ fs) w = (let (jobs, w1) = handle_all h es w; (jobs', w2) = handle_all h fs w1 in (jobs @ jobs', w2))"
  by (induction es arbitrary: w) (auto simp: Let_def split: prod.splits)

lemma router_Run_handles:
  "router_Run handle er verbose ds w =
     (if list_all (\<lambda>d. delivery_ok verbose (snd d)) ds
      then Some (handle_all (handle (er_handler er)) (concat (map (pending (er_throttlePeriod er)) ds)) w)
      else None)"
  by (induction ds arbitrary: w) (auto simp: callback_pending handle_all_append Let_def split: prod.splits)

text \<open>
  C18. What a run of the router pushes: whatever the informer delivers, the handler is called for exactly the events
  added or updated, in the order of delivery, that carry no composition id and, with a positive throttle
  period, are not older than it; deletions push nothing. The run ends in a panic exactly when an added or updated
  object is not an event, as no object of the informer should be, or a deleted one is not and the
  log is verbose, as the tombstones of missed deletions are.
\<close>

theorem router_Run_pushes:
  "router_Run handle er verbose ds w =
     (if list_all (\<lambda>d. delivery_ok verbose (snd d)) ds
      then Some (handle_all (handle (er_handler er)) (concat (map (pending (er_throttlePeriod er)) ds)) w)
      else None)"
  by (rule router_Run_handles)

end
