(* ===== verification/Service.thy ===== *)
theory Service
  imports Env Handlers
begin

text \<open>
  How \<open>eventsse/main.go\<close> puts the event server together: its settings, the store and the watcher it
  makes, and the routes of its \<open>ServeMux\<close> to the handlers of \<open>Handlers\<close> and \<open>Http\<close>. The CORS middleware
  and the documentation under \<open>/swagger/\<close> are third-party code.

  A request comes with its path, cut at the slashes after the leading one and unescaped, as the mux
  matches it; the mux's redirect of paths that are not clean happens before.
\<close>

section \<open>Settings and start\<close>

record sse_settings =
  ss_debug :: bool
  ss_dumpEnv :: bool
  ss_port :: int
  ss_ttl :: int
  ss_limit :: int
  ss_endpoints :: string

definition sse_defaults :: "environ \<Rightarrow> sse_settings" where
  "sse_defaults env =
     \<lparr>ss_debug = env_Bool env ''EVENTSSE_DEBUG'' True,
      ss_dumpEnv = env_Bool env ''EVENTSSE_DUMP_ENV'' False,
      ss_port = env_Int env ''EVENTSSE_PORT'' 8181,
      ss_ttl = env_Int env ''EVENTSSE_TTL'' 120,
      ss_limit = env_Int env ''EVENTSSE_GET_LIMIT'' 100,
      ss_endpoints = env_String env ''EVENTSSE_ETCD_SERVERS'' ''localhost:2379''\<rparr>"

text \<open>The start, up to the handlers: the etcd client with its store, and the watcher with the limit.\<close>

definition sse_main ::
  "(string list \<Rightarrow> 'w \<Rightarrow> ('e + 'cli) \<times> 'w) \<Rightarrow> ('cli \<Rightarrow> string \<Rightarrow> 'w \<Rightarrow> ('e + bool) \<times> 'w) \<Rightarrow> ('cli \<Rightarrow> 'watcher)
     \<Rightarrow> (sse_settings \<Rightarrow> sse_settings) \<Rightarrow> environ \<Rightarrow> 'w \<Rightarrow> ('cli \<times> Client, 'watcher \<times> int) startup \<times> 'w" where
  "sse_main new status watcher flags env w =
     (let s = flags (sse_defaults env);
          limit = main_limit (ss_limit s);
          opts = strings_Split (CHR '','') (ss_endpoints s)
      in case NewClient new status opts w of
           (Inl err, w1) \<Rightarrow> (Fatal ''could not create ETCD client'', w1)
         | (Inr (cli, storage), w1) \<Rightarrow>
             (let storage = SetTTL (main_ttl (ss_ttl s)) storage
              in case NewWatcher new watcher opts w1 of
                   (Inl err, w2) \<Rightarrow> (Fatal ''could not create ETCD watcher'', w2)
                 | (Inr wt, w2) \<Rightarrow> (Started (cli, storage) (wt, limit), w2)))"

section \<open>Routes\<close>

datatype pat_seg = Lit string | Wild string

datatype endpoint = EHealth | EHandle | ENotifications | EEvents

fun match_path :: "pat_seg list \<Rightarrow> string list \<Rightarrow> (string \<times> string) list option" where
  "match_path [] [] = Some []"
| "match_path (Lit l # ps) (s # ss) = (if l = s then match_path ps ss else None)"
| "match_path (Wild n # ps) (s # ss) =
     (if s = [] then None else map_option (\<lambda>m. (n, s) # m) (match_path ps ss))"
| "match_path _ _ = None"

definition routes :: "(string \<times> pat_seg list \<times> endpoint) list" where
  "routes =
     [(''GET'', [Lit ''health''], EHealth),
      (''POST'', [Lit ''handle''], EHandle),
      (''GET'', [Lit ''notifications''], ENotifications),
      (''GET'', [Lit ''events''], EEvents),
      (''GET'', [Lit ''events'', Wild ''composition''], EEvents)]"

text \<open>A pattern for GET is one for HEAD too.\<close>

definition method_matches :: "string \<Rightarrow> string \<Rightarrow> bool" where
  "method_matches pat m \<longleftrightarrow> pat = m \<or> (pat = ''GET'' \<and> m = ''HEAD'')"

datatype routing = Routed endpoint "(string \<times> string) list" | MethodNotAllowed string | NotFound

fun mux_find :: "(string \<times> pat_seg list \<times> endpoint) list \<Rightarrow> string \<Rightarrow> string list \<Rightarrow> routing" where
  "mux_find [] m path = NotFound"
| "mux_find ((pat, segs, ep) # rs) m path =
     (case match_path segs path of
        None \<Rightarrow> mux_find rs m path
      | Some vals \<Rightarrow>
          if method_matches pat m then Routed ep vals
          else (case mux_find rs m path of
                  NotFound \<Rightarrow> MethodNotAllowed (if pat = ''GET'' then ''GET, HEAD'' else pat)
                | r \<Rightarrow> r))"

section \<open>The server\<close>

record ('w, 'e, 'x) service =
  sv_store :: "('w, 'e, 'x) Store"
  sv_limit :: int
  sv_ttl :: int
  sv_healthy :: int

text \<open>A number of seconds as a \<open>time.Duration\<close>, with the wrap-around of the multiplication.\<close>

definition seconds :: "int \<Rightarrow> int" where
  "seconds n = (n * 10 ^ 9 + 2 ^ 63) mod 2 ^ 64 - 2 ^ 63"

text \<open>What a request finds on the wire: the two results of the decoder, and the watch channel.\<close>

record 'x wire =
  wi_first :: "decode_error + 'x event"
  wi_second :: "decode_error option"
  wi_watch :: "sse_input list"

text \<open>The functions of other packages the handlers use.\<close>

record ('e, 'x) codecs =
  cd_sort :: "'x event_sorter"
  cd_list :: "'x event list \<Rightarrow> 'e + string"
  cd_map :: "(string \<times> string) list \<Rightarrow> string"
  cd_msg :: "'e \<Rightarrow> string"
  cd_lower :: "string \<Rightarrow> string"
  cd_quote :: "string \<Rightarrow> string"
  cd_event :: "string \<Rightarrow> 'e + 'x event"

definition sse_endpoint ::
  "('e, 'x) codecs \<Rightarrow> ('w, 'e, 'x) service \<Rightarrow> 'x wire \<Rightarrow> endpoint \<Rightarrow> request \<Rightarrow> response \<Rightarrow> 'w
     \<Rightarrow> (response \<times> 'w) option" where
  "sse_endpoint cd sv wi ep req rw w =
     (case ep of
        EHealth \<Rightarrow> Some (health_ServeHTTP (cd_map cd) (sv_healthy sv) ''eventsse'' req rw, w)
      | EHandle \<Rightarrow> sub_ServeHTTP (cd_lower cd) (cd_quote cd) (cd_msg cd)
          (sh_store (sub_Handle \<lparr>ho_Store = sv_store sv, ho_TTL = seconds (sv_ttl sv)\<rparr>)) (wi_first wi) (wi_second wi) req rw w
      | ENotifications \<Rightarrow> Some (SSE_ServeHTTP (cd_event cd) True req (wi_watch wi) rw, w)
      | EEvents \<Rightarrow> Some (getter_ServeHTTP (cd_sort cd) (cd_list cd) (cd_msg cd) (Events (sv_store sv) (sv_limit sv)) req rw w))"

definition sse_mux ::
  "('e, 'x) codecs \<Rightarrow> ('w, 'e, 'x) service \<Rightarrow> 'x wire \<Rightarrow> (string list \<Rightarrow> request \<Rightarrow> response \<Rightarrow> 'w \<Rightarrow> (response \<times> 'w) option)
     \<Rightarrow> string list \<Rightarrow> request \<Rightarrow> response \<Rightarrow> 'w \<Rightarrow> (response \<times> 'w) option" where
  "sse_mux cd sv wi swagger path req rw w =
     (if path \<noteq> [] \<and> hd path = ''swagger'' then swagger path req rw w
      else
        (case mux_find routes (rq_Method req) path of
           Routed ep vals \<Rightarrow>
             sse_endpoint cd sv wi ep
               (req\<lparr>rq_PathValue := \<lambda>k. case map_of vals k of None \<Rightarrow> [] | Some v \<Rightarrow> v\<rparr>) rw w
         | MethodNotAllowed allow \<Rightarrow>
             Some (http_Error ''Method Not Allowed'' 405 (Header_Set ''Allow'' allow rw), w)
         | NotFound \<Rightarrow> Some (http_Error ''404 page not found'' 404 rw, w)))"

text \<open>
  The server. \<open>cors\<close> is the middleware for cross-origin requests, \<open>chain\<close> what \<open>NewChain\<close> and \<open>Then\<close> make of a
  list of middlewares and a handler.
\<close>

record cors_options =
  AllowedOrigins :: "string list"
  AllowedMethods :: "string list"
  AllowedHeaders :: "string list"
  ExposedHeaders :: "string list"
  AllowCredentials :: bool
  MaxAge :: int

definition sse_cors :: cors_options where
  "sse_cors =
     \<lparr>AllowedOrigins = [''*''],
      AllowedMethods = [''GET'', ''POST'', ''OPTIONS''],
      AllowedHeaders = [''Accept'', ''Authorization'', ''Content-Type'', ''X-Auth-Code'', ''X-Krateo-TraceId''],
      ExposedHeaders = [''Link''],
      AllowCredentials = True,
      MaxAge = 300\<rparr>"

definition sse_handler ::
  "(('w handler \<Rightarrow> 'w handler) list \<Rightarrow> 'w handler \<Rightarrow> 'w handler) \<Rightarrow> (access_entry \<Rightarrow> 'w \<Rightarrow> 'w)
     \<Rightarrow> (cors_options \<Rightarrow> 'w handler \<Rightarrow> 'w handler) \<Rightarrow> 'w handler \<Rightarrow> 'w handler" where
  "sse_handler chain emit cors mux = chain [Access emit, cors sse_cors] mux"

definition sse_server :: "int \<Rightarrow> http_server" where
  "sse_server port =
     \<lparr>hs_Addr = '':'' @ fmt_d port, hs_ReadTimeout = seconds 10, hs_WriteTimeout = seconds 50,
      hs_IdleTimeout = seconds 30\<rparr>"

section \<open>Properties\<close>

text \<open>
  With the documented order of a chain, the first middleware outermost, every request that does not panic
  is logged exactly once, after the handlers, with the headers they left.
\<close>

lemma every_request_is_logged:
  assumes "\<And>ms h. chain ms h = foldr (\<lambda>m. m) ms h"
    and "sse_handler chain emit cors mux r rw w = Some (rw', w')"
  shows "\<exists>w1. cors sse_cors mux r rw w = Some (rw', w1) \<and> w' = emit (client_ip r, rq_Method r, rw_Header rw') w1"
  using assms by (auto simp: sse_handler_def Access_def Let_def split: option.splits)

lemma routes_handle [simp]: "mux_find routes ''POST'' [''handle''] = Routed EHandle []"
  by (simp add: routes_def method_matches_def)

lemma routes_events [simp]:
  "c \<noteq> [] \<Longrightarrow> mux_find routes ''GET'' [''events'', c] = Routed EEvents [(''composition'', c)]"
  by (simp add: routes_def method_matches_def)

lemma mux_find_method:
  assumes "\<forall>(pat, segs, ep) \<in> set rs. \<not> method_matches pat m"
  shows "mux_find rs m path = NotFound \<or> (\<exists>allow. mux_find rs m path = MethodNotAllowed allow)"
  using assms
proof (induction rs)
  case (Cons r rs)
  then show ?case by (cases r) (auto split: option.splits)
qed simp

text \<open>
  The routes confine the methods: behind the mux the preflight branches of the listing and of the stream
  are dead, for an OPTIONS request to any path outside the documentation is answered 404 or 405 and
  changes nothing, and so is every method but GET, HEAD and POST; a HEAD request to \<open>/health\<close>, which
  the mux lets through as a GET, is refused with 405 by the health handler itself.
\<close>

theorem routes_confine_methods:
  assumes "path = [] \<or> hd path \<noteq> ''swagger''"
  shows "(rq_Method req \<notin> {''GET'', ''HEAD'', ''POST''} \<longrightarrow>
      (\<exists>rw. sse_mux cd sv wi swagger path req new_response w = Some (rw, w) \<and> rw_Status rw \<in> {Some 404, Some 405}))
    \<and> (rq_Method req = ''HEAD'' \<and> path = [''health''] \<longrightarrow>
      (\<exists>rw. sse_mux cd sv wi swagger path req new_response w = Some (rw, w) \<and> rw_Status rw = Some 405))"
proof (intro conjI impI)
  assume "rq_Method req \<notin> {''GET'', ''HEAD'', ''POST''}"
  then have "\<forall>(pat, segs, ep) \<in> set routes. \<not> method_matches pat (rq_Method req)"
    by (auto simp: routes_def method_matches_def)
  from mux_find_method [OF this, of path]
  show "\<exists>rw. sse_mux cd sv wi swagger path req new_response w = Some (rw, w) \<and> rw_Status rw \<in> {Some 404, Some 405}"
    using assms by (auto simp: sse_mux_def http_defs new_response_def)
next
  assume h: "rq_Method req = ''HEAD'' \<and> path = [''health'']"
  then have "mux_find routes (rq_Method req) path = Routed EHealth []"
    by (simp add: routes_def method_matches_def)
  then show "\<exists>rw. sse_mux cd sv wi swagger path req new_response w = Some (rw, w) \<and> rw_Status rw = Some 405"
    using h by (simp add: sse_mux_def sse_endpoint_def health_ServeHTTP_def http_defs new_response_def)
qed

definition wit_codecs :: "(unit, unit) codecs" where
  "wit_codecs =
     \<lparr>cd_sort = insertion_sort, cd_list = (\<lambda>evs. Inr (concat (map ev_UID evs))), cd_map = (\<lambda>m. []), cd_msg = (\<lambda>e. []),
      cd_lower = (\<lambda>s. s), cd_quote = (\<lambda>s. s), cd_event = wit_dec\<rparr>"

definition wit_service :: "(kv list, unit, unit) service" where
  "wit_service = \<lparr>sv_store = wit_store, sv_limit = 100, sv_ttl = 120, sv_healthy = 1\<rparr>"

definition wit_wire :: "unit event \<Rightarrow> unit wire" where
  "wit_wire ev = \<lparr>wi_first = Inr ev, wi_second = Some DecEOF, wi_watch = []\<rparr>"

theorem routes_confine_methods_witness:
  "\<exists>rw. sse_mux wit_codecs wit_service (wit_wire (wit_event ''1'')) (\<lambda>path req rw w. None) [''events'']
      ((wit_request [] [])\<lparr>rq_Method := ''OPTIONS''\<rparr>) new_response [] = Some (rw, []) \<and> rw_Status rw \<in> {Some 404, Some 405}"
  using routes_confine_methods [of "[''events'']" "(wit_request [] [])\<lparr>rq_Method := ''OPTIONS''\<rparr>" wit_codecs wit_service
      "wit_wire (wit_event ''1'')" "\<lambda>path req rw w. None" "[]"] by simp

text \<open>What is listed after a store, for any store that keeps the contract.\<close>

context event_store
begin

lemma listed_after_set:
  assumes "contract" and "readable v" and set: "st_Set st w k v = (None, w1)"
    and pre: "strings_HasPrefix k (request_key (Events st limit) req)"
    and lim: "get_limit (gh_maxLimit (Events st limit)) (rq_Query req ''limit'') = 0"
    and srt: "sort_slice_ok srt" and m: "rq_Method req \<noteq> ''OPTIONS''" and enc: "\<And>evs. encl evs = Inr (render evs)"
    and serve: "getter_ServeHTTP srt encl msg (Events st limit) req new_response w1 = (rw, w2)"
    and ok: "rw_Status rw \<noteq> Some 500"
  shows "\<exists>evs. rw_Status rw = Some 200 \<and> rw_Body rw = render evs @ newline \<and> v \<in> set evs
      \<and> sorted (rev (map ev_LastTimestamp evs))"
proof -
  obtain data found err w' where get: "st_Get st w1 (request_key (Events st limit) req) \<lparr>go_Limit = 0, go_EndKey = []\<rparr>
      = ((data, found, err), w')" by (metis surj_pair)
  have none: "err = None"
  proof (rule ccontr)
    assume "err \<noteq> None"
    then obtain e where "err = Some e" by blast
    then have "rw = http_Error (msg e) 500 new_response"
      using serve get lim m by (simp add: getter_ServeHTTP_def Let_def Events_def)
    then show False using ok by (simp add: http_defs new_response_def)
  qed
  have v: "v \<in> set data" using get_after_set [OF assms(1,2) set pre] get none by blast
  then have "data \<noteq> []" by auto
  from listing_answer [where encl = encl and render = render and msg = msg, OF srt m _ this enc, of w1 limit] get none lim
  obtain evs where e: "getter_ServeHTTP srt encl msg (Events st limit) req new_response w1
        = (\<lparr>rw_Header = [''Content-Type'' \<mapsto> [''application/json'']], rw_Status = Some 200,
            rw_Sent = [''Content-Type'' \<mapsto> [''application/json'']], rw_Body = render evs @ newline\<rparr>, w')"
      "mset evs = mset data" "sorted (rev (map ev_LastTimestamp evs))"
    by (metis (no_types, lifting))
  have "v \<in> set evs" using v e(2) by (metis set_mset_mset)
  moreover have "rw_Status rw = Some 200" "rw_Body rw = render evs @ newline" using e(1) serve by auto
  ultimately show ?thesis using e(3) by blast
qed

end

lemma sub_stored:
  assumes "sub_ServeHTTP ulow quote msg st (Inr ev) second req new_response w = Some (rw, w1)"
    and "rw_Status rw = Some 200"
  shows "st_Set st w (st_PrepareKey st (ev_UID ev) (CompositionID ev)) ev = (None, w1)"
proof -
  obtain r where r: "JSONBody ulow quote (rq_Header req) (Inr ev) second = Some r"
    using assms(1) by (auto simp: sub_ServeHTTP_def split: option.splits)
  show ?thesis
  proof (cases r)
    case (Inl err)
    then show ?thesis using assms r by (auto simp: sub_ServeHTTP_def http_defs new_response_def split: if_splits)
  next
    case (Inr nfo)
    have "nfo = ev"
      using r Inr by (auto simp: JSONBody_def Let_def split: if_splits option.splits prod.splits)
    then show ?thesis
      using assms r Inr
      by (auto simp: sub_ServeHTTP_def http_defs new_response_def split: option.splits prod.splits)
  qed
qed

text \<open>
  From the wire to the wire: an event that was posted to \<open>/handle\<close> and answered 200 is in the next
  listing of its composition, \<open>/events/\<close> followed by the composition's id, asked without a limit: unless
  the cluster fails, that is answered 200 with the JSON of a list, newest first, that holds the event.
\<close>

lemma posted_is_listed:
  assumes c: "etcd_contract cli view" and "json_ok enc dec ev" and srt: "sort_slice_ok (cd_sort cd)"
    and encl: "\<And>evs. cd_list cd evs = Inr (render evs)"
    and st: "sv_store sv = client_store ulow enc dec cli cl"
    and ids: "ids_ok (ev_UID ev) (CompositionID ev)" "CompositionID ev \<noteq> []"
    and post: "rq_Method reqP = ''POST''" "wi_first wi = Inr ev"
      "sse_mux cd sv wi swagger [''handle''] reqP new_response w = Some (rwP, w1)" "rw_Status rwP = Some 200"
    and list: "rq_Method reqG = ''GET''" "rq_Query reqG ''limit'' = ''0''"
      "sse_mux cd sv wi' swagger [''events'', CompositionID ev] reqG new_response w1 = Some (rwG, w2)"
      "rw_Status rwG \<noteq> Some 500"
  shows "\<exists>evs. rw_Status rwG = Some 200 \<and> rw_Body rwG = render evs @ newline \<and> ev \<in> set evs
      \<and> sorted (rev (map ev_LastTimestamp evs))"
proof -
  let ?st = "client_store ulow enc dec cli cl" and ?c = "CompositionID ev"
  let ?req = "reqG\<lparr>rq_PathValue := \<lambda>k. case map_of [(''composition'', ?c)] k of None \<Rightarrow> [] | Some v \<Rightarrow> v\<rparr>"
  have set: "st_Set ?st w (PrepareKey ulow (ev_UID ev) ?c) ev = (None, w1)"
    using sub_stored [of _ _ _ ?st ev _ _ w rwP w1] post
    by (auto simp: sse_mux_def sse_endpoint_def st client_store_def)
  have key: "request_key (Events ?st (sv_limit sv)) ?req = PrepareKey ulow [] ?c"
    using ids(2) by (simp add: request_key_def Events_def client_store_def)
  have "ids_ok [] ?c" using ids(1) by (simp add: ids_ok_def)
  then have pre: "strings_HasPrefix (PrepareKey ulow (ev_UID ev) ?c) (PrepareKey ulow [] ?c)"
    using PrepareKey_elems [OF ids(1)] PrepareKey_elems [of "[]" ?c] ids(2)
    by (cases "ev_UID ev = []") (auto simp: key_elems_def HasPrefix_iff prefix_def)
  have lim: "get_limit (gh_maxLimit (Events ?st (sv_limit sv))) (rq_Query ?req ''limit'') = 0"
    using Events_maxLimit [of ?st "sv_limit sv"] list(2)
    by (simp add: get_limit_def strconv_Atoi_def is_digit_def digits_val_def digit_val_def)
  have get: "getter_ServeHTTP (cd_sort cd) (cd_list cd) (cd_msg cd) (Events ?st (sv_limit sv)) ?req new_response w1 = (rwG, w2)"
    using list ids(2) by (simp add: sse_mux_def sse_endpoint_def st)
  show ?thesis
    by (rule client.listed_after_set [OF c assms(2) set _ lim srt _ encl get list(4)])
      (use pre key list(1) in simp_all)
qed

text \<open>A concrete run: an event of the composition \<open>c\<close>, posted to an empty cluster and listed.\<close>

definition wit_comp :: "string \<Rightarrow> unit event" where
  "wit_comp uid = (wit_event uid)\<lparr>ev_Labels := [(keyCompositionID, ''c'')]\<rparr>"

definition wit_comp_dec :: "string \<Rightarrow> unit + unit event" where
  "wit_comp_dec s = (if s = [] then Inl () else Inr (wit_comp (butlast s)))"

definition wit_comp_service :: "(kv list, unit, unit) service" where
  "wit_comp_service =
     \<lparr>sv_store = client_store id wit_enc wit_comp_dec tidy_etcd \<lparr>c_timeOut = 0, c_ttl = 180\<rparr>, sv_limit = 100, sv_ttl = 180, sv_healthy = 1\<rparr>"

definition wit_post :: request where
  "wit_post = (wit_request [] [])\<lparr>rq_Method := ''POST''\<rparr>"

lemma wit_comp_id [simp]: "CompositionID (wit_comp uid) = ''c''" "ev_UID (wit_comp uid) = uid"
  by (simp_all add: CompositionID_index wit_comp_def map_index_def wit_event_def)

definition wit_stored :: "kv list" where
  "wit_stored = [\<lparr>kv_Key = ''krateo.io.events/comp-c/7'', kv_Value = ''7'' @ newline, kv_CreateRevision = 1\<rparr>]"

lemma wit_comp_ids: "ids_ok ''7'' ''c''" "ids_ok [] ''c''"
  by (simp_all add: ids_ok_def is_ascii_def plain_elem_def)

lemma wit_comp_keys:
  "PrepareKey id ''7'' ''c'' = ''krateo.io.events/comp-c/7''" "PrepareKey id [] ''c'' = ''krateo.io.events/comp-c''"
  using PrepareKey_elems [OF wit_comp_ids(1), of id] PrepareKey_elems [OF wit_comp_ids(2), of id]
  by (simp_all add: key_elems_def RootKey_def ascii_lower_def)

lemma wit_comp_json: "json_ok wit_enc wit_comp_dec (wit_comp uid)"
  by (simp add: json_ok_def wit_enc_def wit_comp_dec_def wit_comp_def wit_event_def newline_def)

lemma wit_comp_post:
  "\<exists>rw. sse_mux wit_codecs wit_comp_service (wit_wire (wit_comp ''7'')) (\<lambda>path req rw w. None) [''handle''] wit_post
     new_response [] = Some (rw, wit_stored) \<and> rw_Status rw = Some 200"
proof -
  have "client_Set wit_enc tidy_etcd \<lparr>c_timeOut = 0, c_ttl = 180\<rparr> [] ''krateo.io.events/comp-c/7'' (wit_comp ''7'')
      = (None, wit_stored)"
    by (simp add: client_Set_def wit_enc_def lease_opts_def tidy_etcd_def mem_etcd_def tidy_def key_space_def wit_stored_def)
  moreover have "JSONBody id id Map.empty (Inr (wit_comp ''7'')) (Some DecEOF) = Some (Inr (wit_comp ''7''))"
    by (simp add: JSONBody_def Header_Get_def)
  ultimately show ?thesis
    using wit_comp_keys
    by (simp add: sse_mux_def sse_endpoint_def sub_ServeHTTP_def wit_post_def wit_codecs_def wit_comp_service_def
        wit_wire_def wit_request_def client_store_def http_defs new_response_def id_def)
qed

lemma wit_comp_list:
  "\<exists>rw w2. sse_mux wit_codecs wit_comp_service wi (\<lambda>path req rw w. None) [''events'', ''c''] (wit_request [] ''0'')
     new_response wit_stored = Some (rw, w2) \<and> rw_Status rw \<noteq> Some 500"
proof -
  have "client_Get wit_comp_dec tidy_etcd wit_stored ''krateo.io.events/comp-c'' \<lparr>go_Limit = 0, go_EndKey = []\<rparr>
      = (([wit_comp ''7''], True, None), wit_stored)"
    by (simp add: client_Get_def tidy_etcd_def get_ops_sel limit_take_def wit_comp_dec_def tidy_def key_space_def
        newline_def wit_stored_def)
  moreover have "get_limit 100 ''0'' = 0"
    by (simp add: get_limit_def strconv_Atoi_def is_digit_def digits_val_def digit_val_def)
  ultimately show ?thesis
    using wit_comp_keys
    by (simp add: sse_mux_def sse_endpoint_def getter_ServeHTTP_def wit_codecs_def wit_comp_service_def wit_request_def
        client_store_def request_key_def Events_def http_defs new_response_def)
qed

text \<open>
  C20. Everything the server stores expires: whatever the environment holds, the client \<open>main\<close> starts has a
  positive time to live, so each write it makes carries a lease that was granted for that time, and a
  grant that fails writes nothing.
\<close>

theorem stored_events_expire:
  assumes "sse_main new status watcher flags env w = (Started (cli, c) rest, w')"
  shows "0 < c_ttl c
    \<and> (\<forall>et k v u u'. client_Set enc et c u k v = (None, u') \<longrightarrow>
        (\<exists>js lease u1. enc v = Inr js \<and> et_Grant et u (c_ttl c) = (Inr lease, u1)
           \<and> et_Put et u1 k (js @ newline) [WithLease lease] = (None, u')))
    \<and> (\<forall>et k v u js err u1. enc v = Inr js \<longrightarrow> et_Grant et u (c_ttl c) = (Inl err, u1) \<longrightarrow>
        client_Set enc et c u k v = (Some err, u1))"
proof -
  have ttl: "0 < c_ttl c"
    using assms
    by (auto simp: sse_main_def Let_def SetTTL_def main_ttl_def split: prod.splits sum.splits startup.splits)
  then show ?thesis
    by (auto simp: client_Set_def lease_opts_def split: sum.splits prod.splits)
qed

theorem stored_events_expire_witness:
  "\<exists>c (rest :: unit \<times> int) w'. sse_main (\<lambda>eps w. (Inr () :: unit + unit, w)) (\<lambda>cli ep w. (Inr True, w)) (\<lambda>cli. ()) (\<lambda>s. s)
      [''EVENTSSE_TTL'' \<mapsto> ''-5''] () = (Started ((), c) rest, w') \<and> 0 < c_ttl c"
proof -
  obtain c and rest :: "unit \<times> int" and w' where "sse_main (\<lambda>eps w. (Inr () :: unit + unit, w)) (\<lambda>cli ep w. (Inr True, w)) (\<lambda>cli. ()) (\<lambda>s. s)
      [''EVENTSSE_TTL'' \<mapsto> ''-5''] () = (Started ((), c) rest, w')"
    by (simp add: sse_main_def NewClient_def NewWatcher_def Let_def)
  moreover from stored_events_expire [OF this, of "\<lambda>e :: unit event. Inl ()"] have "0 < c_ttl c" by (rule conjunct1)
  ultimately show ?thesis by blast
qed

end
