(* ===== verification/Lifecycle.thy ===== *)
theory Lifecycle
  imports Watcher Http Env Decode
begin

text \<open>
  \<open>main\<close> of the sweeper (\<open>sweeper/main.go\<close>): the start from the settings, and the life of the process
  after that, with the goroutine of the health server and that of the watcher. A step is one access to
  what they share: the readiness, the contexts, the server's shutdown and the wait group. The watcher's
  loop is \<open>watch_step\<close>, whose steps are steps of the process.
\<close>

section \<open>The start of the sweeper\<close>

text \<open>
  The settings are the values of the flags; their defaults are read from the environment by another
  library. \<open>new\<close> connects to the endpoints.
\<close>

record sweeper_settings =
  sws_etcdServers :: string
  sws_cleanupThreshold :: float64
  sws_monitoringInterval :: int

definition sweeper_main ::
  "('w \<Rightarrow> 'c option) \<Rightarrow> ('w \<Rightarrow> bool \<times> 'w) \<Rightarrow> (string list \<Rightarrow> 'w \<Rightarrow> ('e + 'cli) \<times> 'w) \<Rightarrow> sweeper_settings
     \<Rightarrow> 'w \<Rightarrow> ('cli option, CleanupManager \<times> UsageWatcher) startup \<times> 'w" where
  "sweeper_main ctx_err sleep new s w =
     (case NewEtcdClient ctx_err sleep (new (strings_Split (CHR '','') (sws_etcdServers s))) w of
        (Inl err, w1) \<Rightarrow> (Fatal ''unable to create Etcd client'', w1)
      | (Inr cli, w1) \<Rightarrow>
          (let cleanupManager = NewCleanupManager main_cleanup_options;
               watcher = NewUsageWatcher
                 \<lparr>cfg_Threshold = sws_cleanupThreshold s, cfg_Interval = sws_monitoringInterval s\<rparr>
           in (Started cli (cleanupManager, watcher), w1)))"

text \<open>
  Whatever the flags, a sweeper that starts has the batches and the target of \<open>main\<close>, waits between its
  checks, and has a threshold in its range unless it was given NaN. There is a client.
\<close>

lemma retry_loop_client:
  assumes "retry_loop cx sl (\<lambda>(cli, v). case new v of
      (Inr c, v') \<Rightarrow> (None, (Some c, v')) | (Inl e, v') \<Rightarrow> (Some e, (None, v'))) a n err w = (r, (cli, w'))"
    and "\<And>w w'. sl w = (True, w') \<Longrightarrow> cx w' \<noteq> None" and "r = None"
  shows "\<exists>c. cli = Some c"
  using assms(1,3)
proof (induction n arbitrary: err w)
  case (Suc n)
  then show ?case using assms(2)
    by (fastforce split: option.splits prod.splits sum.splits bool.splits)
qed simp

lemma sweeper_main_starts:
  assumes "sweeper_main ctx_err sleep new s w = (Started cli (m, uw), w')"
    and "\<And>v v'. sleep v = (True, v') \<Longrightarrow> ctx_err v' \<noteq> None"
  shows "(\<exists>c. cli = Some c) \<and> m = NewCleanupManager main_cleanup_options \<and> m_batchSize m = 100
    \<and> 0 < uw_interval uw \<and> (\<forall>t. uw_threshold uw = Fin t \<longrightarrow> 0 < t \<and> t \<le> 1)"
proof -
  let ?cfg = "\<lparr>cfg_Threshold = sws_cleanupThreshold s, cfg_Interval = sws_monitoringInterval s\<rparr>"
  have uw: "uw = NewUsageWatcher ?cfg" "m = NewCleanupManager main_cleanup_options"
    and cli: "NewEtcdClient ctx_err sleep (new (strings_Split (CHR '','') (sws_etcdServers s))) w = (Inr cli, w')"
    using assms(1) by (auto simp: sweeper_main_def Let_def split: prod.splits sum.splits)
  have "\<exists>c. cli = Some c"
    using cli assms(2) unfolding NewEtcdClient_def retryWithContext_def
    by (auto simp: Let_def split: prod.splits option.splits elim!: retry_loop_client)
  then show ?thesis
    using NewUsageWatcher_sanitises [of ?cfg] uw
    by (auto simp: NewCleanupManager_def main_cleanup_options_def split: float64.splits)
qed

text \<open>The endpoints of the probes, for any method, and the settings of their server.\<close>

definition sweeper_mux :: "HealthHandler \<Rightarrow> string \<Rightarrow> response \<Rightarrow> response" where
  "sweeper_mux h path w =
     (if path = ''/healthz'' then LivenessProbe h w
      else if path = ''/readyz'' then ReadinessProbe h w
      else http_Error ''404 page not found'' 404 w)"

definition sweeper_server :: "int \<Rightarrow> http_server" where
  "sweeper_server port =
     \<lparr>hs_Addr = '':'' @ fmt_d port, hs_ReadTimeout = 10 * 10 ^ 9, hs_WriteTimeout = 50 * 10 ^ 9,
      hs_IdleTimeout = 30 * 10 ^ 9\<rparr>"

section \<open>The sweeper's process\<close>

text \<open>
  \<open>main\<close> waits for the signal, clears the readiness, stops the watcher, shuts the server down (the call
  returns when the connections are closed or its time is over) and waits for the goroutines.
\<close>

datatype main_pc = MWait | MNotReady | MStop | MShutdown | MShutting | MJoin | MExit

text \<open>\<open>ListenAndServe\<close> is called, serves, and returns \<open>ErrServerClosed\<close> once the server is shut down.\<close>

datatype server_pc = SStart | SServing | SReturned

text \<open>The watcher's goroutine marks the process ready and calls \<open>Start\<close>, which makes the context its loop runs under.\<close>

datatype watcher_pc = WStart | WMarked | WLoop | WReturned

record sweeper_sys =
  sw_main :: main_pc
  sw_server :: server_pc
  sw_watcher :: watcher_pc
  sw_health :: HealthHandler
  sw_done :: bool
  sw_shut :: bool
  sw_died :: bool
  sw_watch :: watch_sys

definition sweeper_init :: "sweeper_sys \<Rightarrow> bool" where
  "sweeper_init s \<longleftrightarrow>
     (\<exists>w. watch_init w
        \<and> s = \<lparr>sw_main = MWait, sw_server = SStart, sw_watcher = WStart, sw_health = Health, sw_done = False,
              sw_shut = False, sw_died = False, sw_watch = w\<rparr>)"

definition live :: "sweeper_sys \<Rightarrow> bool" where
  "live s \<longleftrightarrow> \<not> sw_died s \<and> sw_main s \<noteq> MExit"

inductive sweeper_step :: "UsageWatcher \<Rightarrow> string list \<Rightarrow> sweeper_sys \<Rightarrow> sweeper_sys \<Rightarrow> bool"
  for uw :: UsageWatcher and eps :: "string list" where
  signal: "live s \<Longrightarrow> \<not> sw_done s \<Longrightarrow> sweeper_step uw eps s (s\<lparr>sw_done := True\<rparr>)"
| main_wakes: "live s \<Longrightarrow> sw_main s = MWait \<Longrightarrow> sw_done s \<Longrightarrow> sweeper_step uw eps s (s\<lparr>sw_main := MNotReady\<rparr>)"
| main_not_ready: "live s \<Longrightarrow> sw_main s = MNotReady \<Longrightarrow>
    sweeper_step uw eps s (s\<lparr>sw_main := MStop, sw_health := SetReady False (sw_health s)\<rparr>)"
| main_stop_nil: "live s \<Longrightarrow> sw_main s = MStop \<Longrightarrow> sw_watcher s \<in> {WStart, WMarked} \<Longrightarrow>
    sweeper_step uw eps s (s\<lparr>sw_main := MShutdown\<rparr>)"
| main_stop_cancel: "live s \<Longrightarrow> sw_main s = MStop \<Longrightarrow> sw_watcher s \<in> {WLoop, WReturned} \<Longrightarrow>
    sweeper_step uw eps s (s\<lparr>sw_main := MShutdown, sw_watch := (sw_watch s)\<lparr>ws_cancelled := True\<rparr>\<rparr>)"
| main_shutdown: "live s \<Longrightarrow> sw_main s = MShutdown \<Longrightarrow>
    sweeper_step uw eps s (s\<lparr>sw_main := MShutting, sw_shut := True\<rparr>)"
| main_shut: "live s \<Longrightarrow> sw_main s = MShutting \<Longrightarrow> sweeper_step uw eps s (s\<lparr>sw_main := MJoin\<rparr>)"
| main_join: "live s \<Longrightarrow> sw_main s = MJoin \<Longrightarrow> sw_server s = SReturned \<Longrightarrow> sw_watcher s = WReturned \<Longrightarrow>
    sweeper_step uw eps s (s\<lparr>sw_main := MExit\<rparr>)"
| server_listen: "live s \<Longrightarrow> sw_server s = SStart \<Longrightarrow> \<not> sw_shut s \<Longrightarrow>
    sweeper_step uw eps s (s\<lparr>sw_server := SServing\<rparr>)"
| server_fails: "live s \<Longrightarrow> sw_server s \<noteq> SReturned \<Longrightarrow> sweeper_step uw eps s (s\<lparr>sw_died := True\<rparr>)"
| server_closed: "live s \<Longrightarrow> sw_server s \<noteq> SReturned \<Longrightarrow> sw_shut s \<Longrightarrow>
    sweeper_step uw eps s (s\<lparr>sw_server := SReturned\<rparr>)"
| watcher_marks: "live s \<Longrightarrow> sw_watcher s = WStart \<Longrightarrow>
    sweeper_step uw eps s (s\<lparr>sw_watcher := WMarked, sw_health := SetReady True (sw_health s)\<rparr>)"
| watcher_starts: "live s \<Longrightarrow> sw_watcher s = WMarked \<Longrightarrow> sweeper_step uw eps s (s\<lparr>sw_watcher := WLoop\<rparr>)"
| watcher_context: "live s \<Longrightarrow> sw_watcher s = WLoop \<Longrightarrow> sw_done s \<Longrightarrow>
    sweeper_step uw eps s (s\<lparr>sw_watch := (sw_watch s)\<lparr>ws_cancelled := True\<rparr>\<rparr>)"
| watcher_runs: "live s \<Longrightarrow> sw_watcher s \<in> {WLoop, WReturned} \<Longrightarrow> watch_step uw eps (sw_watch s) w \<Longrightarrow>
    ws_cancelled w = ws_cancelled (sw_watch s) \<Longrightarrow> sweeper_step uw eps s (s\<lparr>sw_watch := w\<rparr>)"
| watcher_returns: "live s \<Longrightarrow> sw_watcher s = WLoop \<Longrightarrow> ws_pc (sw_watch s) = Stopped \<Longrightarrow>
    sweeper_step uw eps s (s\<lparr>sw_watcher := WReturned\<rparr>)"

inductive_cases sweeper_stepE: "sweeper_step uw eps s t"


section \<open>Invariants of the sweeper's process\<close>

definition sweeper_inv :: "sweeper_sys \<Rightarrow> bool" where
  "sweeper_inv s \<longleftrightarrow>
     (sw_shut s \<longleftrightarrow> sw_main s \<in> {MShutting, MJoin, MExit})
     \<and> (sw_main s \<noteq> MWait \<longrightarrow> sw_done s)
     \<and> (sw_main s = MExit \<longrightarrow> sw_server s = SReturned \<and> sw_watcher s = WReturned)
     \<and> (sw_server s = SReturned \<longrightarrow> sw_shut s)
     \<and> (sw_watcher s = WReturned \<longrightarrow> ws_pc (sw_watch s) = Stopped)
     \<and> (sw_watcher s \<in> {WStart, WMarked} \<longrightarrow> watch_init (sw_watch s))
     \<and> (ws_cancelled (sw_watch s) \<longrightarrow> sw_done s)
     \<and> (sw_main s \<in> {MWait, MNotReady} \<longrightarrow> hh_ready (sw_health s) = (sw_watcher s \<noteq> WStart))"

lemma watch_step_Stopped:
  assumes "watch_step uw eps w w'" and "ws_pc w = Stopped"
  shows "ws_pc w' = Stopped"
  using assms by cases auto

lemma sweeper_step_inv:
  assumes "sweeper_step uw eps s t" and "sweeper_inv s"
  shows "sweeper_inv t"
  using assms(1)
proof cases
  case (watcher_runs w)
  have "sw_watcher s = WReturned \<Longrightarrow> ws_pc w = Stopped"
    using watch_step_Stopped [OF watcher_runs(4)] assms(2) by (simp add: sweeper_inv_def)
  moreover have "sw_watcher s \<noteq> WStart \<and> sw_watcher s \<noteq> WMarked" using watcher_runs(3) by auto
  ultimately show ?thesis
    using assms(2) watcher_runs(5) unfolding watcher_runs(1) sweeper_inv_def by simp blast
qed (use assms(2) in \<open>auto simp: sweeper_inv_def SetReady_def live_def\<close>)

interpretation sweeper: transition_system sweeper_init "sweeper_step uw eps" sweeper_inv
  for uw eps
proof
  show "sweeper_inv s" if "sweeper_init s" for s
    using that by (auto simp: sweeper_init_def sweeper_inv_def Health_def watch_init_def)
qed (rule sweeper_step_inv)

section \<open>The way out\<close>

text \<open>How many steps of its own the process is from its exit, once the signal has come.\<close>

fun main_rank :: "main_pc \<Rightarrow> nat" where
  "main_rank MWait = 6"
| "main_rank MNotReady = 5"
| "main_rank MStop = 4"
| "main_rank MShutdown = 3"
| "main_rank MShutting = 2"
| "main_rank MJoin = 1"
| "main_rank MExit = 0"

fun loop_rank :: "watch_pc \<Rightarrow> nat" where
  "loop_rank Stopped = 0"
| "loop_rank AtSelect = 1"
| "loop_rank (Checking es) = 2 + 4 * length es"
| "loop_rank (Suspending es) = 3 + 4 * length es"
| "loop_rank (Spawning st es) = 4 + 4 * length es"
| "loop_rank (InCallback st es) = 5 + 4 * length es"

fun watcher_rank :: "watcher_pc \<Rightarrow> watch_sys \<Rightarrow> nat" where
  "watcher_rank WReturned w = 0"
| "watcher_rank WLoop w = 1 + loop_rank (ws_pc w)"
| "watcher_rank WMarked w = 2 + loop_rank (ws_pc w)"
| "watcher_rank WStart w = 3 + loop_rank (ws_pc w)"

definition exit_bound :: "sweeper_sys \<Rightarrow> nat" where
  "exit_bound s =
     main_rank (sw_main s) + (if sw_server s = SReturned then 0 else 1)
     + watcher_rank (sw_watcher s) (sw_watch s) + (if ws_cancelled (sw_watch s) then 0 else 1)"

text \<open>A step of the loop towards its end, once its context is done.\<close>

lemma loop_progress:
  assumes "ws_cancelled w" and "ws_pc w \<noteq> Stopped"
  shows "\<exists>w'. watch_step uw eps w w' \<and> ws_cancelled w' \<and> loop_rank (ws_pc w') < loop_rank (ws_pc w)
     \<and> ws_cleaning w \<subseteq># ws_cleaning w'"
proof -
  have by_step: ?thesis
    if "watch_step uw eps w w'" "ws_cancelled w'" "loop_rank (ws_pc w') < loop_rank (ws_pc w)"
      "ws_cleaning w \<subseteq># ws_cleaning w'" for w'
    using that by blast
  show ?thesis
  proof (cases "ws_pc w")
    case AtSelect
    then show ?thesis using assms by (intro by_step [OF stop]) simp_all
  next
    case (Checking es)
    show ?thesis
    proof (cases es)
      case Nil
      then show ?thesis using Checking assms by (intro by_step [OF check_done]) simp_all
    next
      case (Cons e es')
      then show ?thesis using Checking assms by (intro by_step [OF check_error [of w e es']]) simp_all
    qed
  next
    case (InCallback st es)
    then show ?thesis using assms by (intro by_step [OF callback_suspend [OF InCallback]]) simp_all
  next
    case (Spawning st es)
    then show ?thesis using assms by (intro by_step [OF callback_spawn [OF Spawning]]) simp_all
  next
    case (Suspending es)
    then show ?thesis using assms by (intro by_step [OF after_callback [OF Suspending]]) simp_all
  qed (use assms in simp)
qed

lemma watcher_progress:
  assumes "live s" and "sw_done s" and "sw_watcher s \<noteq> WReturned"
  shows "\<exists>t. sweeper_step uw eps s t \<and> live t \<and> exit_bound t < exit_bound s
     \<and> ws_cleaning (sw_watch s) \<subseteq># ws_cleaning (sw_watch t)"
proof -
  have by_step: ?thesis if "sweeper_step uw eps s t" "live t" "exit_bound t < exit_bound s"
    "ws_cleaning (sw_watch s) \<subseteq># ws_cleaning (sw_watch t)" for t
    using that by blast
  show ?thesis
  proof (cases "sw_watcher s")
    case WStart
    show ?thesis
      by (rule by_step [OF watcher_marks]) (use assms WStart in \<open>simp_all add: live_def exit_bound_def\<close>)
  next
    case WMarked
    show ?thesis
      by (rule by_step [OF watcher_starts]) (use assms WMarked in \<open>simp_all add: live_def exit_bound_def\<close>)
  next
    case WLoop
    consider "\<not> ws_cancelled (sw_watch s)" | "ws_cancelled (sw_watch s)" "ws_pc (sw_watch s) = Stopped"
      | "ws_cancelled (sw_watch s)" "ws_pc (sw_watch s) \<noteq> Stopped" by blast
    then show ?thesis
    proof cases
      case 1
      show ?thesis
        by (rule by_step [OF watcher_context]) (use assms WLoop 1 in \<open>simp_all add: live_def exit_bound_def\<close>)
    next
      case 2
      show ?thesis
        by (rule by_step [OF watcher_returns]) (use assms WLoop 2 in \<open>simp_all add: live_def exit_bound_def\<close>)
    next
      case 3
      from loop_progress [OF 3, of uw eps] obtain w where w: "watch_step uw eps (sw_watch s) w" "ws_cancelled w"
        "loop_rank (ws_pc w) < loop_rank (ws_pc (sw_watch s))" "ws_cleaning (sw_watch s) \<subseteq># ws_cleaning w" by blast
      show ?thesis
        by (rule by_step [OF watcher_runs [OF _ _ w(1)]])
          (use assms WLoop 3 w in \<open>simp_all add: live_def exit_bound_def\<close>)
    qed
  qed (use assms in simp)
qed

text \<open>After the signal some step always leads closer to the exit, and every state is on the way or there.\<close>

lemma exit_progress:
  assumes "live s" and "sw_done s" and "sweeper_inv s"
  shows "\<exists>t. sweeper_step uw eps s t \<and> (live t \<or> sw_main t = MExit) \<and> exit_bound t < exit_bound s
     \<and> ws_cleaning (sw_watch s) \<subseteq># ws_cleaning (sw_watch t)"
proof -
  have by_step: ?thesis if "sweeper_step uw eps s t" "live t \<or> sw_main t = MExit" "exit_bound t < exit_bound s"
    "ws_cleaning (sw_watch s) \<subseteq># ws_cleaning (sw_watch t)" for t
    using that by blast
  show ?thesis
  proof (cases "sw_main s")
    case MWait
    show ?thesis by (rule by_step [OF main_wakes]) (use assms MWait in \<open>simp_all add: live_def exit_bound_def\<close>)
  next
    case MNotReady
    show ?thesis by (rule by_step [OF main_not_ready]) (use assms MNotReady in \<open>simp_all add: live_def exit_bound_def\<close>)
  next
    case MStop
    show ?thesis
    proof (cases "sw_watcher s \<in> {WStart, WMarked}")
      case True
      show ?thesis
        by (rule by_step [OF main_stop_nil [OF _ _ True]]) (use assms MStop in \<open>simp_all add: live_def exit_bound_def\<close>)
    next
      case False
      then have w: "sw_watcher s \<in> {WLoop, WReturned}" by (cases "sw_watcher s") simp_all
      have "watcher_rank (sw_watcher s) ((sw_watch s)\<lparr>ws_cancelled := True\<rparr>) = watcher_rank (sw_watcher s) (sw_watch s)"
        using w by auto
      then show ?thesis
        by (intro by_step [OF main_stop_cancel [OF _ _ w]]) (use assms MStop in \<open>simp_all add: live_def exit_bound_def\<close>)
    qed
  next
    case MShutdown
    show ?thesis by (rule by_step [OF main_shutdown]) (use assms MShutdown in \<open>simp_all add: live_def exit_bound_def\<close>)
  next
    case MShutting
    show ?thesis by (rule by_step [OF main_shut]) (use assms MShutting in \<open>simp_all add: live_def exit_bound_def\<close>)
  next
    case MJoin
    consider "sw_server s \<noteq> SReturned" | "sw_watcher s \<noteq> WReturned" | "sw_server s = SReturned" "sw_watcher s = WReturned"
      by blast
    then show ?thesis
    proof cases
      case 1
      have "sw_shut s" using assms(3) MJoin by (simp add: sweeper_inv_def)
      then show ?thesis
        by (intro by_step [OF server_closed]) (use assms MJoin 1 in \<open>simp_all add: live_def exit_bound_def\<close>)
    next
      case 2
      then show ?thesis using watcher_progress [OF assms(1,2)] by blast
    next
      case 3
      show ?thesis by (rule by_step [OF main_join]) (use assms MJoin 3 in \<open>simp_all add: live_def exit_bound_def\<close>)
    qed
  qed (use assms in \<open>simp add: live_def\<close>)
qed

lemma step_done: "sweeper_step uw eps s t \<Longrightarrow> sw_done s \<Longrightarrow> sw_done t"
  by (erule sweeper_stepE) simp_all

lemma exit_path:
  assumes "live s \<or> sw_main s = MExit" and "sw_done s" and "sweeper_inv s"
  shows "\<exists>n \<le> exit_bound s. \<exists>t. (sweeper_step uw eps ^^ n) s t \<and> sw_main t = MExit
     \<and> ws_cleaning (sw_watch s) \<subseteq># ws_cleaning (sw_watch t)"
  using assms
proof (induction "exit_bound s" arbitrary: s rule: less_induct)
  case less
  show ?case
  proof (cases "sw_main s = MExit")
    case True
    then show ?thesis by (intro exI [of _ 0] conjI exI [of _ s]) auto
  next
    case False
    then obtain u where u: "sweeper_step uw eps s u" "live u \<or> sw_main u = MExit" "exit_bound u < exit_bound s"
      "ws_cleaning (sw_watch s) \<subseteq># ws_cleaning (sw_watch u)"
      using exit_progress [of s uw eps] less.prems by blast
    with less.prems obtain n t where "n \<le> exit_bound u" "(sweeper_step uw eps ^^ n) u t" "sw_main t = MExit"
      "ws_cleaning (sw_watch u) \<subseteq># ws_cleaning (sw_watch t)"
      using less.hyps [of u] step_done [OF u(1)] sweeper_step_inv [OF u(1)] by blast
    then show ?thesis
      using u relpowp_Suc_I2 [of "sweeper_step uw eps" s u n t]
      by (intro exI [of _ "Suc n"]) (auto intro: subset_mset.order_trans)
  qed
qed

lemma exit_bound_kept:
  assumes "sweeper_step uw eps s t"
  shows "exit_bound t \<le> exit_bound s \<or> (ws_pc (sw_watch s) = AtSelect \<and> ws_pc (sw_watch t) = Checking eps)"
  using assms
proof cases
  case (watcher_runs w)
  from watcher_runs(4) have "loop_rank (ws_pc w) \<le> loop_rank (ws_pc (sw_watch s))
      \<or> (ws_pc (sw_watch s) = AtSelect \<and> ws_pc w = Checking eps)"
    by cases simp_all
  then show ?thesis using watcher_runs(3,5) by (auto simp: watcher_runs(1) exit_bound_def)
next
  case main_stop_cancel
  then have "watcher_rank (sw_watcher s) ((sw_watch s)\<lparr>ws_cancelled := True\<rparr>) = watcher_rank (sw_watcher s) (sw_watch s)"
    by auto
  then show ?thesis using main_stop_cancel by (simp add: exit_bound_def)
qed (auto simp: exit_bound_def)

lemma exit_bound_limit: "exit_bound s \<le> 11 + loop_rank (ws_pc (sw_watch s))"
proof -
  have "main_rank m \<le> 6" for m by (cases m) simp_all
  moreover have "watcher_rank p w \<le> 3 + loop_rank (ws_pc w)" for p w by (cases p) simp_all
  ultimately have "main_rank (sw_main s) \<le> 6"
    and "watcher_rank (sw_watcher s) (sw_watch s) \<le> 3 + loop_rank (ws_pc (sw_watch s))" by blast+
  then show ?thesis
    by (cases "sw_server s = SReturned"; cases "ws_cancelled (sw_watch s)") (simp_all add: exit_bound_def)
qed

section \<open>Properties of the sweeper's process\<close>

text \<open>
  C33. The shutdown of the sweeper: in every reachable state after the signal, unless the health server failed and ended
  the process, the exit is at most eleven steps and the rest of a running check away, and the steps of
  the process keep it within reach (only a tick that starts one more check puts it off). At the exit both
  goroutines have returned, but the exit does not wait for cleanups: all that were running at the
  signal may be abandoned half-way.
\<close>

theorem sweeper_shuts_down:
  assumes "sweeper_init s0" and "(sweeper_step uw eps)\<^sup>*\<^sup>* s0 s" and "sw_done s" and "\<not> sw_died s"
  shows "(\<exists>n \<le> 11 + loop_rank (ws_pc (sw_watch s)). \<exists>t. (sweeper_step uw eps ^^ n) s t \<and> sw_main t = MExit
        \<and> sw_server t = SReturned \<and> sw_watcher t = WReturned
        \<and> ws_cleaning (sw_watch s) \<subseteq># ws_cleaning (sw_watch t))
    \<and> (\<forall>t. sweeper_step uw eps s t \<longrightarrow>
        exit_bound t \<le> exit_bound s \<or> (ws_pc (sw_watch s) = AtSelect \<and> ws_pc (sw_watch t) = Checking eps))"
proof -
  have inv: "sweeper_inv s" by (rule sweeper.reachable_inv [OF assms(1,2)])
  obtain n t where t: "n \<le> exit_bound s" "(sweeper_step uw eps ^^ n) s t" "sw_main t = MExit"
    "ws_cleaning (sw_watch s) \<subseteq># ws_cleaning (sw_watch t)"
    using exit_path [OF _ assms(3) inv, of uw eps] assms(4) by (auto simp: live_def)
  have "(sweeper_step uw eps)\<^sup>*\<^sup>* s t" using t(2) by (rule relpowp_imp_rtranclp)
  then have "sweeper_inv t" using sweeper.run_inv inv by blast
  then have "sw_server t = SReturned \<and> sw_watcher t = WReturned" using t(3) by (simp add: sweeper_inv_def)
  moreover have "n \<le> 11 + loop_rank (ws_pc (sw_watch s))" using t(1) exit_bound_limit [of s] by simp
  ultimately show ?thesis using t exit_bound_kept by blast
qed

definition silent :: "sweeper_sys \<Rightarrow> bool" where
  "silent s \<longleftrightarrow> \<not> hh_ready (sw_health s) \<and> sw_watcher s \<noteq> WStart"

lemma silent_step: "sweeper_step uw eps s t \<Longrightarrow> silent s \<Longrightarrow> silent t"
  by (erule sweeper_stepE) (auto simp: silent_def SetReady_def)

lemma silent_run: "(sweeper_step uw eps)\<^sup>*\<^sup>* s t \<Longrightarrow> silent s \<Longrightarrow> silent t"
  by (induction rule: rtranclp_induct) (auto intro: silent_step)

lemma readiness_status:
  "rw_Status (ReadinessProbe h new_response) = Some (if hh_ready h then 200 else 503)"
  by (simp add: ReadinessProbe_def http_defs new_response_def)

text \<open>
  C34. Readiness: until \<open>main\<close> acts on the signal the readiness probe answers 200 exactly when the watcher's goroutine
  has marked the process ready, and once \<open>main\<close> has cleared that mark the probe answers 503 for good. But
  nothing orders the two: when the goroutine is scheduled after the signal, the mark comes
  last, and the probe answers 200 while the server is being shut down.
\<close>

theorem readiness_until_shutdown:
  assumes "sweeper_init s0" and "(sweeper_step uw eps)\<^sup>*\<^sup>* s0 s"
  shows "(sw_main s \<in> {MWait, MNotReady} \<longrightarrow>
        rw_Status (ReadinessProbe (sw_health s) new_response) = Some (if sw_watcher s = WStart then 503 else 200))
    \<and> (\<forall>t. sw_main s \<notin> {MWait, MNotReady} \<longrightarrow> sw_watcher s \<noteq> WStart \<longrightarrow> \<not> hh_ready (sw_health s) \<longrightarrow>
        (sweeper_step uw eps)\<^sup>*\<^sup>* s t \<longrightarrow> rw_Status (ReadinessProbe (sw_health t) new_response) = Some 503)
    \<and> (\<exists>late. (sweeper_step uw eps)\<^sup>*\<^sup>* s0 late \<and> sw_main late = MShutdown \<and> sw_server late = SServing
        \<and> rw_Status (ReadinessProbe (sw_health late) new_response) = Some 200)"
proof (intro conjI allI impI)
  have inv: "sweeper_inv s" by (rule sweeper.reachable_inv [OF assms])
  assume "sw_main s \<in> {MWait, MNotReady}"
  then show "rw_Status (ReadinessProbe (sw_health s) new_response) = Some (if sw_watcher s = WStart then 503 else 200)"
    using inv by (simp add: readiness_status sweeper_inv_def)
next
  fix t assume "sw_watcher s \<noteq> WStart" "\<not> hh_ready (sw_health s)" "(sweeper_step uw eps)\<^sup>*\<^sup>* s t"
  then have "silent t" using silent_run [of uw eps s t] by (simp add: silent_def)
  then show "rw_Status (ReadinessProbe (sw_health t) new_response) = Some 503"
    by (simp add: readiness_status silent_def)
next
  obtain w where s0: "s0 = \<lparr>sw_main = MWait, sw_server = SStart, sw_watcher = WStart, sw_health = Health, sw_done = False,
      sw_shut = False, sw_died = False, sw_watch = w\<rparr>"
    using assms(1) by (auto simp: sweeper_init_def)
  define s1 where "s1 = s0\<lparr>sw_server := SServing\<rparr>"
  define s2 where "s2 = s1\<lparr>sw_done := True\<rparr>"
  define s3 where "s3 = s2\<lparr>sw_main := MNotReady\<rparr>"
  define s4 where "s4 = s3\<lparr>sw_main := MStop, sw_health := SetReady False (sw_health s3)\<rparr>"
  define s5 where "s5 = s4\<lparr>sw_watcher := WMarked, sw_health := SetReady True (sw_health s4)\<rparr>"
  define s6 where "s6 = s5\<lparr>sw_main := MShutdown\<rparr>"
  note defs = s0 s1_def s2_def s3_def s4_def s5_def s6_def live_def
  have "sweeper_step uw eps s0 s1" unfolding s1_def by (rule server_listen) (simp_all add: defs)
  moreover have "sweeper_step uw eps s1 s2" unfolding s2_def by (rule signal) (simp_all add: defs)
  moreover have "sweeper_step uw eps s2 s3" unfolding s3_def by (rule main_wakes) (simp_all add: defs)
  moreover have "sweeper_step uw eps s3 s4" unfolding s4_def by (rule main_not_ready) (simp_all add: defs)
  moreover have "sweeper_step uw eps s4 s5" unfolding s5_def by (rule watcher_marks) (simp_all add: defs)
  moreover have "sweeper_step uw eps s5 s6" unfolding s6_def by (rule main_stop_nil) (simp_all add: defs)
  ultimately have "(sweeper_step uw eps)\<^sup>*\<^sup>* s0 s6" by (meson converse_rtranclp_into_rtranclp rtranclp.rtrancl_refl)
  then show "\<exists>late. (sweeper_step uw eps)\<^sup>*\<^sup>* s0 late \<and> sw_main late = MShutdown \<and> sw_server late = SServing
      \<and> rw_Status (ReadinessProbe (sw_health late) new_response) = Some 200"
    by (intro exI [of _ s6]) (simp add: readiness_status, simp add: defs SetReady_def)
qed


text \<open>At concrete inputs: the watcher of the default configuration, from the start.\<close>

definition wit_watcher :: UsageWatcher where
  "wit_watcher = NewUsageWatcher \<lparr>cfg_Threshold = f64 (4 / 5), cfg_Interval = 0\<rparr>"

definition wit_sweeper :: sweeper_sys where
  "wit_sweeper = \<lparr>sw_main = MWait, sw_server = SStart, sw_watcher = WStart, sw_health = Health, sw_done = False,
      sw_shut = False, sw_died = False,
      sw_watch = \<lparr>ws_pc = AtSelect, ws_suspended = False, ws_cancelled = False, ws_cleaning = {#}, ws_resuming = 0\<rparr>\<rparr>"

lemma wit_sweeper_init: "sweeper_init wit_sweeper"
  by (simp add: sweeper_init_def wit_sweeper_def watch_init_def)

theorem sweeper_shuts_down_witness:
  "\<exists>n t. n \<le> 12 \<and> (sweeper_step wit_watcher [''ep''] ^^ n) (wit_sweeper\<lparr>sw_done := True\<rparr>) t \<and> sw_main t = MExit"
proof -
  let ?s = "wit_sweeper\<lparr>sw_done := True\<rparr>"
  have "sweeper_step wit_watcher [''ep''] wit_sweeper ?s"
    by (rule signal) (simp_all add: wit_sweeper_def live_def)
  then have "(sweeper_step wit_watcher [''ep''])\<^sup>*\<^sup>* wit_sweeper ?s" by blast
  from sweeper_shuts_down [OF wit_sweeper_init this] show ?thesis by (auto simp: wit_sweeper_def)
qed

theorem readiness_until_shutdown_witness:
  "\<exists>late. (sweeper_step wit_watcher [''ep''])\<^sup>*\<^sup>* wit_sweeper late \<and> sw_main late = MShutdown
     \<and> rw_Status (ReadinessProbe (sw_health wit_sweeper) new_response) = Some 503
     \<and> rw_Status (ReadinessProbe (sw_health late) new_response) = Some 200"
  using readiness_until_shutdown [OF wit_sweeper_init, of wit_watcher "[''ep'']" wit_sweeper]
  by (auto simp: wit_sweeper_def)

end
