(* ===== verification/Shutdown.thy ===== *)
theory Shutdown
  imports RouterMain
begin

text \<open>
  How the other two processes end. The event server (\<open>eventsse/main.go\<close>, from the health flag on): \<open>main\<close> and the
  goroutine of its server, with the requests and streams the server holds. The event router
  (\<open>eventrouter/main.go\<close>, from the handler on): the signal, the goroutine of \<open>Run\<close> with the pushes of its
  callbacks, the queue's goroutines, and the exit that \<open>main\<close> takes.
\<close>

section \<open>The event server's process\<close>

text \<open>
  \<open>main\<close> waits for the signal, clears the health flag and shuts the server down: the call returns when no request is
  left, and with an error, which is fatal, when its 30 seconds are over first; \<open>sp_timer\<close> counts the seconds that are
  left. So is an error of \<open>ListenAndServe\<close> that is not its return after a shutdown. Once \<open>main\<close> has the
  signal it restores the default behaviour, by which a second one kills the process. A stream is a request to
  \<open>/notifications\<close>: its handler returns when the client leaves, a write to it fails, or the watch channel is closed.
\<close>

datatype sse_pc = PWait | PUnhealthy | PShutdown | PShutting | PExit | PForced | PFatal | PKilled

datatype listener_pc = LStart | LMarked | LServing | LReturned

record sse_proc =
  sp_main :: sse_pc
  sp_listener :: listener_pc
  sp_healthy :: int
  sp_done :: bool
  sp_shut :: bool
  sp_timer :: nat
  sp_requests :: nat
  sp_streams :: nat

definition sse_start :: sse_proc where
  "sse_start = \<lparr>sp_main = PWait, sp_listener = LStart, sp_healthy = 0, sp_done = False, sp_shut = False,
     sp_timer = 0, sp_requests = 0, sp_streams = 0\<rparr>"

definition alive :: "sse_proc \<Rightarrow> bool" where
  "alive s \<longleftrightarrow> sp_main s \<in> {PWait, PUnhealthy, PShutdown, PShutting}"

inductive sse_step :: "sse_proc \<Rightarrow> sse_proc \<Rightarrow> bool" where
  sse_signal: "sp_main s = PWait \<Longrightarrow> sse_step s (s\<lparr>sp_done := True\<rparr>)"
| sse_wakes: "sp_main s = PWait \<Longrightarrow> sp_done s \<Longrightarrow> sse_step s (s\<lparr>sp_main := PUnhealthy\<rparr>)"
| sse_killed: "sp_main s \<in> {PUnhealthy, PShutdown, PShutting} \<Longrightarrow> sse_step s (s\<lparr>sp_main := PKilled\<rparr>)"
| sse_unhealthy: "sp_main s = PUnhealthy \<Longrightarrow> sse_step s (s\<lparr>sp_main := PShutdown, sp_healthy := 0\<rparr>)"
| sse_shutdown: "sp_main s = PShutdown \<Longrightarrow> sse_step s (s\<lparr>sp_main := PShutting, sp_shut := True, sp_timer := 30\<rparr>)"
| sse_second: "sp_main s = PShutting \<Longrightarrow> 0 < sp_timer s \<Longrightarrow> sse_step s (s\<lparr>sp_timer := sp_timer s - 1\<rparr>)"
| sse_closed: "sp_main s = PShutting \<Longrightarrow> sp_requests s = 0 \<Longrightarrow> sp_streams s = 0 \<Longrightarrow>
    sse_step s (s\<lparr>sp_main := PExit\<rparr>)"
| sse_forced: "sp_main s = PShutting \<Longrightarrow> sp_timer s = 0 \<Longrightarrow> sse_step s (s\<lparr>sp_main := PForced\<rparr>)"
| listener_marks: "alive s \<Longrightarrow> sp_listener s = LStart \<Longrightarrow> sse_step s (s\<lparr>sp_listener := LMarked, sp_healthy := 1\<rparr>)"
| listener_serves: "alive s \<Longrightarrow> sp_listener s = LMarked \<Longrightarrow> \<not> sp_shut s \<Longrightarrow> sse_step s (s\<lparr>sp_listener := LServing\<rparr>)"
| listener_closed: "alive s \<Longrightarrow> sp_listener s \<in> {LMarked, LServing} \<Longrightarrow> sp_shut s \<Longrightarrow>
    sse_step s (s\<lparr>sp_listener := LReturned\<rparr>)"
| listener_fails: "alive s \<Longrightarrow> sp_listener s = LMarked \<or> sp_listener s = LServing \<and> \<not> sp_shut s \<Longrightarrow>
    sse_step s (s\<lparr>sp_main := PFatal\<rparr>)"
| request_comes: "alive s \<Longrightarrow> sp_listener s = LServing \<Longrightarrow> \<not> sp_shut s \<Longrightarrow>
    sse_step s (s\<lparr>sp_requests := sp_requests s + 1\<rparr>)"
| request_done: "alive s \<Longrightarrow> 0 < sp_requests s \<Longrightarrow> sse_step s (s\<lparr>sp_requests := sp_requests s - 1\<rparr>)"
| stream_opens: "alive s \<Longrightarrow> sp_listener s = LServing \<Longrightarrow> \<not> sp_shut s \<Longrightarrow>
    sse_step s (s\<lparr>sp_streams := sp_streams s + 1\<rparr>)"
| stream_ends: "alive s \<Longrightarrow> 0 < sp_streams s \<Longrightarrow> sse_step s (s\<lparr>sp_streams := sp_streams s - 1\<rparr>)"

inductive_cases sse_stepE: "sse_step s t"

definition sse_inv :: "sse_proc \<Rightarrow> bool" where
  "sse_inv s \<longleftrightarrow>
     (sp_main s \<in> {PShutting, PExit, PForced} \<longrightarrow> sp_shut s)
     \<and> (sp_main s \<in> {PUnhealthy, PShutdown, PShutting, PExit, PForced} \<longrightarrow> sp_done s)
     \<and> (sp_main s = PExit \<longrightarrow> sp_requests s = 0 \<and> sp_streams s = 0)
     \<and> (sp_main s = PForced \<longrightarrow> sp_timer s = 0)
     \<and> sp_timer s \<le> 30
     \<and> (sp_main s \<in> {PWait, PUnhealthy} \<longrightarrow> sp_healthy s = (if sp_listener s = LStart then 0 else 1))"

lemma sse_step_inv:
  assumes "sse_step s t" and "sse_inv s"
  shows "sse_inv t"
  using assms(1) by cases (use assms(2) in \<open>simp_all add: sse_inv_def alive_def\<close>, linarith, metis listener_pc.distinct)

interpretation sse: transition_system "\<lambda>s. s = sse_start" sse_step sse_inv
proof
  show "sse_inv s" if "s = sse_start" for s
    using that by (simp add: sse_inv_def sse_start_def)
qed (rule sse_step_inv)


section \<open>The shutdown of the event server\<close>

text \<open>
  The steps that are left of a shutdown: the seconds of the timer, the requests and the streams, the steps
  of the server's goroutine, and the end.
\<close>

fun listener_left :: "listener_pc \<Rightarrow> nat" where
  "listener_left LStart = 2"
| "listener_left LReturned = 0"
| "listener_left _ = 1"

definition shutdown_left :: "sse_proc \<Rightarrow> nat" where
  "shutdown_left s =
     (if alive s then 1 + sp_timer s + sp_requests s + sp_streams s + listener_left (sp_listener s) else 0)"

lemma shutdown_step:
  assumes "sse_step s t" and "sse_inv s" and "sp_main s = PShutting \<or> \<not> alive s"
  shows "shutdown_left t < shutdown_left s \<and> (sp_main t = PShutting \<or> \<not> alive t)"
  using assms(1) by cases (use assms(2,3) in \<open>auto simp: shutdown_left_def alive_def sse_inv_def\<close>)

lemma shutdown_run:
  assumes "(sse_step ^^ k) s t" and "sse_inv s" and "sp_main s = PShutting \<or> \<not> alive s"
  shows "k + shutdown_left t \<le> shutdown_left s \<and> sse_inv t \<and> (sp_main t = PShutting \<or> \<not> alive t)"
  using assms(1)
proof (induction k arbitrary: t)
  case (Suc k)
  then obtain u where u: "(sse_step ^^ k) s u" "sse_step u t" by auto
  then show ?case using Suc.IH [OF u(1)] shutdown_step [OF u(2)] sse_step_inv [OF u(2)] by fastforce
qed (use assms in simp)

lemma shutdown_not_stuck:
  assumes "sp_main s = PShutting"
  shows "\<exists>t. sse_step s t"
  using sse_second [OF assms] sse_forced [OF assms] by (cases "sp_timer s = 0") blast+

text \<open>
  C35. The shutdown of the event server ends. However its goroutines, requests and clients are scheduled, a run
  that has entered \<open>Shutdown\<close> makes at most three steps beside the seconds of the timer and the requests and
  streams it found, and it stops only when the process has ended. Unless a second signal kills it or the
  listener fails, it has then come to a clean exit if not all 30 seconds were used, and a clean exit leaves no
  request and no stream behind; with a stream still open it has run into the time-out, which is fatal.
\<close>

theorem sse_shuts_down:
  assumes "sse_step\<^sup>*\<^sup>* sse_start s" and "sp_main s = PShutting" and "(sse_step ^^ k) s t"
  shows "k \<le> sp_timer s + sp_requests s + sp_streams s + 3 \<and> sp_timer s \<le> 30
    \<and> ((\<exists>u. sse_step t u) \<longleftrightarrow> sp_main t = PShutting)
    \<and> ((\<nexists>u. sse_step t u) \<and> sp_main t \<notin> {PFatal, PKilled} \<longrightarrow>
         (0 < sp_timer t \<longrightarrow> sp_main t = PExit) \<and> (0 < sp_streams t \<longrightarrow> sp_main t = PForced)
         \<and> (sp_main t = PExit \<longrightarrow> sp_requests t = 0 \<and> sp_streams t = 0)
         \<and> (sp_main t = PExit \<or> sp_main t = PForced))"
proof -
  have inv: "sse_inv s" by (rule sse.reachable_inv [OF refl assms(1)])
  have run: "k + shutdown_left t \<le> shutdown_left s" "sse_inv t" "sp_main t = PShutting \<or> \<not> alive t"
    using shutdown_run [OF assms(3) inv] assms(2) by simp_all
  have "shutdown_left s \<le> sp_timer s + sp_requests s + sp_streams s + 3"
    by (cases "sp_listener s") (simp_all add: shutdown_left_def)
  then have "k \<le> sp_timer s + sp_requests s + sp_streams s + 3" using run(1) by linarith
  moreover have "sp_timer s \<le> 30" using inv by (simp add: sse_inv_def)
  moreover have "(\<exists>u. sse_step t u) \<longleftrightarrow> sp_main t = PShutting"
  proof
    assume "\<exists>u. sse_step t u"
    then obtain u where "sse_step t u" ..
    from shutdown_step [OF this run(2,3)] show "sp_main t = PShutting"
      using run(3) by (cases "alive t") (simp_all add: shutdown_left_def)
  qed (rule shutdown_not_stuck)
  moreover have "sp_main t \<in> {PExit, PForced, PFatal, PKilled}" if "sp_main t \<noteq> PShutting"
    using that run(3) by (cases "sp_main t") (auto simp: alive_def)
  moreover note run(2) [unfolded sse_inv_def]
  ultimately show ?thesis by (cases "sp_main t") simp_all
qed

text \<open>At a concrete input: a stream is opened, the signal comes, and the client stays for 30 seconds.\<close>

definition wit_streaming :: sse_proc where
  "wit_streaming = \<lparr>sp_main = PShutting, sp_listener = LServing, sp_healthy = 0, sp_done = True, sp_shut = True,
     sp_timer = 30, sp_requests = 0, sp_streams = 1\<rparr>"

lemma wit_streaming_run: "sse_step\<^sup>*\<^sup>* sse_start wit_streaming"
proof -
  let ?s1 = "sse_start\<lparr>sp_listener := LMarked, sp_healthy := 1\<rparr>"
  let ?s2 = "?s1\<lparr>sp_listener := LServing\<rparr>"
  let ?s3 = "?s2\<lparr>sp_streams := sp_streams ?s2 + 1\<rparr>"
  let ?s4 = "?s3\<lparr>sp_done := True\<rparr>"
  let ?s5 = "?s4\<lparr>sp_main := PUnhealthy\<rparr>"
  let ?s6 = "?s5\<lparr>sp_main := PShutdown, sp_healthy := 0\<rparr>"
  let ?s7 = "?s6\<lparr>sp_main := PShutting, sp_shut := True, sp_timer := 30\<rparr>"
  have "sse_step sse_start ?s1" by (rule listener_marks) (simp_all add: alive_def sse_start_def)
  moreover have "sse_step ?s1 ?s2" by (rule listener_serves) (simp_all add: alive_def sse_start_def)
  moreover have "sse_step ?s2 ?s3" by (rule stream_opens) (simp_all add: alive_def sse_start_def)
  moreover have "sse_step ?s3 ?s4" by (rule sse_signal) (simp add: sse_start_def)
  moreover have "sse_step ?s4 ?s5" by (rule sse_wakes) (simp_all add: sse_start_def)
  moreover have "sse_step ?s5 ?s6" by (rule sse_unhealthy) simp
  moreover have "sse_step ?s6 ?s7" by (rule sse_shutdown) simp
  ultimately have "sse_step\<^sup>*\<^sup>* sse_start ?s7" by (meson converse_rtranclp_into_rtranclp rtranclp.rtrancl_refl)
  moreover have "?s7 = wit_streaming" by (simp add: wit_streaming_def sse_start_def)
  ultimately show ?thesis by simp
qed

lemma wit_seconds: "n \<le> 30 \<Longrightarrow> (sse_step ^^ n) wit_streaming (wit_streaming\<lparr>sp_timer := 30 - n\<rparr>)"
proof (induction n)
  case 0
  then show ?case by (simp add: wit_streaming_def)
next
  case (Suc n)
  let ?s = "wit_streaming\<lparr>sp_timer := 30 - n\<rparr>"
  have "sse_step ?s (?s\<lparr>sp_timer := sp_timer ?s - 1\<rparr>)"
    using Suc.prems by (intro sse_second) (simp_all add: wit_streaming_def)
  moreover have "?s\<lparr>sp_timer := sp_timer ?s - 1\<rparr> = wit_streaming\<lparr>sp_timer := 30 - Suc n\<rparr>" by simp
  ultimately show ?case using Suc by auto
qed

theorem sse_shuts_down_witness:
  "sse_step\<^sup>*\<^sup>* sse_start wit_streaming \<and> sp_streams wit_streaming = 1
     \<and> (sse_step ^^ 31) wit_streaming (wit_streaming\<lparr>sp_timer := 0, sp_main := PForced\<rparr>)
     \<and> (\<nexists>u. sse_step (wit_streaming\<lparr>sp_timer := 0, sp_main := PForced\<rparr>) u)"
proof -
  let ?t = "wit_streaming\<lparr>sp_timer := 0, sp_main := PForced\<rparr>"
  have "sse_step (wit_streaming\<lparr>sp_timer := 0\<rparr>) ?t"
    using sse_forced [of "wit_streaming\<lparr>sp_timer := 0\<rparr>"] by (simp add: wit_streaming_def)
  moreover have "(sse_step ^^ 30) wit_streaming (wit_streaming\<lparr>sp_timer := 0\<rparr>)" using wit_seconds [of 30] by simp
  ultimately have "(sse_step ^^ Suc 30) wit_streaming ?t" by (rule relpowp_Suc_I [rotated])
  moreover have "Suc 30 = 31" by simp
  ultimately have run: "(sse_step ^^ 31) wit_streaming ?t" by (simp only:)
  have "sp_main wit_streaming = PShutting" by (simp add: wit_streaming_def)
  from sse_shuts_down [OF wit_streaming_run this run] have "\<nexists>u. sse_step ?t u" by simp
  with run wit_streaming_run show ?thesis by (simp add: wit_streaming_def)
qed

text \<open>
  The health flag: until \<open>main\<close> acts on the signal it says exactly whether the server's goroutine
  has set it, but a goroutine that is scheduled late sets it after \<open>main\<close> has cleared it.
\<close>

lemma late_mark:
  "\<exists>late. sse_step\<^sup>*\<^sup>* sse_start late \<and> sp_main late = PShutdown \<and> sp_healthy late = 1"
proof -
  let ?s1 = "sse_start\<lparr>sp_done := True\<rparr>"
  let ?s2 = "?s1\<lparr>sp_main := PUnhealthy\<rparr>"
  let ?s3 = "?s2\<lparr>sp_main := PShutdown, sp_healthy := 0\<rparr>"
  let ?s4 = "?s3\<lparr>sp_listener := LMarked, sp_healthy := 1\<rparr>"
  have "sse_step sse_start ?s1" by (rule sse_signal) (simp add: sse_start_def)
  moreover have "sse_step ?s1 ?s2" by (rule sse_wakes) (simp_all add: sse_start_def)
  moreover have "sse_step ?s2 ?s3" by (rule sse_unhealthy) simp
  moreover have "sse_step ?s3 ?s4" by (rule listener_marks) (simp_all add: alive_def sse_start_def)
  ultimately have "sse_step\<^sup>*\<^sup>* sse_start ?s4" by (meson converse_rtranclp_into_rtranclp rtranclp.rtrancl_refl)
  then show ?thesis by (intro exI [of _ ?s4]) simp
qed

lemma sse_health:
  "sse_step\<^sup>*\<^sup>* sse_start s \<Longrightarrow> sp_main s \<in> {PWait, PUnhealthy} \<Longrightarrow>
     sp_healthy s = (if sp_listener s = LStart then 0 else 1)"
  using sse.reachable_inv [OF refl, of s] by (simp add: sse_inv_def)

section \<open>The event router's process\<close>

text \<open>
  The informer's callbacks push while \<open>Run\<close> runs; it returns after the signal, when no callback is inside a \<open>Push\<close>.
  Then \<open>main\<close> calls \<open>os.Exit\<close>, which ends the process, the queue's goroutines with it, without running
  the deferred call of \<open>Terminate\<close>.
\<close>

record 'j router_proc =
  rp_queue :: "'j chan_queue"
  rp_stop :: bool
  rp_returned :: bool
  rp_exited :: bool

definition router_start :: "'j chan_queue \<Rightarrow> 'j router_proc" where
  "router_start q = \<lparr>rp_queue = q, rp_stop = False, rp_returned = False, rp_exited = False\<rparr>"

inductive router_step :: "'j router_proc \<Rightarrow> 'j router_proc \<Rightarrow> bool" where
  router_signal: "\<not> rp_exited s \<Longrightarrow> router_step s (s\<lparr>rp_stop := True\<rparr>)"
| router_push: "\<not> rp_exited s \<Longrightarrow> \<not> rp_returned s \<Longrightarrow> \<not> p_panic (rp_queue s) \<Longrightarrow> p_running (rp_queue s) \<Longrightarrow>
    router_step s (s\<lparr>rp_queue := (rp_queue s)\<lparr>q_adding := add_mset j (q_adding (rp_queue s))\<rparr>\<rparr>)"
| router_add: "\<not> rp_exited s \<Longrightarrow> \<not> p_panic (rp_queue s) \<Longrightarrow> j \<in># q_adding (rp_queue s) \<Longrightarrow>
    router_step s (s\<lparr>rp_queue := (rp_queue s)\<lparr>q_adding := q_adding (rp_queue s) - {#j#},
      q_sending := add_mset j (q_sending (rp_queue s)), p_wg := p_wg (rp_queue s) + 1,
      q_accepted := add_mset j (q_accepted (rp_queue s)),
      q_late := (q_late (rp_queue s) \<or> p_terminate (rp_queue s) \<notin> {TIdle, TWaiting})\<rparr>\<rparr>)"
| router_work: "\<not> rp_exited s \<Longrightarrow> queue_step (rp_queue s) q \<Longrightarrow> router_step s (s\<lparr>rp_queue := q\<rparr>)"
| router_return: "\<not> rp_exited s \<Longrightarrow> rp_stop s \<Longrightarrow> q_adding (rp_queue s) = {#} \<Longrightarrow> q_sending (rp_queue s) = {#} \<Longrightarrow>
    router_step s (s\<lparr>rp_returned := True\<rparr>)"
| router_exit: "rp_returned s \<Longrightarrow> router_step s (s\<lparr>rp_exited := True\<rparr>)"

lemma router_queue_step:
  assumes "router_step s t"
  shows "(rp_queue t = rp_queue s \<or> chan_step (rp_queue s) (rp_queue t)) \<and> p_terminate (rp_queue t) = p_terminate (rp_queue s)"
  using assms
proof cases
  case (router_push j)
  then show ?thesis using push [of "rp_queue s" j] by simp
next
  case (router_add j)
  then show ?thesis using push_add [of "rp_queue s" j] by simp
next
  case (router_work q)
  then show ?thesis using queue [of "rp_queue s" q] queue_step_frame [of "rp_queue s" q] by simp
qed simp_all

lemma router_queue_run:
  assumes "router_step\<^sup>*\<^sup>* s t"
  shows "chan_step\<^sup>*\<^sup>* (rp_queue s) (rp_queue t) \<and> p_terminate (rp_queue t) = p_terminate (rp_queue s)"
  using assms
proof (induction rule: rtranclp_induct)
  case (step t u)
  then show ?case using router_queue_step [of t u] by (metis rtranclp.rtrancl_into_rtrancl)
qed simp

text \<open>
  C38. What the exit of the router loses: the queue of a router \<open>main\<close> started is never terminated, so the panics and
  hangs of a late push cannot happen in it and no goroutine panics; but the jobs that are in the
  queue when the process exits are lost. For every job there is a run in which it is accepted, the signal
  comes, and the process exits with the job never run.
\<close>

theorem router_exit_loses_jobs:
  assumes "router_main ku v4 flags env = Started q er" and "router_step\<^sup>*\<^sup>* (router_start q) s"
  shows "p_terminate (rp_queue s) = TIdle \<and> \<not> p_panic (rp_queue s)
    \<and> q_accepted (rp_queue s) = p_executed (rp_queue s) + q_pending (rp_queue s)
    \<and> (\<exists>t. router_step\<^sup>*\<^sup>* (router_start q) t \<and> rp_exited t
        \<and> q_accepted (rp_queue t) = {#j#} \<and> p_executed (rp_queue t) = {#} \<and> q_pending (rp_queue t) = {#j#})"
proof -
  obtain cap n where init: "chan_init cap n q"
    using router_main_Started(1) [OF assms(1)] by (auto simp: chan_init_def)
  note f = chan_init_fields [OF init]
  have idle: "p_terminate (rp_queue s) = TIdle" and run: "chan_step\<^sup>*\<^sup>* q (rp_queue s)"
    using router_queue_run [OF assms(2)] f(5) by (simp_all add: router_start_def)
  have inv: "chan_inv (rp_queue s)" by (rule cq.reachable_inv [OF init run])
  then have sound: "\<not> p_panic (rp_queue s)"
    using idle by (auto simp: chan_inv_def chan_safe_def)
  have acc: "q_accepted (rp_queue s) = p_executed (rp_queue s) + q_pending (rp_queue s)"
    using inv by (simp add: chan_inv_def chan_acct_def)
  have new: "q_accepted q = {#}" "p_executed q = {#}" "\<not> q_late q"
    using init by (auto simp: chan_init_def NewQueue_def Run_def split: if_splits)
  define q1 where "q1 = q\<lparr>q_adding := {#j#}\<rparr>"
  define q2 where "q2 = q1\<lparr>q_adding := {#}, q_sending := {#j#}, p_wg := 1, q_accepted := {#j#}, q_late := False\<rparr>"
  define q3 where "q3 = q2\<lparr>q_sending := {#}, q_disp := DPool j\<rparr>"
  define s0 where "s0 = router_start q"
  define s1 where "s1 = s0\<lparr>rp_queue := q1\<rparr>"
  define s2 where "s2 = s1\<lparr>rp_queue := q2\<rparr>"
  define s3 where "s3 = s2\<lparr>rp_queue := q3\<rparr>"
  define s4 where "s4 = s3\<lparr>rp_stop := True\<rparr>"
  define s5 where "s5 = s4\<lparr>rp_returned := True\<rparr>"
  define s6 where "s6 = s5\<lparr>rp_exited := True\<rparr>"
  note defs = s0_def s1_def s2_def s3_def s4_def s5_def s6_def router_start_def q1_def q2_def q3_def
  have "router_step s0 s1" using router_push [of s0 j] f by (simp add: defs)
  moreover have "router_step s1 s2" using router_add [of s1 j] f new by (simp add: defs)
  moreover have "queue_step q2 q3" using push_send_direct [of q2 j] f by (simp add: q1_def q2_def q3_def)
  then have "router_step s2 s3" unfolding s3_def by (intro router_work) (simp_all add: s0_def s1_def s2_def router_start_def)
  moreover have "router_step s3 s4" unfolding s4_def by (rule router_signal) (simp add: defs)
  moreover have "router_step s4 s5" unfolding s5_def by (rule router_return) (simp_all add: defs)
  moreover have "router_step s5 s6" unfolding s6_def by (rule router_exit) (simp add: defs)
  ultimately have "router_step\<^sup>*\<^sup>* s0 s6" by (meson converse_rtranclp_into_rtranclp rtranclp.rtrancl_refl)
  moreover have "rp_exited s6" "q_accepted (rp_queue s6) = {#j#}" "p_executed (rp_queue s6) = {#}"
    using new by (simp_all add: defs)
  moreover have "q_accepted (rp_queue s6) = p_executed (rp_queue s6) + q_pending (rp_queue s6)"
    using cq.reachable_accounted [OF init] router_queue_run [OF \<open>router_step\<^sup>*\<^sup>* s0 s6\<close>]
    by (simp add: s0_def router_start_def)
  ultimately show ?thesis using idle sound acc by (intro conjI exI [of _ s6]) (simp_all add: s0_def)
qed

theorem router_exit_loses_jobs_witness:
  "\<exists>(q :: string chan_queue) er t. router_main wit_kube False (\<lambda>s. s) Map.empty = Started q er
     \<and> router_step\<^sup>*\<^sup>* (router_start q) t \<and> rp_exited t \<and> p_executed (rp_queue t) = {#}
     \<and> q_pending (rp_queue t) = {#''job''#}"
proof -
  obtain q :: "string chan_queue" and er where m: "router_main wit_kube False (\<lambda>s. s) Map.empty = Started q er"
    by (simp add: router_main_def default_settings_def env_Int_def NewQueue_def Run_def NewPusher_def
        NewObjectResolver_def Let_def rest_config_def wit_kube_def)
  from router_exit_loses_jobs [OF m rtranclp.rtrancl_refl, of "''job''"] m show ?thesis by blast
qed

end
