(* ===== verification/Calendar.thy ===== *)
theory Calendar
  imports Event
begin

text \<open>
  What \<open>types/time.go\<close> of eventsse uses of Go's package \<open>time\<close>: the date of an instant in UTC, and the
  layout \<open>RFC3339\<close>, \<open>2006-01-02T15:04:05Z07:00\<close>, for printing an instant in UTC and for parsing. The
  calendar is the proleptic Gregorian one. An instant is a \<open>timestamp\<close>, the nanoseconds since the
  first of January of year 1, so its days are counted from there; years before it are reached through
  the cycle of 400 years.
\<close>

section \<open>Dates\<close>

definition is_leap :: "nat \<Rightarrow> bool" where
  "is_leap y \<longleftrightarrow> y mod 4 = 0 \<and> (y mod 100 \<noteq> 0 \<or> y mod 400 = 0)"

definition year_len :: "nat \<Rightarrow> nat" where
  "year_len y = (if is_leap y then 366 else 365)"

definition month_lens :: "nat \<Rightarrow> nat list" where
  "month_lens y = [31, if is_leap y then 29 else 28, 31, 30, 31, 30, 31, 31, 30, 31, 30, 31]"

function year_loop :: "nat \<Rightarrow> nat \<Rightarrow> nat \<times> nat" where
  "year_loop y r = (if r < year_len y then (y, r) else year_loop (Suc y) (r - year_len y))"
  by pat_completeness auto
termination by (relation "measure snd") (auto simp: year_len_def)

declare year_loop.simps [simp del]

fun month_loop :: "nat list \<Rightarrow> nat \<Rightarrow> nat \<Rightarrow> nat \<times> nat" where
  "month_loop [] m r = (m, r)"
| "month_loop (l # ls) m r = (if r < l then (m, r) else month_loop ls (Suc m) (r - l))"

definition cycle_days :: int where
  "cycle_days = 146097"

text \<open>The date of a day: year, month and day of the month.\<close>

definition civil_of_days :: "int \<Rightarrow> int \<times> nat \<times> nat" where
  "civil_of_days n =
     (let (y, r) = year_loop 1 (nat (n mod cycle_days));
          (m, d) = month_loop (month_lens y) 1 r
      in (400 * (n div cycle_days) + int y, m, d + 1))"

text \<open>The place of a year in its cycle, 1 to 400.\<close>

definition cycle_year :: "int \<Rightarrow> nat" where
  "cycle_year y = nat ((y - 1) mod 400) + 1"

definition days_of_civil :: "int \<Rightarrow> nat \<Rightarrow> nat \<Rightarrow> int" where
  "days_of_civil y m d =
     cycle_days * ((y - 1) div 400) + int (sum_list (map year_len [1..<cycle_year y]))
     + int (sum_list (take (m - 1) (month_lens (cycle_year y)))) + int d - 1"

definition days_in :: "int \<Rightarrow> nat \<Rightarrow> nat" where
  "days_in y m = month_lens (cycle_year y) ! (m - 1)"

section \<open>Dates: lemmas\<close>

lemma year_loop_sum:
  assumes "year_loop y r = (y', r')"
  shows "y \<le> y' \<and> r' < year_len y' \<and> r = sum_list (map year_len [y..<y']) + r'"
  using assms
proof (induction y r rule: year_loop.induct)
  case (1 y r)
  show ?case
  proof (cases "r < year_len y")
    case True
    then show ?thesis using 1(2) by (simp add: year_loop.simps [of y r])
  next
    case False
    then have "year_loop (Suc y) (r - year_len y) = (y', r')" using 1(2) by (simp add: year_loop.simps [of y r])
    from 1(1) [OF False this] have "Suc y \<le> y'" "r' < year_len y'"
      and "r - year_len y = sum_list (map year_len [Suc y..<y']) + r'" by blast+
    moreover from this(3) False have "r = year_len y + (sum_list (map year_len [Suc y..<y']) + r')" by linarith
    ultimately show ?thesis by (simp add: upt_conv_Cons)
  qed
qed

lemma cycle_sum: "sum_list (map year_len [1..<401]) = 146097"
proof -
  have "[1..<401] = 1 # [2..<401]" by (simp add: upt_conv_Cons numeral_2_eq_2)
  then show ?thesis by (simp add: year_len_def is_leap_def upt_rec_numeral)
qed

lemma year_loop_cycle:
  assumes "year_loop 1 r = (y, d)" and "r < 146097"
  shows "1 \<le> y \<and> y \<le> 400"
proof -
  note s = year_loop_sum [OF assms(1)]
  have "y \<le> 400"
  proof (rule ccontr)
    assume "\<not> y \<le> 400"
    then have "[1..<y] = [1..<401] @ [401..<y]" using upt_add_eq_append [of 1 401 "y - 401"] by simp
    then have "146097 \<le> sum_list (map year_len [1..<y])"
      using cycle_sum by (simp only: map_append sum_list_append)
    then show False using s assms(2) by simp
  qed
  then show ?thesis using s by simp
qed

lemma month_loop_sum:
  assumes "month_loop ls m r = (m', r')" and "r < sum_list ls"
  shows "\<exists>i < length ls. m' = m + i \<and> r' < ls ! i \<and> r = sum_list (take i ls) + r'"
  using assms
proof (induction ls m r rule: month_loop.induct)
  case (2 l ls m r)
  show ?case
  proof (cases "r < l")
    case True
    then show ?thesis using 2(2) by (intro exI [of _ 0]) simp
  next
    case False
    then have "month_loop ls (Suc m) (r - l) = (m', r')" "r - l < sum_list ls" using 2(2,3) by auto
    from 2(1) [OF False this] obtain i where
      i: "i < length ls" "m' = Suc m + i" "r' < ls ! i" "r - l = sum_list (take i ls) + r'" by blast
    from i(4) False have "r = l + (sum_list (take i ls) + r')" by linarith
    then show ?thesis using i by (intro exI [of _ "Suc i"]) simp
  qed
qed simp

lemma sum_month_lens: "sum_list (month_lens y) = year_len y"
  by (simp add: month_lens_def year_len_def)

lemma length_month_lens [simp]: "length (month_lens y) = 12"
  by (simp add: month_lens_def)

lemma cycle_year_of: "1 \<le> y \<Longrightarrow> y \<le> 400 \<Longrightarrow> cycle_year (400 * c + int y) = y"
proof -
  assume y: "1 \<le> y" "y \<le> 400"
  have "(400 * c + int y - 1) mod 400 = (int y - 1) mod 400"
    by (metis add_diff_eq mod_mult_self4)
  also have "\<dots> = int y - 1" using y by (intro mod_pos_pos_trivial) simp_all
  finally show ?thesis using y by (simp add: cycle_year_def nat_diff_distrib)
qed

text \<open>The date of a day is a valid one, and denotes that day.\<close>

lemma days_of_civil_of_days:
  assumes "civil_of_days n = (y, m, d)"
  shows "days_of_civil y m d = n \<and> 1 \<le> m \<and> m \<le> 12 \<and> 1 \<le> d \<and> d \<le> days_in y m"
proof -
  define c where "c = n div cycle_days"
  define k where "k = nat (n mod cycle_days)"
  have "0 \<le> n mod cycle_days" "n mod cycle_days < cycle_days" by (simp_all add: cycle_days_def)
  then have k: "int k = n mod cycle_days" "k < 146097" by (simp_all add: k_def cycle_days_def)
  obtain yc r where yl: "year_loop 1 k = (yc, r)" by force
  obtain m' d' where ml: "month_loop (month_lens yc) 1 r = (m', d')" by force
  have eqs: "y = 400 * c + int yc" "m = m'" "d = d' + 1"
    using assms yl ml by (simp_all add: civil_of_days_def c_def k_def)
  note ys = year_loop_sum [OF yl] and range = year_loop_cycle [OF yl k(2)]
  have "r < sum_list (month_lens yc)" using ys by (simp add: sum_month_lens)
  then obtain i where i: "i < 12" "m' = 1 + i" "d' < month_lens yc ! i" "r = sum_list (take i (month_lens yc)) + d'"
    using month_loop_sum [OF ml] by auto
  have cy: "cycle_year y = yc" unfolding eqs(1) using range by (intro cycle_year_of) simp_all
  have "(y - 1) div 400 = c + (int yc - 1) div 400"
    unfolding eqs(1) by (metis add_diff_eq div_mult_self4 zero_neq_numeral add.commute)
  also have "(int yc - 1) div 400 = 0" using range by (intro div_pos_pos_trivial) simp_all
  finally have cdiv: "(y - 1) div 400 = c" by simp
  have "days_of_civil y m d = cycle_days * c + int k"
    unfolding days_of_civil_def cy cdiv using ys i eqs by simp
  also have "\<dots> = n" unfolding k(1) c_def by simp
  finally show ?thesis using i eqs cy by (simp add: days_in_def)
qed

text \<open>Conversely a valid date is the date of its day: the two functions are inverse to each other.\<close>

lemma year_loop_eq:
  assumes "y \<le> y'" and "r' < year_len y'" and "r = sum_list (map year_len [y..<y']) + r'"
  shows "year_loop y r = (y', r')"
  using assms
proof (induction y r rule: year_loop.induct)
  case (1 y r)
  show ?case
  proof (cases "y = y'")
    case True
    then show ?thesis using 1(3,4) by (simp add: year_loop.simps [of y' r'])
  next
    case False
    then have "y < y'" using 1(2) by simp
    then have r: "r = year_len y + (sum_list (map year_len [Suc y..<y']) + r')"
      using 1(4) by (simp add: upt_conv_Cons)
    then have "\<not> r < year_len y" by simp
    moreover from 1(1) [OF this] have "year_loop (Suc y) (r - year_len y) = (y', r')"
      using r \<open>y < y'\<close> 1(3) by simp
    ultimately show ?thesis by (simp add: year_loop.simps [of y r])
  qed
qed

lemma month_loop_eq:
  "i < length ls \<Longrightarrow> r < ls ! i \<Longrightarrow> month_loop ls m (sum_list (take i ls) + r) = (m + i, r)"
proof (induction ls arbitrary: i m)
  case (Cons l ls)
  then show ?case by (cases i) auto
qed simp

lemma take_sum_less:
  fixes ls :: "nat list"
  assumes "i < length ls" and "r < ls ! i"
  shows "sum_list (take i ls) + r < sum_list ls"
proof -
  have "sum_list ls = sum_list (take i ls) + (ls ! i + sum_list (drop (Suc i) ls))"
    using assms(1) by (metis id_take_nth_drop sum_list_append sum_list.Cons)
  then show ?thesis using assms(2) by linarith
qed

lemma civil_of_days_of_civil:
  assumes "1 \<le> m" and "m \<le> 12" and "1 \<le> d" and "d \<le> days_in y m"
  shows "civil_of_days (days_of_civil y m d) = (y, m, d)"
proof -
  let ?c = "(y - 1) div 400" and ?y = "cycle_year y"
  define q where "q = sum_list (take (m - 1) (month_lens ?y)) + (d - 1)"
  define k where "k = sum_list (map year_len [1..<?y]) + q"
  have "0 \<le> (y - 1) mod 400" "(y - 1) mod 400 < 400" by simp_all
  then have cy: "1 \<le> ?y" "?y \<le> 400" "int ?y = (y - 1) mod 400 + 1" by (simp_all add: cycle_year_def)
  then have y: "400 * ?c + int ?y = y" by simp
  have m: "m - 1 < length (month_lens ?y)" "d - 1 < month_lens ?y ! (m - 1)"
    using assms by (simp_all add: days_in_def)
  have q: "q < year_len ?y" using take_sum_less [OF m] by (simp add: q_def sum_month_lens)
  have "[1..<401] = [1..<?y] @ ?y # [Suc ?y..<401]"
    using cy upt_add_eq_append [of 1 ?y "401 - ?y"] by (simp add: upt_conv_Cons)
  then have "sum_list (map year_len [1..<401]) =
      sum_list (map year_len [1..<?y]) + (year_len ?y + sum_list (map year_len [Suc ?y..<401]))"
    by (simp only: map_append list.map sum_list_append sum_list.Cons)
  then have k: "k < 146097" using cycle_sum q by (simp add: k_def)
  have days: "days_of_civil y m d = cycle_days * ?c + int k"
    using assms(3) by (simp add: days_of_civil_def k_def q_def)
  have "days_of_civil y m d div cycle_days = ?c" "nat (days_of_civil y m d mod cycle_days) = k"
    unfolding days using k by (simp_all add: cycle_days_def)
  moreover have "year_loop 1 k = (?y, q)" using cy q by (intro year_loop_eq) (simp_all add: k_def)
  moreover have "month_loop (month_lens ?y) 1 q = (m, d - 1)"
    using month_loop_eq [OF m, of 1] assms by (simp add: q_def)
  ultimately show ?thesis using y assms by (simp add: civil_of_days_def)
qed

section \<open>Printing an instant\<close>

definition digit :: "nat \<Rightarrow> char" where
  "digit n = char_of (48 + n mod 10)"

definition two :: "nat \<Rightarrow> string" where
  "two n = [digit (n div 10), digit n]"

fun decimal :: "nat \<Rightarrow> string" where
  "decimal n = (if n < 10 then [digit n] else decimal (n div 10) @ [digit n])"

declare decimal.simps [simp del]

text \<open>\<open>appendInt\<close> with a width: the sign, and zeros up to the width.\<close>

definition appendInt :: "int \<Rightarrow> nat \<Rightarrow> string" where
  "appendInt x width =
     (let s = decimal (nat \<bar>x\<bar>)
      in (if x < 0 then ''-'' else '''') @ replicate (width - length s) (CHR ''0'') @ s)"

definition nanos_per_second :: int where
  "nanos_per_second = 10 ^ 9"

definition seconds_of :: "timestamp \<Rightarrow> int" where
  "seconds_of t = nanos t div nanos_per_second"

definition day_of :: "timestamp \<Rightarrow> int" where
  "day_of t = seconds_of t div 86400"

definition Format_RFC3339 :: "timestamp \<Rightarrow> string" where
  "Format_RFC3339 t =
     (let (y, m, d) = civil_of_days (day_of t);
          s = nat (seconds_of t mod 86400)
      in appendInt y 4 @ ''-'' @ two m @ ''-'' @ two d @ ''T''
           @ two (s div 3600) @ '':'' @ two (s div 60 mod 60) @ '':'' @ two (s mod 60) @ ''Z'')"

section \<open>Parsing an instant\<close>

text \<open>Decimal digits; \<open>getnum\<close> reads two of them, or one where the second is not required.\<close>

definition digit_nat :: "char \<Rightarrow> nat" where
  "digit_nat c = of_char c - 48"

definition number :: "string \<Rightarrow> nat" where
  "number s = foldl (\<lambda>n c. 10 * n + digit_nat c) 0 s"

fun getnum :: "bool \<Rightarrow> string \<Rightarrow> (nat \<times> string) option" where
  "getnum fixed (a # b # s) =
     (if \<not> is_digit a then None
      else if is_digit b then Some (10 * digit_nat a + digit_nat b, s)
      else if fixed then None
      else Some (digit_nat a, b # s))"
| "getnum fixed [a] = (if \<not> is_digit a \<or> fixed then None else Some (digit_nat a, []))"
| "getnum fixed [] = None"

definition get_year :: "string \<Rightarrow> (nat \<times> string) option" where
  "get_year s =
     (if length s < 4 \<or> \<not> list_all is_digit (take 4 s) then None else Some (number (take 4 s), drop 4 s))"

fun skip_byte :: "char \<Rightarrow> string \<Rightarrow> string option" where
  "skip_byte c (a # s) = (if a = c then Some s else None)"
| "skip_byte c [] = None"

text \<open>
  A number that the layout puts after a separator, within its range; an optional fraction of the
  second, of which nine digits count; and the zone: \<open>Z\<close>, or a sign with hours up to 24 and minutes up to
  60, as the seconds east of UTC.
\<close>

definition field :: "char \<Rightarrow> bool \<Rightarrow> nat \<Rightarrow> nat \<Rightarrow> string \<Rightarrow> (nat \<times> string) option" where
  "field sep fixed lo hi s =
     Option.bind (skip_byte sep s) (\<lambda>s.
     Option.bind (getnum fixed s) (\<lambda>(n, s). if n < lo \<or> hi < n then None else Some (n, s)))"

definition fraction :: "string \<Rightarrow> nat \<times> string" where
  "fraction s =
     (if 2 \<le> length s \<and> (hd s = CHR ''.'' \<or> hd s = CHR '','') \<and> is_digit (s ! 1)
      then (let ds = takeWhile is_digit (tl s);
                ns = take 9 ds
            in (number ns * 10 ^ (9 - length ns), drop (length ds) (tl s)))
      else (0, s))"

definition zone :: "string \<Rightarrow> (int \<times> string) option" where
  "zone s =
     (if s \<noteq> [] \<and> hd s = CHR ''Z'' then Some (0, tl s)
      else if length s < 6 \<or> s ! 3 \<noteq> CHR '':'' then None
      else
        (case (getnum True (take 2 (drop 1 s)), getnum True (take 2 (drop 4 s))) of
           (Some (h, _), Some (m, _)) \<Rightarrow>
             if 24 < h \<or> 60 < m then None
             else if hd s = CHR ''+'' then Some (int (60 * (60 * h + m)), drop 6 s)
             else if hd s = CHR ''-'' then Some (- int (60 * (60 * h + m)), drop 6 s)
             else None
         | _ \<Rightarrow> None))"

definition Date_UTC :: "nat \<Rightarrow> nat \<Rightarrow> nat \<Rightarrow> nat \<Rightarrow> nat \<Rightarrow> nat \<Rightarrow> nat \<Rightarrow> int \<Rightarrow> timestamp" where
  "Date_UTC y m d hh mm ss ns offset =
     Timestamp (nanos_per_second * (86400 * days_of_civil (int y) m d + int (3600 * hh + 60 * mm + ss) - offset) + int ns)"

definition Parse_RFC3339 :: "string \<Rightarrow> timestamp option" where
  "Parse_RFC3339 s =
     Option.bind (get_year s) (\<lambda>(y, s).
     Option.bind (field (CHR ''-'') True 1 12 s) (\<lambda>(m, s).
     Option.bind (field (CHR ''-'') True 0 99 s) (\<lambda>(d, s).
     Option.bind (field (CHR ''T'') False 0 23 s) (\<lambda>(hh, s).
     Option.bind (field (CHR '':'') True 0 59 s) (\<lambda>(mm, s).
     Option.bind (field (CHR '':'') True 0 59 s) (\<lambda>(ss, s).
     (let (ns, s) = fraction s
      in Option.bind (zone s) (\<lambda>(offset, s).
         if s \<noteq> [] then None
         else if d < 1 \<or> days_in (int y) m < d then None
         else Some (Date_UTC y m d hh mm ss ns offset)))))))))"

section \<open>Reading what was printed\<close>

lemma of_char_digit [simp]: "(of_char (digit n) :: nat) = 48 + n mod 10"
  by (simp add: digit_def)

lemma is_digit_digit [simp]: "is_digit (digit n)" and digit_nat_digit [simp]: "digit_nat (digit n) = n mod 10"
  by (auto simp: is_digit_def digit_nat_def)

lemma digit_neq: "\<not> is_digit c \<Longrightarrow> digit n \<noteq> c"
  using is_digit_digit by metis

lemma getnum_two: "n < 100 \<Longrightarrow> getnum fixed (two n @ s) = Some (n, s)"
  by (simp add: two_def)

lemma field_two:
  "lo \<le> n \<Longrightarrow> n \<le> hi \<Longrightarrow> n < 100 \<Longrightarrow> field sep fixed lo hi (sep # two n @ s) = Some (n, s)"
  by (simp add: field_def getnum_two)

lemma decimal_digits: "list_all is_digit (decimal n) \<and> decimal n \<noteq> []"
proof (induction n rule: decimal.induct)
  case (1 n)
  then show ?case by (cases "n < 10") (simp_all add: decimal.simps [of n])
qed

lemma number_snoc: "number (ds @ [c]) = 10 * number ds + digit_nat c"
  by (simp add: number_def)

lemma number_decimal: "number (decimal n) = n"
proof (induction n rule: decimal.induct)
  case (1 n)
  show ?case
  proof (cases "n < 10")
    case True
    then show ?thesis by (simp add: decimal.simps [of n] number_def)
  next
    case False
    then show ?thesis using 1 by (subst decimal.simps) (simp add: number_snoc)
  qed
qed

lemma number_zeros: "number (replicate k (CHR ''0'') @ s) = number s"
  by (induction k) (simp_all add: number_def digit_nat_def)

lemma length_decimal: "n < 10 ^ k \<Longrightarrow> 0 < k \<Longrightarrow> length (decimal n) \<le> k"
proof (induction n arbitrary: k rule: decimal.induct)
  case (1 n)
  show ?case
  proof (cases "n < 10")
    case False
    then have "1 < k" using 1(2,3) by (cases k) (auto, metis less_Suc0 One_nat_def neq0_conv power_0 mult.right_neutral)
    moreover from this have "n div 10 < 10 ^ (k - 1)"
      using 1(2) by (cases k) (auto simp: less_mult_imp_div_less mult.commute)
    ultimately have "length (decimal (n div 10)) \<le> k - 1" using 1(1) [OF False, of "k - 1"] by simp
    then show ?thesis using False \<open>1 < k\<close> by (subst decimal.simps) simp
  qed (use 1(3) in \<open>simp add: decimal.simps [of n]\<close>)
qed

lemma get_year_append:
  assumes "0 \<le> y" and "y \<le> 9999"
  shows "get_year (appendInt y 4 @ s) = Some (nat y, s)"
proof -
  let ?s = "decimal (nat \<bar>y\<bar>)"
  have "length ?s \<le> 4" using assms by (intro length_decimal) simp_all
  then have four: "length (appendInt y 4) = 4" using assms by (simp add: appendInt_def Let_def)
  have "list_all is_digit (appendInt y 4)"
    using decimal_digits [of "nat \<bar>y\<bar>"] assms
    by (auto simp: appendInt_def Let_def list_all_iff is_digit_def in_set_replicate)
  moreover have "number (appendInt y 4) = nat y"
    using assms by (simp add: appendInt_def Let_def number_zeros number_decimal)
  ultimately show ?thesis using four by (simp add: get_year_def)
qed

lemma length_decimal_ge: "10 ^ k \<le> n \<Longrightarrow> k < length (decimal n)"
proof (induction n arbitrary: k rule: decimal.induct)
  case (1 n)
  show ?case
  proof (cases "n < 10")
    case True
    have "k = 0"
    proof (rule ccontr)
      assume "k \<noteq> 0"
      then have "10 ^ 1 \<le> (10 :: nat) ^ k" by (intro power_increasing) simp_all
      then show False using True 1(2) by simp
    qed
    then show ?thesis using True by (simp add: decimal.simps [of n])
  next
    case False
    show ?thesis
    proof (cases k)
      case 0
      then show ?thesis using decimal_digits [of n] by simp
    next
      case (Suc j)
      then have "10 ^ j \<le> n div 10" using 1(2) by (simp add: less_eq_div_iff_mult_less_eq mult.commute)
      from 1(1) [OF False this] show ?thesis using Suc False by (subst decimal.simps) simp
    qed
  qed
qed

lemma get_year_minus: "y < 0 \<Longrightarrow> get_year (appendInt y 4 @ s) = None"
  by (auto simp: get_year_def appendInt_def Let_def is_digit_def)

lemma get_year_long:
  assumes "9999 < y"
  obtains n c r where "get_year (appendInt y 4 @ s) = Some (n, c # r)" and "is_digit c"
proof -
  let ?s = "decimal (nat y)"
  have "4 < length ?s" using assms by (intro length_decimal_ge) simp
  then obtain c r where r: "drop 4 ?s = c # r" "appendInt y 4 = ?s"
    using assms by (cases "drop 4 ?s") (auto simp: appendInt_def Let_def)
  then have "c \<in> set ?s" by (metis in_set_dropD list.set_intros(1))
  moreover have digits: "\<forall>c \<in> set ?s. is_digit c" using decimal_digits [of "nat y"] by (simp add: list_all_iff)
  moreover have "list_all is_digit (take 4 ?s)" using digits by (auto simp: list_all_iff dest: in_set_takeD)
  ultimately show ?thesis
    using that [of "number (take 4 ?s)" c "r @ s"] r \<open>4 < length ?s\<close> by (simp add: get_year_def)
qed

text \<open>The year of an instant, and the instant with the fraction of its second cut off.\<close>

definition year_of :: "timestamp \<Rightarrow> int" where
  "year_of t = fst (civil_of_days (day_of t))"

definition whole_seconds :: "timestamp \<Rightarrow> timestamp" where
  "whole_seconds t = Timestamp (nanos_per_second * seconds_of t)"

lemma days_in_le: "1 \<le> m \<Longrightarrow> m \<le> 12 \<Longrightarrow> days_in y m \<le> 31"
proof -
  assume "1 \<le> m" "m \<le> 12"
  then have "month_lens (cycle_year y) ! (m - 1) \<in> set (month_lens (cycle_year y))" by (intro nth_mem) simp
  then show ?thesis by (auto simp: days_in_def month_lens_def split: if_splits)
qed

lemma fraction_Z [simp]: "fraction ''Z'' = (0, ''Z'')" and zone_Z [simp]: "zone ''Z'' = Some (0, [])"
  by (simp_all add: fraction_def zone_def)

lemma clock_parts: "3600 * (s div 3600) + 60 * (s div 60 mod 60) + s mod 60 = (s :: nat)"
proof -
  have q: "s div 3600 = s div 60 div 60" by (simp add: div_mult2_eq [symmetric])
  have "60 * (s div 60 div 60) + s div 60 mod 60 = s div 60" and "60 * (s div 60) + s mod 60 = s" by simp_all
  then show ?thesis unfolding q by linarith
qed

lemma Parse_Format:
  assumes "0 \<le> year_of t" and "year_of t \<le> 9999"
  shows "Parse_RFC3339 (Format_RFC3339 t) = Some (whole_seconds t)"
proof -
  obtain y m d where c: "civil_of_days (day_of t) = (y, m, d)" by (cases "civil_of_days (day_of t)") auto
  define s where "s = nat (seconds_of t mod 86400)"
  have y: "0 \<le> y" "y \<le> 9999" using assms c by (simp_all add: year_of_def)
  have s: "s < 86400" "int s = seconds_of t mod 86400" by (simp_all add: s_def)
  note valid = days_of_civil_of_days [OF c]
  then have "d \<le> 31" using days_in_le [of m y] by simp
  have parts: "s div 3600 < 24" "s div 60 mod 60 < 60" "s mod 60 < 60" using s(1) by simp_all
  have f: "Format_RFC3339 t =
      appendInt y 4 @ CHR ''-'' # two m @ CHR ''-'' # two d @ CHR ''T''
      # two (s div 3600) @ CHR '':'' # two (s div 60 mod 60) @ CHR '':'' # two (s mod 60) @ ''Z''"
    by (simp add: Format_RFC3339_def c s_def Let_def)
  have "Parse_RFC3339 (Format_RFC3339 t) =
      Some (Date_UTC (nat y) m d (s div 3600) (s div 60 mod 60) (s mod 60) 0 0)"
    unfolding Parse_RFC3339_def f using y valid \<open>d \<le> 31\<close> parts
    by (simp add: get_year_append field_two)
  also have "Date_UTC (nat y) m d (s div 3600) (s div 60 mod 60) (s mod 60) 0 0 = whole_seconds t"
    using valid y s(2) unfolding Date_UTC_def whole_seconds_def clock_parts by (simp add: day_of_def)
  finally show ?thesis .
qed

lemma Parse_Format_outside:
  assumes "year_of t < 0 \<or> 9999 < year_of t"
  shows "Parse_RFC3339 (Format_RFC3339 t) = None"
proof -
  obtain y m d where c: "civil_of_days (day_of t) = (y, m, d)" by (cases "civil_of_days (day_of t)") auto
  obtain r where f: "Format_RFC3339 t = appendInt y 4 @ r" by (simp add: Format_RFC3339_def c Let_def)
  consider "y < 0" | "9999 < y" using assms c by (auto simp: year_of_def)
  then show ?thesis
  proof cases
    case 1
    then show ?thesis by (simp add: Parse_RFC3339_def f get_year_minus)
  next
    case 2
    then obtain n b q where "get_year (appendInt y 4 @ r) = Some (n, b # q)" "is_digit b"
      by (rule get_year_long)
    then show ?thesis by (auto simp: Parse_RFC3339_def f field_def is_digit_def)
  qed
qed

end
