(* ===== verification/EventTime.thy ===== *)
theory EventTime
  imports Calendar
begin

text \<open>
  The times of the package \<open>types\<close> of eventsse (\<open>eventsse/internal/types/time.go\<close>): a wrapper of Go's
  \<open>time.Time\<close> with its own JSON form. A \<open>time.Time\<close> is an instant and a location; only the instant
  counts for comparing and for printing in UTC. A pointer is an option, nil being \<open>None\<close>. What the file
  uses of \<open>encoding/json\<close>, the decoding of a document into a string variable, comes first: strings are
  byte strings, and a text of JSON is decoded byte by byte.
\<close>

section \<open>JSON strings\<close>

abbreviation quote_char :: char where
  "quote_char \<equiv> CHR 0x22"

definition utf8_encode :: "nat \<Rightarrow> string" where
  "utf8_encode n =
     (if n < 0x80 then [char_of n]
      else if n < 0x800 then [char_of (0xC0 + n div 64), char_of (0x80 + n mod 64)]
      else if n < 0x10000
      then [char_of (0xE0 + n div 4096), char_of (0x80 + n div 64 mod 64), char_of (0x80 + n mod 64)]
      else [char_of (0xF0 + n div 262144), char_of (0x80 + n div 4096 mod 64),
            char_of (0x80 + n div 64 mod 64), char_of (0x80 + n mod 64)])"

definition replacement :: string where
  "replacement = utf8_encode 0xFFFD"

definition byte_in :: "nat \<Rightarrow> nat \<Rightarrow> string \<Rightarrow> nat \<Rightarrow> bool" where
  "byte_in lo hi s i \<longleftrightarrow> i < length s \<and> lo \<le> of_char (s ! i) \<and> of_char (s ! i) \<le> hi"

text \<open>
  How many bytes of \<open>s\<close> complete the encoding of a code point that the byte \<open>b\<close> opens; \<open>None\<close> when
  there is no valid encoding.
\<close>

definition utf8_tail :: "nat \<Rightarrow> string \<Rightarrow> nat option" where
  "utf8_tail b s =
     (if b < 0x80 then Some 0
      else if 0xC2 \<le> b \<and> b \<le> 0xDF then (if byte_in 0x80 0xBF s 0 then Some 1 else None)
      else if 0xE0 \<le> b \<and> b \<le> 0xEF
      then (if byte_in (if b = 0xE0 then 0xA0 else 0x80) (if b = 0xED then 0x9F else 0xBF) s 0
               \<and> byte_in 0x80 0xBF s 1 then Some 2 else None)
      else if 0xF0 \<le> b \<and> b \<le> 0xF4
      then (if byte_in (if b = 0xF0 then 0x90 else 0x80) (if b = 0xF4 then 0x8F else 0xBF) s 0
               \<and> byte_in 0x80 0xBF s 1 \<and> byte_in 0x80 0xBF s 2 then Some 3 else None)
      else None)"

definition hex_val :: "char \<Rightarrow> nat option" where
  "hex_val c =
     (let n = of_char c in
      if 48 \<le> n \<and> n \<le> 57 then Some (n - 48)
      else if 97 \<le> n \<and> n \<le> 102 then Some (n - 87)
      else if 65 \<le> n \<and> n \<le> 70 then Some (n - 55)
      else None)"

text \<open>The four hexadecimal digits after the letter of an escape.\<close>

fun hex4 :: "string \<Rightarrow> nat option" where
  "hex4 (c # d # e # f # s) =
     (case (hex_val c, hex_val d, hex_val e, hex_val f) of
        (Some w, Some x, Some y, Some z) \<Rightarrow> Some (4096 * w + 256 * x + 16 * y + z)
      | _ \<Rightarrow> None)"
| "hex4 _ = None"

text \<open>
  What an escape stands for, and the bytes it has after the backslash. A surrogate that a second one
  does not complete becomes the replacement character, and the second escape is read anew.
\<close>

fun escape :: "string \<Rightarrow> (string \<times> nat) option" where
  "escape [] = None"
| "escape (c # s) =
     (if c = quote_char \<or> c = CHR 0x5C \<or> c = CHR ''/'' then Some ([c], 1)
      else if c = CHR ''b'' then Some ([CHR 0x08], 1)
      else if c = CHR ''f'' then Some ([CHR 0x0C], 1)
      else if c = CHR ''n'' then Some ([CHR 0x0A], 1)
      else if c = CHR ''r'' then Some ([CHR 0x0D], 1)
      else if c = CHR ''t'' then Some ([CHR 0x09], 1)
      else if c = CHR ''u''
      then (case hex4 s of
              None \<Rightarrow> None
            | Some r \<Rightarrow>
                if r < 0xD800 \<or> 0xDFFF < r then Some (utf8_encode r, 5)
                else
                  (case (if take 2 (drop 4 s) = [CHR 0x5C, CHR ''u''] then hex4 (drop 6 s) else None) of
                     Some r' \<Rightarrow>
                       if r < 0xDC00 \<and> 0xDC00 \<le> r' \<and> r' \<le> 0xDFFF
                       then Some (utf8_encode (0x10000 + 1024 * (r - 0xD800) + (r' - 0xDC00)), 11)
                       else Some (replacement, 5)
                   | None \<Rightarrow> Some (replacement, 5)))
      else None)"

text \<open>The text of a string up to its closing quote, and what follows it.\<close>

fun json_chars :: "string \<Rightarrow> (string \<times> string) option" where
  "json_chars [] = None"
| "json_chars (c # s) =
     (if c = quote_char then Some ([], s)
      else if (of_char c :: nat) < 32 then None
      else if c = CHR 0x5C
      then (case escape s of
              None \<Rightarrow> None
            | Some (out, k) \<Rightarrow> map_option (\<lambda>(v, rest). (out @ v, rest)) (json_chars (drop k s)))
      else
        (case utf8_tail (of_char c) s of
           None \<Rightarrow> map_option (\<lambda>(v, rest). (replacement @ v, rest)) (json_chars s)
         | Some k \<Rightarrow> map_option (\<lambda>(v, rest). (c # take k s @ v, rest)) (json_chars (drop k s))))"

definition json_space :: "char \<Rightarrow> bool" where
  "json_space c \<longleftrightarrow> c \<in> {CHR '' '', CHR 0x09, CHR 0x0A, CHR 0x0D}"

text \<open>
  \<open>json.Unmarshal\<close> into a string variable: \<open>null\<close> leaves it empty, and any other value than a string is an
  error, as a text that is not JSON is.
\<close>

definition json_Unmarshal_string :: "string \<Rightarrow> string option" where
  "json_Unmarshal_string b =
     (let b = dropWhile json_space b in
      if b \<noteq> [] \<and> hd b = quote_char
      then (case json_chars (tl b) of
              Some (v, rest) \<Rightarrow> if dropWhile json_space rest = [] then Some v else None
            | None \<Rightarrow> None)
      else if take 4 b = ''null'' \<and> dropWhile json_space (drop 4 b) = [] then Some []
      else None)"

text \<open>A text without quotes, backslashes, control characters and bytes above 127 decodes to itself.\<close>

definition json_plain :: "char \<Rightarrow> bool" where
  "json_plain c \<longleftrightarrow> c \<noteq> quote_char \<and> c \<noteq> CHR 0x5C \<and> 32 \<le> (of_char c :: nat) \<and> (of_char c :: nat) < 128"

lemma json_chars_plain: "list_all json_plain s \<Longrightarrow> json_chars (s @ quote_char # rest) = Some (s, rest)"
  by (induction s) (auto simp: json_plain_def utf8_tail_def)

lemma Unmarshal_plain:
  "list_all json_plain s \<Longrightarrow> json_Unmarshal_string (quote_char # s @ [quote_char]) = Some s"
  by (simp add: json_Unmarshal_string_def json_space_def json_chars_plain)

section \<open>Times\<close>

datatype location = UTC | Local | FixedZone int

record time_Time =
  tt_instant :: timestamp
  tt_loc :: location

record Time =
  Time_Time :: time_Time

definition time_Time_zero :: time_Time where
  "time_Time_zero = \<lparr>tt_instant = time_zero, tt_loc = UTC\<rparr>"

definition time_Local :: "time_Time \<Rightarrow> time_Time" where
  "time_Local t = t\<lparr>tt_loc := Local\<rparr>"

definition time_Parse_RFC3339 :: "string \<Rightarrow> time_Time option" where
  "time_Parse_RFC3339 s = map_option (\<lambda>i. \<lparr>tt_instant = i, tt_loc = UTC\<rparr>) (Parse_RFC3339 s)"

text \<open>
  The methods of \<open>Time\<close>. \<open>DeepCopyInto\<close> yields the new value of its target; copying through a nil
  pointer panics, which is \<open>None\<close>. \<open>time_Parse_RFC3339\<close> gives its result the location UTC whatever the
  zone of the text: \<open>UnmarshalJSON\<close> replaces the location right away.
\<close>

definition DeepCopyInto :: "Time option \<Rightarrow> Time option \<Rightarrow> Time option" where
  "DeepCopyInto t out = (case (t, out) of (Some t, Some _) \<Rightarrow> Some t | _ \<Rightarrow> None)"

definition IsZero :: "Time option \<Rightarrow> bool" where
  "IsZero t = (case t of None \<Rightarrow> True | Some t \<Rightarrow> tt_instant (Time_Time t) = time_zero)"

definition Before :: "Time option \<Rightarrow> Time option \<Rightarrow> bool" where
  "Before t u =
     (case (t, u) of
        (Some t, Some u) \<Rightarrow> tt_instant (Time_Time t) < tt_instant (Time_Time u)
      | _ \<Rightarrow> False)"

definition Equal :: "Time option \<Rightarrow> Time option \<Rightarrow> bool" where
  "Equal t u =
     (case (t, u) of
        (None, None) \<Rightarrow> True
      | (Some t, Some u) \<Rightarrow> tt_instant (Time_Time t) = tt_instant (Time_Time u)
      | _ \<Rightarrow> False)"

datatype time_error = JSONError | ParseError

text \<open>The error that is returned, and the value of the receiver afterwards.\<close>

definition UnmarshalJSON :: "Time \<Rightarrow> string \<Rightarrow> time_error option \<times> Time" where
  "UnmarshalJSON t b =
     (if length b = 4 \<and> b = ''null'' then (None, t\<lparr>Time_Time := time_Time_zero\<rparr>)
      else
        (case json_Unmarshal_string b of
           None \<Rightarrow> (Some JSONError, t)
         | Some str \<Rightarrow>
             (case time_Parse_RFC3339 str of
                None \<Rightarrow> (Some ParseError, t)
              | Some pt \<Rightarrow> (None, t\<lparr>Time_Time := time_Local pt\<rparr>))))"

definition MarshalJSON :: "Time \<Rightarrow> string" where
  "MarshalJSON t =
     (if IsZero (Some t) then ''null''
      else quote_char # Format_RFC3339 (tt_instant (Time_Time t)) @ [quote_char])"

section \<open>Times: lemmas\<close>

text \<open>
  \<open>Equal\<close> is an equivalence, nil included, and \<open>Before\<close> a strict order that is total up to \<open>Equal\<close> on the
  pointers that are not nil.
\<close>

lemma Equal_equiv: "Equal t t" "Equal t u \<Longrightarrow> Equal u t" "Equal t u \<Longrightarrow> Equal u v \<Longrightarrow> Equal t v"
  by (auto simp: Equal_def split: option.splits)

lemma Before_order:
  "\<not> Before t t" "Before t u \<Longrightarrow> Before u v \<Longrightarrow> Before t v"
  "Before (Some a) (Some b) \<or> Before (Some b) (Some a) \<or> Equal (Some a) (Some b)"
  by (auto simp: Before_def Equal_def split: option.splits)

lemma Equal_Before: "Equal t u \<Longrightarrow> Before t v = Before u v \<and> Before v t = Before v u"
  by (auto simp: Before_def Equal_def split: option.splits)

lemma json_plain_digit: "json_plain (digit n)"
proof -
  have "digit n \<noteq> quote_char" "digit n \<noteq> CHR 0x5C" by (rule digit_neq, simp add: is_digit_def)+
  moreover have "n mod 10 < 10" by simp
  ultimately show ?thesis by (simp add: json_plain_def)
qed

lemma json_plain_decimal: "list_all json_plain (decimal n)"
proof (induction n rule: decimal.induct)
  case (1 n)
  then show ?case by (cases "n < 10") (simp_all add: decimal.simps [of n] json_plain_digit)
qed

lemma json_plain_Format: "list_all json_plain (Format_RFC3339 t)"
  by (auto simp: Format_RFC3339_def appendInt_def two_def Let_def json_plain_digit json_plain_decimal
      split: prod.splits) (simp_all add: json_plain_def list_all_iff in_set_replicate)

lemma Format_no_null: "quote_char # s \<noteq> ''null''"
  by simp

text \<open>What decoding makes of a time that was encoded.\<close>

definition time_rounded :: "Time \<Rightarrow> Time" where
  "time_rounded t =
     \<lparr>Time_Time =
        \<lparr>tt_instant = whole_seconds (tt_instant (Time_Time t)),
         tt_loc = (if IsZero (Some t) then UTC else Local)\<rparr>\<rparr>"

lemma whole_seconds_zero: "whole_seconds time_zero = time_zero"
  by (simp add: whole_seconds_def time_zero_def seconds_of_def)

lemma year_of_zero: "year_of time_zero = 1"
  by (simp add: year_of_def civil_of_days_def day_of_def seconds_of_def time_zero_def
      year_loop.simps year_len_def split: prod.splits)

lemma Unmarshal_Marshal:
  "UnmarshalJSON u (MarshalJSON t) =
     (if 0 \<le> year_of (tt_instant (Time_Time t)) \<and> year_of (tt_instant (Time_Time t)) \<le> 9999
      then (None, time_rounded t)
      else (Some ParseError, u))"
proof (cases "IsZero (Some t)")
  case True
  then have "tt_instant (Time_Time t) = time_zero" by (simp add: IsZero_def)
  then show ?thesis using True
    by (simp add: MarshalJSON_def UnmarshalJSON_def time_rounded_def year_of_zero whole_seconds_zero time_Time_zero_def)
next
  case False
  let ?i = "tt_instant (Time_Time t)"
  have "json_Unmarshal_string (MarshalJSON t) = Some (Format_RFC3339 ?i)" "MarshalJSON t \<noteq> ''null''"
    using False by (simp_all add: MarshalJSON_def Unmarshal_plain json_plain_Format)
  moreover have "Parse_RFC3339 (Format_RFC3339 ?i) =
      (if 0 \<le> year_of ?i \<and> year_of ?i \<le> 9999 then Some (whole_seconds ?i) else None)"
    by (auto simp: Parse_Format intro: Parse_Format_outside)
  ultimately show ?thesis using False
    by (simp add: UnmarshalJSON_def time_Parse_RFC3339_def time_Local_def time_rounded_def)
qed

text \<open>
  The encoder and the decoder as a codec: the times the decoder yields are whole seconds in the local
  zone, or the zero time.
\<close>

definition time_exact :: "Time \<Rightarrow> bool" where
  "time_exact t \<longleftrightarrow>
     (let i = tt_instant (Time_Time t) in
      0 \<le> year_of i \<and> year_of i \<le> 9999 \<and> nanos i mod nanos_per_second = 0
      \<and> tt_loc (Time_Time t) = (if i = time_zero then UTC else Local))"

definition time_dec :: "string \<Rightarrow> time_error + Time" where
  "time_dec b =
     (case UnmarshalJSON \<lparr>Time_Time = time_Time_zero\<rparr> b of
        (None, t) \<Rightarrow> Inr t
      | (Some e, t) \<Rightarrow> Inl e)"

lemma rounded_exact: "time_exact t \<Longrightarrow> time_rounded t = t"
  by (cases t, cases "Time_Time t")
    (auto simp: time_exact_def time_rounded_def whole_seconds_def seconds_of_def IsZero_def Let_def
      intro!: timestamp.expand)

interpretation time_json: codec MarshalJSON time_dec time_exact
proof unfold_locales
  fix t assume t: "time_exact t"
  then show "time_dec (MarshalJSON t) = Inr t"
    by (simp add: time_dec_def Unmarshal_Marshal rounded_exact) (simp add: time_exact_def Let_def)
qed

text \<open>Two times that the decoder can yield have the same text only when they are the same.\<close>

lemmas MarshalJSON_inj = time_json.enc_inj

text \<open>
  A text with an offset may denote an instant outside the years the layout can write: the last second of
  9999 one hour west of Greenwich is in the year 10000.
\<close>

lemma days_year_10000: "days_of_civil 10000 1 1 = days_of_civil 9999 12 31 + 1"
proof -
  have "[1..<400] = [1..<399] @ [399]" using upt_Suc_append [of 1 399] by simp
  then have "sum_list (map year_len [1..<400]) = sum_list (map year_len [1..<399]) + 365"
    by (simp only: map_append sum_list_append) (simp add: year_len_def is_leap_def)
  moreover have "cycle_year 10000 = 400" "cycle_year 9999 = 399" by (simp_all add: cycle_year_def)
  ultimately show ?thesis
    by (simp add: days_of_civil_def month_lens_def is_leap_def del: upt_rec_numeral)
qed

definition late_text :: string where
  "late_text = quote_char # ''9999-12-31T23:59:59-01:00'' @ [quote_char]"

definition late_time :: timestamp where
  "late_time = Date_UTC 9999 12 31 23 59 59 0 (- 3600)"

lemma year_of_late: "year_of late_time = 10000"
proof -
  have "day_of late_time = days_of_civil 10000 1 1"
    by (simp add: late_time_def Date_UTC_def day_of_def seconds_of_def nanos_per_second_def days_year_10000
        del: One_nat_def)
  then show ?thesis using civil_of_days_of_civil [of 1 1 10000]
    by (simp add: year_of_def days_in_def month_lens_def)
qed

lemma Parse_late: "Parse_RFC3339 ''9999-12-31T23:59:59-01:00'' = Some late_time"
  by (simp add: Parse_RFC3339_def get_year_def field_def fraction_def zone_def number_def late_time_def
      is_digit_def digit_nat_def days_in_def month_lens_def Let_def numeral_2_eq_2 numeral_3_eq_3 eval_nat_numeral)

lemma accepted_time_not_reencoded:
  "UnmarshalJSON u late_text = (None, t) \<Longrightarrow> UnmarshalJSON v (MarshalJSON t) = (Some ParseError, v)"
proof -
  assume "UnmarshalJSON u late_text = (None, t)"
  moreover have "json_Unmarshal_string late_text = Some ''9999-12-31T23:59:59-01:00''"
    unfolding late_text_def by (rule Unmarshal_plain) (simp add: json_plain_def)
  moreover have "late_text \<noteq> ''null''" by (simp add: late_text_def)
  ultimately have "tt_instant (Time_Time t) = late_time"
    by (auto simp: UnmarshalJSON_def time_Parse_RFC3339_def Parse_late time_Local_def)
  then show ?thesis by (simp add: Unmarshal_Marshal year_of_late)
qed

section \<open>Property\<close>

text \<open>
  C39. Encoding a time and decoding it again gives the same instant with the fraction of the second cut
  off, in the local zone, when its year in UTC is 0 to 9999, and the zero time for the zero time.
  For any other year the encoder writes a text that the decoder refuses, and the receiver keeps
  its value.
\<close>

theorem Time_json_roundtrip:
  "UnmarshalJSON u (MarshalJSON t) =
     (if 0 \<le> year_of (tt_instant (Time_Time t)) \<and> year_of (tt_instant (Time_Time t)) \<le> 9999
      then (None, time_rounded t)
      else (Some ParseError, u))"
  by (rule Unmarshal_Marshal)

end
