(* ===== verification/EventTypes.thy ===== *)
theory EventTypes
  imports EventTime "HOL-Library.List_Lexorder" "HOL-Library.Char_ord" "HOL-Library.Word"
begin

text \<open>
  The data types of the package \<open>types\<close> of eventsse (\<open>eventsse/internal/types/event.go\<close> and \<open>meta.go\<close>),
  and the JSON objects their tags describe. A record has the fields of its struct, in the same order; an
  embedded struct is a field with the name of its type; a map is an association list read by the first
  entry of a key. \<open>encoding/json\<close> writes the fields in their order, the fields of an embedded struct
  without a name among those of the outer one, and leaves out a field with \<open>omitempty\<close> when it is
  false, 0, nil or an empty string or map. A struct is none of these.
\<close>

section \<open>Data\<close>

record ObjectReference =
  or_Kind :: string
  or_Namespace :: string
  or_Name :: string
  or_UID :: string
  or_APIVersion :: string
  or_ResourceVersion :: string

record TypeMeta =
  tm_Kind :: string
  tm_APIVersion :: string

record ObjectMeta =
  om_Name :: string
  om_Namespace :: string
  om_UID :: string
  om_ResourceVersion :: string
  om_Generation :: "64 word"
  om_CreationTimestamp :: Time
  om_Labels :: label_map
  om_Annotations :: label_map

record EventSource =
  es_Component :: string
  es_Host :: string

record types_Event =
  te_TypeMeta :: TypeMeta
  te_ObjectMeta :: ObjectMeta
  te_InvolvedObject :: ObjectReference
  te_Reason :: string
  te_Message :: string
  te_Source :: EventSource
  te_FirstTimestamp :: Time
  te_LastTimestamp :: Time
  te_Count :: "32 word"
  te_Type :: string
  te_Action :: string
  te_Related :: "ObjectReference option"
  te_ReportingController :: string
  te_ReportingInstance :: string

section \<open>JSON objects\<close>

text \<open>The values the encoder writes; \<open>JRaw\<close> is the text that a method \<open>MarshalJSON\<close> returns.\<close>

datatype json =
    JString string
  | JInt int
  | JRaw string
  | JObject "(string \<times> json) list"

definition omit_string :: "string \<Rightarrow> string \<Rightarrow> (string \<times> json) list" where
  "omit_string k s = (if s = [] then [] else [(k, JString s)])"

definition omit_int :: "string \<Rightarrow> int \<Rightarrow> (string \<times> json) list" where
  "omit_int k n = (if n = 0 then [] else [(k, JInt n)])"

text \<open>The encoder writes the keys of a map in their order, each once.\<close>

definition map_json :: "label_map \<Rightarrow> json" where
  "map_json m = JObject (map (\<lambda>k. (k, JString (map_index m k))) (sort (remdups (map fst m))))"

definition omit_map :: "string \<Rightarrow> label_map \<Rightarrow> (string \<times> json) list" where
  "omit_map k m = (if m = [] then [] else [(k, map_json m)])"

definition ObjectReference_json :: "ObjectReference \<Rightarrow> json" where
  "ObjectReference_json r =
     JObject (omit_string ''kind'' (or_Kind r)
       @ omit_string ''namespace'' (or_Namespace r)
       @ omit_string ''name'' (or_Name r)
       @ omit_string ''uid'' (or_UID r)
       @ omit_string ''apiVersion'' (or_APIVersion r)
       @ omit_string ''resourceVersion'' (or_ResourceVersion r))"

definition TypeMeta_json :: "TypeMeta \<Rightarrow> (string \<times> json) list" where
  "TypeMeta_json t = omit_string ''kind'' (tm_Kind t) @ omit_string ''apiVersion'' (tm_APIVersion t)"

definition ObjectMeta_json :: "ObjectMeta \<Rightarrow> json" where
  "ObjectMeta_json m =
     JObject (omit_string ''name'' (om_Name m)
       @ omit_string ''namespace'' (om_Namespace m)
       @ omit_string ''uid'' (om_UID m)
       @ omit_string ''resourceVersion'' (om_ResourceVersion m)
       @ omit_int ''generation'' (sint (om_Generation m))
       @ [(''creationTimestamp'', JRaw (MarshalJSON (om_CreationTimestamp m)))]
       @ omit_map ''labels'' (om_Labels m)
       @ omit_map ''annotations'' (om_Annotations m))"

definition EventSource_json :: "EventSource \<Rightarrow> json" where
  "EventSource_json s =
     JObject (omit_string ''component'' (es_Component s) @ omit_string ''host'' (es_Host s))"

definition Event_json :: "types_Event \<Rightarrow> json" where
  "Event_json e =
     JObject (TypeMeta_json (te_TypeMeta e)
       @ [(''metadata'', ObjectMeta_json (te_ObjectMeta e)),
          (''involvedObject'', ObjectReference_json (te_InvolvedObject e))]
       @ omit_string ''reason'' (te_Reason e)
       @ omit_string ''message'' (te_Message e)
       @ [(''source'', EventSource_json (te_Source e)),
          (''firstTimestamp'', JRaw (MarshalJSON (te_FirstTimestamp e))),
          (''lastTimestamp'', JRaw (MarshalJSON (te_LastTimestamp e)))]
       @ omit_int ''count'' (sint (te_Count e))
       @ omit_string ''type'' (te_Type e)
       @ omit_string ''action'' (te_Action e)
       @ (case te_Related e of None \<Rightarrow> [] | Some r \<Rightarrow> [(''related'', ObjectReference_json r)])
       @ [(''reportingComponent'', JString (te_ReportingController e)),
          (''reportingInstance'', JString (te_ReportingInstance e))])"

section \<open>Lookup\<close>

fun json_field :: "string \<Rightarrow> json \<Rightarrow> json option" where
  "json_field k (JObject kvs) = map_of kvs k"
| "json_field k _ = None"

lemma map_of_omit [simp]:
  "map_of (omit_string k s) = (if s = [] then Map.empty else [k \<mapsto> JString s])"
  "map_of (omit_int k n) = (if n = 0 then Map.empty else [k \<mapsto> JInt n])"
  "map_of (omit_map k m) = (if m = [] then Map.empty else [k \<mapsto> map_json m])"
  by (simp_all add: omit_string_def omit_int_def omit_map_def)

lemma map_option_JString_eq [simp]: "map_option JString x = map_option JString y \<longleftrightarrow> x = y"
  by (cases x; cases y) auto

lemma map_json_eq_iff: "map_json m = map_json m' \<longleftrightarrow> map_of m = map_of m'"
proof
  let ?pairs = "\<lambda>m. map (\<lambda>k. (k, JString (map_index m k))) (sort (remdups (map fst m)))"
  have pairs: "map_of (?pairs m) k = map_option JString (map_of m k)" for m :: label_map and k
  proof (cases "k \<in> fst ` set m")
    case True
    then obtain v where "map_of m k = Some v" by (metis map_of_eq_None_iff not_Some_eq)
    then show ?thesis using True by (simp add: map_of_map_restrict map_index_def)
  next
    case False
    then show ?thesis by (simp add: map_of_map_restrict map_of_eq_None_iff [THEN iffD2])
  qed
  {
    assume "map_json m = map_json m'"
    then have "?pairs m = ?pairs m'" by (simp add: map_json_def)
    then have "map_option JString (map_of m k) = map_option JString (map_of m' k)" for k
      using pairs [of m k] pairs [of m' k] by simp
    then show "map_of m = map_of m'" by (intro ext) simp
  next
    assume same: "map_of m = map_of m'"
    then have "fst ` set m = fst ` set m'" by (metis dom_map_of_conv_image_fst)
    then have "sort (remdups (map fst m)) = sort (remdups (map fst m'))"
      by (simp add: sorted_list_of_set_sort_remdups [symmetric])
    then show "map_json m = map_json m'" using same by (simp add: map_json_def map_index_def)
  }
qed


section \<open>What the objects tell apart\<close>

lemma omit_eq:
  "(if s = [] then None else Some (JString s)) = (if s' = [] then None else Some (JString s')) \<longleftrightarrow> s = s'"
  "(if n = 0 then None else Some (JInt n)) = (if n' = 0 then None else Some (JInt n')) \<longleftrightarrow> n = n'"
  by auto

lemma omit_map_eq:
  "(if m = [] then None else Some (map_json m)) = (if m' = [] then None else Some (map_json m'))
     \<longleftrightarrow> map_of m = map_of m'"
proof (cases "m = [] \<or> m' = []")
  case True
  moreover have "map_of m = Map.empty \<longleftrightarrow> m = []" for m :: label_map by (cases m) auto
  ultimately show ?thesis by (auto simp: eq_commute [of Map.empty])
qed (simp add: map_json_eq_iff)

lemma ObjectReference_fields:
  "json_field ''kind'' (ObjectReference_json r) = (if or_Kind r = [] then None else Some (JString (or_Kind r)))"
  "json_field ''namespace'' (ObjectReference_json r) = (if or_Namespace r = [] then None else Some (JString (or_Namespace r)))"
  "json_field ''name'' (ObjectReference_json r) = (if or_Name r = [] then None else Some (JString (or_Name r)))"
  "json_field ''uid'' (ObjectReference_json r) = (if or_UID r = [] then None else Some (JString (or_UID r)))"
  "json_field ''apiVersion'' (ObjectReference_json r) = (if or_APIVersion r = [] then None else Some (JString (or_APIVersion r)))"
  "json_field ''resourceVersion'' (ObjectReference_json r) =
     (if or_ResourceVersion r = [] then None else Some (JString (or_ResourceVersion r)))"
  by (simp_all add: ObjectReference_json_def map_add_def)

lemma ObjectReference_json_eq: "ObjectReference_json r = ObjectReference_json r' \<longleftrightarrow> r = r'"
proof
  assume eq: "ObjectReference_json r = ObjectReference_json r'"
  then have "json_field k (ObjectReference_json r) = json_field k (ObjectReference_json r')" for k by simp
  from this [of "''kind''"] this [of "''namespace''"] this [of "''name''"] this [of "''uid''"]
    this [of "''apiVersion''"] this [of "''resourceVersion''"]
  show "r = r'" by (simp add: ObjectReference_fields omit_eq)
qed simp

lemma EventSource_json_eq: "EventSource_json s = EventSource_json s' \<longleftrightarrow> s = s'"
  by (cases s, cases s') (auto simp: EventSource_json_def omit_string_def split: if_splits)

definition meta_same :: "ObjectMeta \<Rightarrow> ObjectMeta \<Rightarrow> bool" where
  "meta_same m m' \<longleftrightarrow>
     om_Name m = om_Name m' \<and> om_Namespace m = om_Namespace m' \<and> om_UID m = om_UID m'
     \<and> om_ResourceVersion m = om_ResourceVersion m' \<and> om_Generation m = om_Generation m'
     \<and> MarshalJSON (om_CreationTimestamp m) = MarshalJSON (om_CreationTimestamp m')
     \<and> map_of (om_Labels m) = map_of (om_Labels m')
     \<and> map_of (om_Annotations m) = map_of (om_Annotations m')"

definition event_same :: "types_Event \<Rightarrow> types_Event \<Rightarrow> bool" where
  "event_same e e' \<longleftrightarrow>
     te_TypeMeta e = te_TypeMeta e' \<and> meta_same (te_ObjectMeta e) (te_ObjectMeta e')
     \<and> te_InvolvedObject e = te_InvolvedObject e' \<and> te_Reason e = te_Reason e'
     \<and> te_Message e = te_Message e' \<and> te_Source e = te_Source e'
     \<and> MarshalJSON (te_FirstTimestamp e) = MarshalJSON (te_FirstTimestamp e')
     \<and> MarshalJSON (te_LastTimestamp e) = MarshalJSON (te_LastTimestamp e')
     \<and> te_Count e = te_Count e' \<and> te_Type e = te_Type e' \<and> te_Action e = te_Action e'
     \<and> te_Related e = te_Related e'
     \<and> te_ReportingController e = te_ReportingController e'
     \<and> te_ReportingInstance e = te_ReportingInstance e'"

lemma omit_map_cong: "map_of m = map_of m' \<Longrightarrow> omit_map k m = omit_map k m'"
  using omit_map_eq [of m m'] by (auto simp: omit_map_def split: if_splits)

lemma sint_eq [simp]: "sint a = sint b \<longleftrightarrow> a = b"
  by (rule word_eq_iff_signed [symmetric])

lemma ObjectMeta_fields:
  "json_field ''name'' (ObjectMeta_json m) = (if om_Name m = [] then None else Some (JString (om_Name m)))"
  "json_field ''namespace'' (ObjectMeta_json m) = (if om_Namespace m = [] then None else Some (JString (om_Namespace m)))"
  "json_field ''uid'' (ObjectMeta_json m) = (if om_UID m = [] then None else Some (JString (om_UID m)))"
  "json_field ''resourceVersion'' (ObjectMeta_json m) =
     (if om_ResourceVersion m = [] then None else Some (JString (om_ResourceVersion m)))"
  "json_field ''generation'' (ObjectMeta_json m) =
     (if sint (om_Generation m) = 0 then None else Some (JInt (sint (om_Generation m))))"
  "json_field ''creationTimestamp'' (ObjectMeta_json m) = Some (JRaw (MarshalJSON (om_CreationTimestamp m)))"
  "json_field ''labels'' (ObjectMeta_json m) = (if om_Labels m = [] then None else Some (map_json (om_Labels m)))"
  "json_field ''annotations'' (ObjectMeta_json m) =
     (if om_Annotations m = [] then None else Some (map_json (om_Annotations m)))"
  by (simp_all add: ObjectMeta_json_def map_add_def)

lemma ObjectMeta_json_eq: "ObjectMeta_json m = ObjectMeta_json m' \<longleftrightarrow> meta_same m m'"
proof
  assume eq: "ObjectMeta_json m = ObjectMeta_json m'"
  then have "json_field k (ObjectMeta_json m) = json_field k (ObjectMeta_json m')" for k by simp
  from this [of "''name''"] this [of "''namespace''"] this [of "''uid''"] this [of "''resourceVersion''"]
    this [of "''generation''"] this [of "''creationTimestamp''"] this [of "''labels''"] this [of "''annotations''"]
  show "meta_same m m'"
    unfolding ObjectMeta_fields omit_eq omit_map_eq meta_same_def sint_eq option.inject json.inject by blast
next
  assume "meta_same m m'"
  then show "ObjectMeta_json m = ObjectMeta_json m'"
    using omit_map_cong [of "om_Labels m" "om_Labels m'"] omit_map_cong [of "om_Annotations m" "om_Annotations m'"]
    by (simp add: ObjectMeta_json_def meta_same_def)
qed

lemma Event_fields:
  "json_field ''kind'' (Event_json e) = (if tm_Kind (te_TypeMeta e) = [] then None else Some (JString (tm_Kind (te_TypeMeta e))))"
  "json_field ''apiVersion'' (Event_json e) =
     (if tm_APIVersion (te_TypeMeta e) = [] then None else Some (JString (tm_APIVersion (te_TypeMeta e))))"
  "json_field ''metadata'' (Event_json e) = Some (ObjectMeta_json (te_ObjectMeta e))"
  "json_field ''involvedObject'' (Event_json e) = Some (ObjectReference_json (te_InvolvedObject e))"
  "json_field ''reason'' (Event_json e) = (if te_Reason e = [] then None else Some (JString (te_Reason e)))"
  "json_field ''message'' (Event_json e) = (if te_Message e = [] then None else Some (JString (te_Message e)))"
  "json_field ''source'' (Event_json e) = Some (EventSource_json (te_Source e))"
  "json_field ''firstTimestamp'' (Event_json e) = Some (JRaw (MarshalJSON (te_FirstTimestamp e)))"
  "json_field ''lastTimestamp'' (Event_json e) = Some (JRaw (MarshalJSON (te_LastTimestamp e)))"
  "json_field ''count'' (Event_json e) = (if sint (te_Count e) = 0 then None else Some (JInt (sint (te_Count e))))"
  "json_field ''type'' (Event_json e) = (if te_Type e = [] then None else Some (JString (te_Type e)))"
  "json_field ''action'' (Event_json e) = (if te_Action e = [] then None else Some (JString (te_Action e)))"
  "json_field ''related'' (Event_json e) = map_option ObjectReference_json (te_Related e)"
  "json_field ''reportingComponent'' (Event_json e) = Some (JString (te_ReportingController e))"
  "json_field ''reportingInstance'' (Event_json e) = Some (JString (te_ReportingInstance e))"
  by (simp_all add: Event_json_def TypeMeta_json_def map_add_def split: option.splits)

lemma map_option_Reference_eq:
  "map_option ObjectReference_json r = map_option ObjectReference_json r' \<longleftrightarrow> r = r'"
  by (cases r; cases r') (simp_all add: ObjectReference_json_eq)

section \<open>Property\<close>

text \<open>
  The JSON object of an event tells every field apart: two events have the same object exactly when
  they agree on all strings, numbers and references, on the contents of their maps and on the texts of
  their times, so leaving out the empty fields loses nothing.
\<close>

theorem Event_json_determines: "Event_json e = Event_json e' \<longleftrightarrow> event_same e e'"
proof
  assume eq: "Event_json e = Event_json e'"
  then have same: "json_field k (Event_json e) = json_field k (Event_json e')" for k by simp
  note fields = Event_fields omit_eq option.inject json.inject sint_eq
    ObjectMeta_json_eq ObjectReference_json_eq EventSource_json_eq map_option_Reference_eq
  have "te_TypeMeta e = te_TypeMeta e'"
    using same [of "''kind''"] same [of "''apiVersion''"] unfolding fields by simp
  then show "event_same e e'"
    using same [of "''metadata''"] same [of "''involvedObject''"] same [of "''reason''"] same [of "''message''"]
      same [of "''source''"] same [of "''firstTimestamp''"] same [of "''lastTimestamp''"] same [of "''count''"]
      same [of "''type''"] same [of "''action''"] same [of "''related''"] same [of "''reportingComponent''"]
      same [of "''reportingInstance''"]
    unfolding fields event_same_def by blast
next
  assume "event_same e e'"
  then show "Event_json e = Event_json e'"
    by (simp add: Event_json_def event_same_def ObjectMeta_json_eq)
qed

end
