(* ===== verification/Deepcopy.thy ===== *)
theory Deepcopy
  imports Router
begin

text \<open>
  The program's Kubernetes types and their copies (\<open>register.go\<close>, \<open>types.go\<close> and
  \<open>zz_generated.deepcopy.go\<close> in \<open>eventrouter/apis/v1alpha1\<close>). What a copy must not share is memory, so
  slices live in an explicit store: an address has a cell, and a slice of registrations is a cell with
  its elements. The metadata types of the Kubernetes library refer to cells of their own; their copying
  functions are \<open>mcopy\<close> and \<open>lcopy\<close>, with what they promise in the locale \<open>deep_copier\<close>. A pointer that
  a function gets or returns is an option of the struct it points to.
\<close>

section \<open>The kind of a registration\<close>

text \<open>The names that \<open>register.go\<close> gives the type; a group and a version are printed with a slash.\<close>

definition api_Group :: string where
  "api_Group = ''eventrouter.krateo.io''"

definition api_Version :: string where
  "api_Version = ''v1alpha1''"

definition RegistrationKind :: string where
  "RegistrationKind = ''Registration''"

definition RegistrationGroupKind :: string where
  "RegistrationGroupKind = RegistrationKind @ ''.'' @ api_Group"

definition RegistrationKindAPIVersion :: string where
  "RegistrationKindAPIVersion = RegistrationKind @ ''.'' @ api_Group @ ''/'' @ api_Version"

definition RegistrationGroupVersionKind :: gvk where
  "RegistrationGroupVersionKind = \<lparr>gvk_Group = api_Group, gvk_Version = api_Version, gvk_Kind = RegistrationKind\<rparr>"

text \<open>The kind that the router lists is the one that is registered.\<close>

lemma listed_kind_is_registered: "registration_gvk = RegistrationGroupVersionKind"
  by (simp add: registration_gvk_def RegistrationGroupVersionKind_def api_Group_def api_Version_def RegistrationKind_def)

section \<open>Store\<close>

record 'm Registration =
  rg_TypeMeta :: "string \<times> string"
  rg_ObjectMeta :: 'm
  rg_Spec :: RegistrationSpec

record ('m, 'l) RegistrationList =
  rl_TypeMeta :: "string \<times> string"
  rl_ListMeta :: 'l
  rl_Items :: "nat option"

datatype ('m, 'f) cell = Items "'m Registration list" | Foreign 'f

record 'c store =
  st_next :: nat
  st_cells :: "nat \<Rightarrow> 'c option"

definition slice_at :: "('m, 'f) cell store \<Rightarrow> nat \<Rightarrow> 'm Registration list" where
  "slice_at s a = (case st_cells s a of Some (Items xs) \<Rightarrow> xs | _ \<Rightarrow> [])"

definition make_cell :: "'c \<Rightarrow> 'c store \<Rightarrow> nat \<times> 'c store" where
  "make_cell c s = (st_next s, \<lparr>st_next = Suc (st_next s), st_cells = (st_cells s)(st_next s \<mapsto> c)\<rparr>)"

definition set_elem :: "nat \<Rightarrow> nat \<Rightarrow> 'm Registration \<Rightarrow> ('m, 'f) cell store \<Rightarrow> ('m, 'f) cell store" where
  "set_elem a i r s = s\<lparr>st_cells := (st_cells s)(a \<mapsto> Items ((slice_at s a)[i := r]))\<rparr>"

section \<open>Copying\<close>

definition RegistrationSpec_DeepCopyInto :: "RegistrationSpec \<Rightarrow> 'c store \<Rightarrow> RegistrationSpec \<times> 'c store" where
  "RegistrationSpec_DeepCopyInto sp s = (sp, s)"

definition RegistrationSpec_DeepCopy ::
  "RegistrationSpec option \<Rightarrow> 'c store \<Rightarrow> RegistrationSpec option \<times> 'c store" where
  "RegistrationSpec_DeepCopy sp s =
     (case sp of
        None \<Rightarrow> (None, s)
      | Some sp \<Rightarrow> (let (out, s) = RegistrationSpec_DeepCopyInto sp s in (Some out, s)))"

definition Registration_DeepCopyInto ::
  "('m \<Rightarrow> 'c store \<Rightarrow> 'm \<times> 'c store) \<Rightarrow> 'm Registration \<Rightarrow> 'c store \<Rightarrow> 'm Registration \<times> 'c store" where
  "Registration_DeepCopyInto mcopy r s =
     (let out = r\<lparr>rg_TypeMeta := rg_TypeMeta r\<rparr>;
          (m, s) = mcopy (rg_ObjectMeta r) s
      in (out\<lparr>rg_ObjectMeta := m, rg_Spec := rg_Spec r\<rparr>, s))"

definition Registration_DeepCopy ::
  "('m \<Rightarrow> 'c store \<Rightarrow> 'm \<times> 'c store) \<Rightarrow> 'm Registration option \<Rightarrow> 'c store
     \<Rightarrow> 'm Registration option \<times> 'c store" where
  "Registration_DeepCopy mcopy r s =
     (case r of
        None \<Rightarrow> (None, s)
      | Some r \<Rightarrow> (let (out, s) = Registration_DeepCopyInto mcopy r s in (Some out, s)))"

text \<open>The loop over the indices of the slice at \<open>src\<close>, which fills the one at \<open>dst\<close>.\<close>

fun copy_items ::
  "('m \<Rightarrow> ('m, 'f) cell store \<Rightarrow> 'm \<times> ('m, 'f) cell store) \<Rightarrow> nat \<Rightarrow> nat \<Rightarrow> nat list
     \<Rightarrow> ('m, 'f) cell store \<Rightarrow> ('m, 'f) cell store" where
  "copy_items mcopy src dst [] s = s"
| "copy_items mcopy src dst (i # is) s =
     (let (y, s) = Registration_DeepCopyInto mcopy (slice_at s src ! i) s
      in copy_items mcopy src dst is (set_elem dst i y s))"

text \<open>\<open>zero\<close> is the zero value of the metadata, which \<open>make\<close> puts into the new slice.\<close>

definition RegistrationList_DeepCopyInto ::
  "('m \<Rightarrow> ('m, 'f) cell store \<Rightarrow> 'm \<times> ('m, 'f) cell store)
     \<Rightarrow> ('l \<Rightarrow> ('m, 'f) cell store \<Rightarrow> 'l \<times> ('m, 'f) cell store) \<Rightarrow> 'm
     \<Rightarrow> ('m, 'l) RegistrationList \<Rightarrow> ('m, 'f) cell store
     \<Rightarrow> ('m, 'l) RegistrationList \<times> ('m, 'f) cell store" where
  "RegistrationList_DeepCopyInto mcopy lcopy zero l s =
     (let out = l\<lparr>rl_TypeMeta := rl_TypeMeta l\<rparr>;
          (lm, s) = lcopy (rl_ListMeta l) s;
          out = out\<lparr>rl_ListMeta := lm\<rparr>
      in (case rl_Items l of
            None \<Rightarrow> (out, s)
          | Some src \<Rightarrow>
              (let n = length (slice_at s src);
                   blank = \<lparr>rg_TypeMeta = ([], []), rg_ObjectMeta = zero,
                            rg_Spec = \<lparr>reg_ServiceName = [], reg_Endpoint = []\<rparr>\<rparr>;
                   (dst, s) = make_cell (Items (replicate n blank)) s
               in (out\<lparr>rl_Items := Some dst\<rparr>, copy_items mcopy src dst [0..<n] s))))"

definition RegistrationList_DeepCopy ::
  "('m \<Rightarrow> ('m, 'f) cell store \<Rightarrow> 'm \<times> ('m, 'f) cell store)
     \<Rightarrow> ('l \<Rightarrow> ('m, 'f) cell store \<Rightarrow> 'l \<times> ('m, 'f) cell store) \<Rightarrow> 'm
     \<Rightarrow> ('m, 'l) RegistrationList option \<Rightarrow> ('m, 'f) cell store
     \<Rightarrow> ('m, 'l) RegistrationList option \<times> ('m, 'f) cell store" where
  "RegistrationList_DeepCopy mcopy lcopy zero l s =
     (case l of
        None \<Rightarrow> (None, s)
      | Some l \<Rightarrow> (let (out, s) = RegistrationList_DeepCopyInto mcopy lcopy zero l s in (Some out, s)))"

text \<open>The interface \<open>runtime.Object\<close>; its nil is \<open>None\<close>.\<close>

datatype ('m, 'l) runtime_object =
    RegistrationObject "'m Registration"
  | RegistrationListObject "('m, 'l) RegistrationList"

definition Registration_DeepCopyObject ::
  "('m \<Rightarrow> 'c store \<Rightarrow> 'm \<times> 'c store) \<Rightarrow> 'm Registration option \<Rightarrow> 'c store
     \<Rightarrow> ('m, 'l) runtime_object option \<times> 'c store" where
  "Registration_DeepCopyObject mcopy r s =
     (let (c, s) = Registration_DeepCopy mcopy r s
      in (case c of Some c \<Rightarrow> (Some (RegistrationObject c), s) | None \<Rightarrow> (None, s)))"

definition RegistrationList_DeepCopyObject ::
  "('m \<Rightarrow> ('m, 'f) cell store \<Rightarrow> 'm \<times> ('m, 'f) cell store)
     \<Rightarrow> ('l \<Rightarrow> ('m, 'f) cell store \<Rightarrow> 'l \<times> ('m, 'f) cell store) \<Rightarrow> 'm
     \<Rightarrow> ('m, 'l) RegistrationList option \<Rightarrow> ('m, 'f) cell store
     \<Rightarrow> ('m, 'l) runtime_object option \<times> ('m, 'f) cell store" where
  "RegistrationList_DeepCopyObject mcopy lcopy zero l s =
     (let (c, s) = RegistrationList_DeepCopy mcopy lcopy zero l s
      in (case c of Some c \<Rightarrow> (Some (RegistrationListObject c), s) | None \<Rightarrow> (None, s)))"

section \<open>What a deep copy promises\<close>

text \<open>
  \<open>foot s x\<close> is the set of addresses that the value \<open>x\<close> reaches in the store \<open>s\<close>, and \<open>view s x\<close> what it
  amounts to with every reference followed. Both depend on the cells of the footprint alone. A copy
  keeps the old cells, has the view of the original and reaches only cells that are new.
\<close>

locale deep_copier =
  fixes copy :: "'a \<Rightarrow> 'c store \<Rightarrow> 'a \<times> 'c store"
    and view :: "'c store \<Rightarrow> 'a \<Rightarrow> 'v"
    and foot :: "'c store \<Rightarrow> 'a \<Rightarrow> nat set"
  assumes foot_local: "(\<And>a. a \<in> foot s x \<Longrightarrow> st_cells t a = st_cells s a) \<Longrightarrow> foot t x = foot s x"
    and view_local: "(\<And>a. a \<in> foot s x \<Longrightarrow> st_cells t a = st_cells s a) \<Longrightarrow> view t x = view s x"
    and copy_grows: "foot s x \<subseteq> {..<st_next s} \<Longrightarrow> copy x s = (y, t) \<Longrightarrow> st_next s \<le> st_next t"
    and copy_keeps: "foot s x \<subseteq> {..<st_next s} \<Longrightarrow> copy x s = (y, t) \<Longrightarrow> a < st_next s
      \<Longrightarrow> st_cells t a = st_cells s a"
    and copy_view: "foot s x \<subseteq> {..<st_next s} \<Longrightarrow> copy x s = (y, t) \<Longrightarrow> view t y = view s x"
    and copy_fresh: "foot s x \<subseteq> {..<st_next s} \<Longrightarrow> copy x s = (y, t)
      \<Longrightarrow> foot t y \<subseteq> {st_next s..<st_next t}"
begin

lemma original_kept:
  assumes "foot s x \<subseteq> {..<st_next s}" and "copy x s = (y, t)"
  shows "view t x = view s x" and "foot t x = foot s x"
proof -
  have "st_cells t a = st_cells s a" if "a \<in> foot s x" for a
    using assms(1) that by (intro copy_keeps [OF assms]) auto
  then show "view t x = view s x" and "foot t x = foot s x"
    using view_local foot_local by blast+
qed

lemma unshared:
  assumes "foot s x \<subseteq> {..<st_next s}" and "copy x s = (y, t)"
  shows "foot t x \<inter> foot t y = {}"
  using assms original_kept(2) [OF assms] copy_fresh [OF assms] by fastforce

text \<open>Writing into what the copy reaches leaves the original as it was, and the other way round.\<close>

lemma copy_separate:
  assumes "foot s x \<subseteq> {..<st_next s}" and "copy x s = (y, t)"
  shows "(\<And>a. a \<notin> foot t y \<Longrightarrow> st_cells u a = st_cells t a) \<Longrightarrow> view u x = view s x"
    and "(\<And>a. a \<notin> foot t x \<Longrightarrow> st_cells u a = st_cells t a) \<Longrightarrow> view u y = view s x"
proof -
  note disjoint = unshared [OF assms]
  {
    assume "\<And>a. a \<notin> foot t y \<Longrightarrow> st_cells u a = st_cells t a"
    then have "view u x = view t x" using disjoint by (intro view_local) blast
    then show "view u x = view s x" using original_kept(1) [OF assms] by simp
  next
    assume "\<And>a. a \<notin> foot t x \<Longrightarrow> st_cells u a = st_cells t a"
    then have "view u y = view t y" using disjoint by (intro view_local) blast
    then show "view u y = view s x" using copy_view [OF assms] by simp
  }
qed

end

interpretation spec: deep_copier RegistrationSpec_DeepCopyInto "\<lambda>s sp. sp" "\<lambda>s sp. {}"
  by unfold_locales (simp_all add: RegistrationSpec_DeepCopyInto_def)

section \<open>Registrations\<close>

definition reg_view :: "('c store \<Rightarrow> 'm \<Rightarrow> 'v) \<Rightarrow> 'c store \<Rightarrow> 'm Registration \<Rightarrow> 'v Registration" where
  "reg_view mview s r =
     \<lparr>rg_TypeMeta = rg_TypeMeta r, rg_ObjectMeta = mview s (rg_ObjectMeta r), rg_Spec = rg_Spec r\<rparr>"

definition reg_foot :: "('c store \<Rightarrow> 'm \<Rightarrow> nat set) \<Rightarrow> 'c store \<Rightarrow> 'm Registration \<Rightarrow> nat set" where
  "reg_foot mfoot s r = mfoot s (rg_ObjectMeta r)"

lemma Registration_copier:
  assumes "deep_copier mcopy mview mfoot"
  shows "deep_copier (Registration_DeepCopyInto mcopy) (reg_view mview) (reg_foot mfoot)"
proof -
  have copy: "\<exists>m. mcopy (rg_ObjectMeta r) s = (m, t) \<and> y = r\<lparr>rg_ObjectMeta := m\<rparr>"
    if "Registration_DeepCopyInto mcopy r s = (y, t)" for r y s t
    using that by (auto simp: Registration_DeepCopyInto_def split: prod.splits)
  show ?thesis
  proof (unfold_locales, goal_cases)
    case (1 s x t)
    then show ?case unfolding reg_foot_def by (rule deep_copier.foot_local [OF assms])
  next
    case (2 s x t)
    then have "mview t (rg_ObjectMeta x) = mview s (rg_ObjectMeta x)"
      unfolding reg_foot_def by (rule deep_copier.view_local [OF assms])
    then show ?case by (simp add: reg_view_def)
  next
    case (3 s x y t)
    then show ?case using copy [OF 3(2)] deep_copier.copy_grows [OF assms] by (force simp: reg_foot_def)
  next
    case (4 s x y t a)
    then show ?case using copy [OF 4(2)] deep_copier.copy_keeps [OF assms] by (force simp: reg_foot_def)
  next
    case (5 s x y t)
    then show ?case using copy [OF 5(2)] deep_copier.copy_view [OF assms]
      by (force simp: reg_foot_def reg_view_def)
  next
    case (6 s x y t)
    then obtain m where m: "mcopy (rg_ObjectMeta x) s = (m, t)" "rg_ObjectMeta y = m" using copy by fastforce
    show ?case using deep_copier.copy_fresh [OF assms _ m(1)] 6(1) m(2) by (simp add: reg_foot_def)
  qed
qed

section \<open>Lists of registrations\<close>

lemma set_elem_simps [simp]:
  "st_next (set_elem a i r s) = st_next s"
  "st_cells (set_elem a i r s) b = (if b = a then Some (Items ((slice_at s a)[i := r])) else st_cells s b)"
  by (simp_all add: set_elem_def)

lemma slice_at_Items: "st_cells s a = Some (Items xs) \<Longrightarrow> slice_at s a = xs"
  by (simp add: slice_at_def)

lemma copy_items_correct:
  assumes "deep_copier mcopy mview mfoot"
    and "slice_at s src = xs" and "src < st_next s" and "src \<noteq> dst" and "dst < st_next s"
    and "st_cells s dst = Some (Items ys)" and "length ys = length xs" and "i \<le> length xs"
    and "\<And>x. x \<in> set xs \<Longrightarrow> reg_foot mfoot s x \<subseteq> {..<st_next s} - {dst}"
    and "t = copy_items mcopy src dst [i..<length xs] s"
  shows "st_next s \<le> st_next t \<and> (\<forall>a < st_next s. a \<noteq> dst \<longrightarrow> st_cells t a = st_cells s a)
    \<and> (\<exists>zs. st_cells t dst = Some (Items zs) \<and> length zs = length xs \<and> take i zs = take i ys
        \<and> (\<forall>j. i \<le> j \<and> j < length xs \<longrightarrow>
             reg_view mview t (zs ! j) = reg_view mview s (xs ! j)
             \<and> reg_foot mfoot t (zs ! j) \<subseteq> {st_next s..<st_next t}))"
  using assms(2-)
proof (induction "length xs - i" arbitrary: i s ys)
  case 0
  then show ?case by auto
next
  case (Suc k)
  let ?v = "reg_view mview" and ?f = "reg_foot mfoot"
  note dc = Registration_copier [OF assms(1)]
  have i: "i < length xs" using Suc(2) by simp
  obtain y u where copy: "Registration_DeepCopyInto mcopy (xs ! i) s = (y, u)" by force
  define u' where "u' = set_elem dst i y u"
  have x: "xs ! i \<in> set xs" using i by simp
  then have reach: "?f s (xs ! i) \<subseteq> {..<st_next s}" using Suc(10) by blast
  have old: "st_cells u a = st_cells s a" if "a < st_next s" for a
    using deep_copier.copy_keeps [OF dc reach copy that] .
  have grows: "st_next s \<le> st_next u'"
    using deep_copier.copy_grows [OF dc reach copy] by (simp add: u'_def)
  have fresh: "?f u y \<subseteq> {st_next s..<st_next u}" by (rule deep_copier.copy_fresh [OF dc reach copy])
  have same: "st_cells u' a = st_cells s a" if "a < st_next s" "a \<noteq> dst" for a
    using old that by (simp add: u'_def)
  have dst: "st_cells u' dst = Some (Items (ys[i := y]))"
    using old [OF Suc(6)] Suc(7) by (simp add: u'_def slice_at_Items)
  have kept: "?f u' z = ?f s z" "?v u' z = ?v s z" if "z \<in> set xs" for z
    using Suc(10) [OF that] same deep_copier.foot_local [OF dc] deep_copier.view_local [OF dc] by blast+
  have reach': "?f u' z \<subseteq> {..<st_next u'} - {dst}" if "z \<in> set xs" for z
    using Suc(10) [OF that] kept [OF that] grows by auto
  have run: "t = copy_items mcopy src dst [Suc i..<length xs] u'"
    using Suc(11) i copy Suc(3) by (simp add: upt_conv_Cons u'_def)
  have src: "slice_at u' src = xs" using same Suc(3-5) by (simp add: slice_at_def)
  have "k = length xs - Suc i" using Suc(2) by simp
  from Suc(1) [OF this src _ Suc(5) _ dst _ _ reach' run] obtain zs where
    t: "st_next u' \<le> st_next t" "\<forall>a < st_next u'. a \<noteq> dst \<longrightarrow> st_cells t a = st_cells u' a"
    and zs: "st_cells t dst = Some (Items zs)" "length zs = length xs" "take (Suc i) zs = take (Suc i) (ys[i := y])"
    and copied: "\<And>j. Suc i \<le> j \<Longrightarrow> j < length xs \<Longrightarrow>
      ?v t (zs ! j) = ?v u' (xs ! j) \<and> ?f t (zs ! j) \<subseteq> {st_next u'..<st_next t}"
    using Suc(4,6,8) grows i by auto
  have zi: "zs ! i = y" and before: "take i zs = take i ys"
    using zs(2,3) i Suc(8) by (metis lessI nth_take nth_list_update_eq, metis take_update_cancel le_refl take_take min.absorb1 lessI less_imp_le)
  have "st_cells t a = st_cells u a" if "a \<in> ?f u y" for a
    using that fresh Suc(6) t(2) by (fastforce simp: u'_def)
  then have y: "?f t y = ?f u y" "?v t y = ?v u y"
    using deep_copier.foot_local [OF dc] deep_copier.view_local [OF dc] by blast+
  have at_i: "?v t (zs ! i) = ?v s (xs ! i)" "?f t (zs ! i) \<subseteq> {st_next s..<st_next t}"
    using y zi fresh t(1) deep_copier.copy_view [OF dc reach copy] by (auto simp: u'_def)
  have "?v t (zs ! j) = ?v s (xs ! j) \<and> ?f t (zs ! j) \<subseteq> {st_next s..<st_next t}"
    if "i \<le> j" "j < length xs" for j
  proof (cases "j = i")
    case False
    then show ?thesis using copied [of j] that kept(2) [of "xs ! j"] grows by fastforce
  qed (use at_i in simp)
  moreover have "st_next s \<le> st_next t" using grows t(1) by simp
  moreover have "\<forall>a < st_next s. a \<noteq> dst \<longrightarrow> st_cells t a = st_cells s a"
    using t(2) grows same by simp
  ultimately show ?case using zs(1,2) before by blast
qed

definition list_view ::
  "(('m, 'f) cell store \<Rightarrow> 'm \<Rightarrow> 'v) \<Rightarrow> (('m, 'f) cell store \<Rightarrow> 'l \<Rightarrow> 'w) \<Rightarrow> ('m, 'f) cell store
     \<Rightarrow> ('m, 'l) RegistrationList \<Rightarrow> (string \<times> string) \<times> 'w \<times> 'v Registration list option" where
  "list_view mview lview s l =
     (rl_TypeMeta l, lview s (rl_ListMeta l),
      map_option (\<lambda>a. map (reg_view mview s) (slice_at s a)) (rl_Items l))"

definition list_foot ::
  "(('m, 'f) cell store \<Rightarrow> 'm \<Rightarrow> nat set) \<Rightarrow> (('m, 'f) cell store \<Rightarrow> 'l \<Rightarrow> nat set) \<Rightarrow> ('m, 'f) cell store
     \<Rightarrow> ('m, 'l) RegistrationList \<Rightarrow> nat set" where
  "list_foot mfoot lfoot s l =
     lfoot s (rl_ListMeta l)
     \<union> (case rl_Items l of
          None \<Rightarrow> {}
        | Some a \<Rightarrow> insert a (\<Union>r \<in> set (slice_at s a). reg_foot mfoot s r))"

lemma list_local:
  assumes "deep_copier mcopy mview mfoot" and "deep_copier lcopy lview lfoot"
    and same: "\<And>a. a \<in> list_foot mfoot lfoot s l \<Longrightarrow> st_cells t a = st_cells s a"
  shows "list_foot mfoot lfoot t l = list_foot mfoot lfoot s l"
    and "list_view mview lview t l = list_view mview lview s l"
proof -
  note dc = Registration_copier [OF assms(1)]
  have "st_cells t a = st_cells s a" if "a \<in> lfoot s (rl_ListMeta l)" for a
    using same that by (simp add: list_foot_def)
  then have lm: "lview t (rl_ListMeta l) = lview s (rl_ListMeta l)" "lfoot t (rl_ListMeta l) = lfoot s (rl_ListMeta l)"
    using deep_copier.view_local [OF assms(2)] deep_copier.foot_local [OF assms(2)] by blast+
  have items: "slice_at t a = slice_at s a
      \<and> (\<forall>r \<in> set (slice_at s a). reg_view mview t r = reg_view mview s r \<and> reg_foot mfoot t r = reg_foot mfoot s r)"
    if a: "rl_Items l = Some a" for a
  proof -
    have "slice_at t a = slice_at s a" using same [of a] a by (simp add: list_foot_def slice_at_def)
    moreover have "st_cells t b = st_cells s b" if "r \<in> set (slice_at s a)" "b \<in> reg_foot mfoot s r" for r b
      using same a that by (auto simp: list_foot_def)
    then have "reg_view mview t r = reg_view mview s r \<and> reg_foot mfoot t r = reg_foot mfoot s r"
      if "r \<in> set (slice_at s a)" for r
      using that deep_copier.view_local [OF dc] deep_copier.foot_local [OF dc] by blast
    ultimately show ?thesis by simp
  qed
  show "list_foot mfoot lfoot t l = list_foot mfoot lfoot s l"
    using lm items by (cases "rl_Items l") (simp_all add: list_foot_def)
  show "list_view mview lview t l = list_view mview lview s l"
    using lm items by (cases "rl_Items l") (simp_all add: list_view_def)
qed

lemma RegistrationList_copied:
  assumes m: "deep_copier mcopy mview mfoot" and lm: "deep_copier lcopy lview lfoot"
    and reach: "list_foot mfoot lfoot s l \<subseteq> {..<st_next s}"
    and copy: "RegistrationList_DeepCopyInto mcopy lcopy zero l s = (y, t)"
  shows "st_next s \<le> st_next t \<and> (\<forall>a < st_next s. st_cells t a = st_cells s a)
    \<and> list_view mview lview t y = list_view mview lview s l
    \<and> list_foot mfoot lfoot t y \<subseteq> {st_next s..<st_next t}"
proof -
  obtain lm' u where lc: "lcopy (rl_ListMeta l) s = (lm', u)" by force
  have lreach: "lfoot s (rl_ListMeta l) \<subseteq> {..<st_next s}" using reach by (simp add: list_foot_def)
  note dc = Registration_copier [OF m]
  note lold = deep_copier.copy_keeps [OF lm lreach lc] and lgrows = deep_copier.copy_grows [OF lm lreach lc]
    and lview = deep_copier.copy_view [OF lm lreach lc] and lfresh = deep_copier.copy_fresh [OF lm lreach lc]
  show ?thesis
  proof (cases "rl_Items l")
    case None
    then have "y = l\<lparr>rl_ListMeta := lm'\<rparr>" "t = u"
      using copy lc by (auto simp: RegistrationList_DeepCopyInto_def)
    then show ?thesis using None lold lgrows lview lfresh by (simp add: list_view_def list_foot_def)
  next
    case (Some src)
    define xs where "xs = slice_at s src"
    have xs: "slice_at s src = xs" by (simp add: xs_def)
    define dst where "dst = st_next u"
    define blank :: "'a Registration" where
      "blank = \<lparr>rg_TypeMeta = ([], []), rg_ObjectMeta = zero, rg_Spec = \<lparr>reg_ServiceName = [], reg_Endpoint = []\<rparr>\<rparr>"
    define v where "v = snd (make_cell (Items (replicate (length xs) blank)) u)"
    have src: "src < st_next s" and rreach: "\<And>x. x \<in> set xs \<Longrightarrow> reg_foot mfoot s x \<subseteq> {..<st_next s}"
      using reach Some xs by (auto simp: list_foot_def)
    have v: "st_next v = Suc dst" "\<And>a. a \<noteq> dst \<Longrightarrow> st_cells v a = st_cells u a"
      "st_cells v dst = Some (Items (replicate (length xs) blank))"
      by (simp_all add: v_def make_cell_def dst_def)
    have vold: "st_cells v a = st_cells s a" if "a < st_next s" for a
      using that lold lgrows v(2) [of a] by (simp add: dst_def)
    have kept: "reg_foot mfoot v x = reg_foot mfoot s x" "reg_view mview v x = reg_view mview s x"
      if "x \<in> set xs" for x
      using rreach [OF that] vold deep_copier.foot_local [OF dc] deep_copier.view_local [OF dc] by blast+
    have yt: "y = l\<lparr>rl_ListMeta := lm', rl_Items := Some dst\<rparr>" "t = copy_items mcopy src dst [0..<length xs] v"
      using copy Some lc lold [OF src] xs
      by (auto simp: RegistrationList_DeepCopyInto_def slice_at_def make_cell_def dst_def v_def blank_def Let_def)
    have lt: "st_next s \<le> dst" using lgrows by (simp add: dst_def)
    have "reg_foot mfoot v x \<subseteq> {..<st_next v} - {dst}" if "x \<in> set xs" for x
      using rreach [OF that] kept(1) [OF that] lt v(1) by auto
    from copy_items_correct [OF m _ _ _ _ v(3) _ _ this yt(2)] obtain zs where
      t: "st_next v \<le> st_next t" "\<forall>a < st_next v. a \<noteq> dst \<longrightarrow> st_cells t a = st_cells v a"
      and zs: "st_cells t dst = Some (Items zs)" "length zs = length xs"
      and items: "\<And>j. j < length xs \<Longrightarrow> reg_view mview t (zs ! j) = reg_view mview v (xs ! j)
        \<and> reg_foot mfoot t (zs ! j) \<subseteq> {st_next v..<st_next t}"
      using vold [OF src] xs src lt v(1) by (auto simp: slice_at_def)
    have told: "st_cells t a = st_cells u a" if "a < dst" for a using that t(2) v(1,2) by simp
    have "lfoot t lm' = lfoot u lm'" "lview t lm' = lview u lm'"
      using told lfresh deep_copier.foot_local [OF lm] deep_copier.view_local [OF lm]
      by (metis atLeastLessThan_iff dst_def subset_iff)+
    moreover have "map (reg_view mview t) zs = map (reg_view mview s) xs"
      using zs(2) items kept(2) by (intro nth_equalityI) simp_all
    moreover have "(\<Union>r \<in> set zs. reg_foot mfoot t r) \<subseteq> {st_next s..<st_next t}"
      using items zs(2) lt v(1) by (fastforce simp: in_set_conv_nth)
    ultimately show ?thesis
      using yt(1) zs(1) xs Some lview lfresh lgrows t(1) v(1) lt told lold
      by (auto simp: list_view_def list_foot_def slice_at_Items dst_def)
  qed
qed

lemma RegistrationList_copier:
  assumes "deep_copier mcopy mview mfoot" and "deep_copier lcopy lview lfoot"
  shows "deep_copier (RegistrationList_DeepCopyInto mcopy lcopy zero)
    (list_view mview lview) (list_foot mfoot lfoot)"
proof (unfold_locales, goal_cases)
  case 1
  then show ?case by (rule list_local(1) [OF assms])
next
  case 2
  then show ?case by (rule list_local(2) [OF assms])
qed (use RegistrationList_copied [OF assms] in blast)+

section \<open>Property\<close>

text \<open>
  C37. A deep copy of a list of registrations has the contents of the list and shares nothing with it: no
  later write to the memory of either one changes the other. This needs the same of the copying
  functions of the metadata.
\<close>

theorem RegistrationList_DeepCopy_separate:
  assumes "deep_copier mcopy mview mfoot" and "deep_copier lcopy lview lfoot"
    and "list_foot mfoot lfoot s l \<subseteq> {..<st_next s}"
    and "RegistrationList_DeepCopyObject mcopy lcopy zero (Some l) s = (p, t)"
  shows "\<exists>y. p = Some (RegistrationListObject y)
    \<and> list_view mview lview t y = list_view mview lview s l
    \<and> (\<forall>u. (\<forall>a. a \<notin> list_foot mfoot lfoot t y \<longrightarrow> st_cells u a = st_cells t a)
         \<longrightarrow> list_view mview lview u l = list_view mview lview s l)
    \<and> (\<forall>u. (\<forall>a. a \<notin> list_foot mfoot lfoot t l \<longrightarrow> st_cells u a = st_cells t a)
         \<longrightarrow> list_view mview lview u y = list_view mview lview s l)"
proof -
  note dc = RegistrationList_copier [OF assms(1,2)]
  obtain y where y: "RegistrationList_DeepCopyInto mcopy lcopy zero l s = (y, t)" "p = Some (RegistrationListObject y)"
    using assms(4) by (auto simp: RegistrationList_DeepCopyObject_def RegistrationList_DeepCopy_def split: prod.splits)
  show ?thesis
    using y(2) deep_copier.copy_view [OF dc assms(3) y(1)] deep_copier.copy_separate [OF dc assms(3) y(1)] by blast
qed

text \<open>A concrete metadata type: the address of a cell with the labels.\<close>

definition wit_mcopy :: "nat option \<Rightarrow> (nat option, string list) cell store
    \<Rightarrow> nat option \<times> (nat option, string list) cell store" where
  "wit_mcopy m s =
     (case m of
        None \<Rightarrow> (None, s)
      | Some a \<Rightarrow>
          (let (b, s') = make_cell (case st_cells s a of Some (Foreign l) \<Rightarrow> Foreign l | _ \<Rightarrow> Foreign []) s
           in (Some b, s')))"

definition wit_mview :: "(nat option, string list) cell store \<Rightarrow> nat option \<Rightarrow> string list option" where
  "wit_mview s m = map_option (\<lambda>a. case st_cells s a of Some (Foreign l) \<Rightarrow> l | _ \<Rightarrow> []) m"

definition wit_mfoot :: "(nat option, string list) cell store \<Rightarrow> nat option \<Rightarrow> nat set" where
  "wit_mfoot s m = set_option m"

lemma wit_copier: "deep_copier wit_mcopy wit_mview wit_mfoot"
proof (unfold_locales, goal_cases)
  case (2 s x t)
  then show ?case by (cases x) (simp_all add: wit_mview_def wit_mfoot_def)
qed (auto simp: wit_mcopy_def wit_mview_def wit_mfoot_def make_cell_def
    split: option.splits cell.splits)

definition wit_store :: "(nat option, string list) cell store" where
  "wit_store =
     \<lparr>st_next = 2,
      st_cells = [0 \<mapsto> Foreign [''team=a''],
                  1 \<mapsto> Items [\<lparr>rg_TypeMeta = (''Registration'', ''v1alpha1''), rg_ObjectMeta = Some 0,
                              rg_Spec = \<lparr>reg_ServiceName = ''s'', reg_Endpoint = ''http://s''\<rparr>\<rparr>]]\<rparr>"

definition wit_list :: "(nat option, nat option) RegistrationList" where
  "wit_list = \<lparr>rl_TypeMeta = (''RegistrationList'', ''v1alpha1''), rl_ListMeta = None, rl_Items = Some 1\<rparr>"

theorem RegistrationList_DeepCopy_separate_witness:
  "\<exists>p t y. RegistrationList_DeepCopyObject wit_mcopy wit_mcopy None (Some wit_list) wit_store = (p, t)
     \<and> p = Some (RegistrationListObject y)
     \<and> list_view wit_mview wit_mview t y = list_view wit_mview wit_mview wit_store wit_list"
proof -
  obtain p t where run: "RegistrationList_DeepCopyObject wit_mcopy wit_mcopy None (Some wit_list) wit_store = (p, t)"
    by force
  have "list_foot wit_mfoot wit_mfoot wit_store wit_list \<subseteq> {..<st_next wit_store}"
    by (auto simp: list_foot_def wit_mfoot_def wit_store_def wit_list_def slice_at_def reg_foot_def)
  from RegistrationList_DeepCopy_separate [OF wit_copier wit_copier this run] run show ?thesis by blast
qed

end
