(* ===== verification/Fifo.thy ===== *)
theory Fifo
  imports Pool
begin

text \<open>
  The abstract queue that both implementations of \<open>Queuer\<close> are meant to be: jobs wait in a line, at most
  a given number of them run at a time, and a worker that is free takes the first one. The locale
  \<open>fifo_queue\<close> is the simulation that an implementation owes it; what follows for the order of the jobs
  is proved in it once.
\<close>

section \<open>Specification\<close>

datatype 'j q_event = Enter 'j | Start 'j | Finish 'j

record 'j fifo =
  ff_waiting :: "'j list"
  ff_running :: "'j multiset"
  ff_finished :: "'j multiset"

definition fifo_empty :: "'j fifo" where
  "fifo_empty = \<lparr>ff_waiting = [], ff_running = {#}, ff_finished = {#}\<rparr>"

fun fifo_step :: "nat \<Rightarrow> 'j q_event \<Rightarrow> 'j fifo \<Rightarrow> 'j fifo option" where
  "fifo_step n (Enter j) f = Some (f\<lparr>ff_waiting := ff_waiting f @ [j]\<rparr>)"
| "fifo_step n (Start j) f =
     (if ff_waiting f \<noteq> [] \<and> hd (ff_waiting f) = j \<and> size (ff_running f) < n
      then Some (f\<lparr>ff_waiting := tl (ff_waiting f), ff_running := add_mset j (ff_running f)\<rparr>) else None)"
| "fifo_step n (Finish j) f =
     (if j \<in># ff_running f
      then Some (f\<lparr>ff_running := ff_running f - {#j#}, ff_finished := add_mset j (ff_finished f)\<rparr>) else None)"

fun fifo_exec :: "nat \<Rightarrow> 'j q_event list \<Rightarrow> 'j fifo \<Rightarrow> 'j fifo option" where
  "fifo_exec n [] f = Some f"
| "fifo_exec n (e # es) f = Option.bind (fifo_step n e f) (fifo_exec n es)"

fun entered :: "'j q_event list \<Rightarrow> 'j list" where
  "entered [] = []"
| "entered (Enter j # es) = j # entered es"
| "entered (_ # es) = entered es"

fun started :: "'j q_event list \<Rightarrow> 'j list" where
  "started [] = []"
| "started (Start j # es) = j # started es"
| "started (_ # es) = started es"

fun finished :: "'j q_event list \<Rightarrow> 'j list" where
  "finished [] = []"
| "finished (Finish j # es) = j # finished es"
| "finished (_ # es) = finished es"

section \<open>The order of the jobs\<close>

lemma fifo_exec_append: "fifo_exec n (es @ ds) f = Option.bind (fifo_exec n es f) (fifo_exec n ds)"
  by (induction es arbitrary: f) (simp_all split: bind_splits)

text \<open>Jobs start in the order in which they entered, and finish once they have started.\<close>

lemma fifo_exec_order:
  "fifo_exec n es f = Some g \<Longrightarrow>
     ff_waiting f @ entered es = started es @ ff_waiting g
     \<and> ff_running f + mset (started es) = mset (finished es) + ff_running g
     \<and> ff_finished g = ff_finished f + mset (finished es)"
proof (induction n es f rule: fifo_exec.induct)
  case (2 n e es f)
  then obtain h where h: "fifo_step n e f = Some h" "fifo_exec n es h = Some g"
    by (auto simp: bind_eq_Some_conv)
  note ih = 2(1) [OF h]
  show ?case
  proof (cases e)
    case (Start j)
    then show ?thesis using h(1) ih by (cases "ff_waiting f") (auto split: if_splits)
  qed (use h(1) ih in \<open>auto split: if_splits dest!: multi_member_split\<close>)
qed simp

lemma fifo_exec_bound: "fifo_exec n es f = Some g \<Longrightarrow> size (ff_running f) \<le> n \<Longrightarrow> size (ff_running g) \<le> n"
proof (induction n es f rule: fifo_exec.induct)
  case (2 n e es f)
  then obtain h where h: "fifo_step n e f = Some h" "fifo_exec n es h = Some g"
    by (auto simp: bind_eq_Some_conv)
  then have "size (ff_running h) \<le> n"
    using 2(3) by (cases e) (auto split: if_splits dest!: multi_member_split)
  then show ?case using 2(1) [OF h] by blast
qed simp

text \<open>A single worker finishes the jobs in the order in which it starts them.\<close>

lemma fifo_exec_single:
  "fifo_exec n es f = Some g \<Longrightarrow> n \<le> 1 \<Longrightarrow> ff_running f = mset r \<Longrightarrow> length r \<le> 1 \<Longrightarrow>
     \<exists>r'. ff_running g = mset r' \<and> r @ started es = finished es @ r'"
proof (induction n es f arbitrary: r rule: fifo_exec.induct)
  case (2 n e es f)
  then obtain h where h: "fifo_step n e f = Some h" "fifo_exec n es h = Some g"
    by (auto simp: bind_eq_Some_conv)
  note ih = 2(1) [OF h 2(3)]
  show ?case
  proof (cases e)
    case (Enter j)
    then show ?thesis using h(1) ih [of r] 2(4,5) by auto
  next
    case (Start j)
    then have "size (ff_running f) < n" using h(1) by (auto split: if_splits)
    then have "r = []" using 2(3,4) by (cases r) simp_all
    moreover from this have "ff_running h = mset [j]" using Start h(1) 2(4) by (auto split: if_splits)
    ultimately show ?thesis using ih [of "[j]"] Start by auto
  next
    case (Finish j)
    then have "j \<in> set r" using h(1) 2(4) by (auto split: if_splits)
    then have "r = [j]" using 2(5) by (cases r) auto
    moreover from this have "ff_running h = mset []" using Finish h(1) 2(4) by (auto split: if_splits)
    ultimately show ?thesis using ih [of "[]"] Finish by auto
  qed
qed simp

section \<open>Interface: a queue that refines the specification\<close>

locale fifo_queue = transition_system init step inv
  for init :: "'s \<Rightarrow> bool" and step inv +
  fixes spec :: "'s \<Rightarrow> 'j fifo"
    and workers :: nat
  assumes spec_init: "init s \<Longrightarrow> spec s = fifo_empty"
    and spec_step: "inv s \<Longrightarrow> step s t \<Longrightarrow> spec t = spec s \<or> (\<exists>e. fifo_step workers e (spec s) = Some (spec t))"
begin

lemma run_refines:
  assumes "init s" and "step\<^sup>*\<^sup>* s t"
  shows "\<exists>es. fifo_exec workers es fifo_empty = Some (spec t)"
  using assms(2)
proof (induction rule: rtranclp_induct)
  case base
  then show ?case using spec_init [OF assms(1)] by (intro exI [of _ "[]"]) simp
next
  case (step t u)
  then obtain es where es: "fifo_exec workers es fifo_empty = Some (spec t)" by blast
  from spec_step [OF reachable_inv [OF assms(1) step(1)] step(2)] show ?case
  proof
    assume "\<exists>e. fifo_step workers e (spec t) = Some (spec u)"
    then obtain e where "fifo_step workers e (spec t) = Some (spec u)" by blast
    then have "fifo_exec workers (es @ [e]) fifo_empty = Some (spec u)" by (simp add: fifo_exec_append es)
    then show ?thesis by blast
  qed (use es in auto)
qed

lemma run_in_order:
  assumes "init s" and "step\<^sup>*\<^sup>* s t"
  shows "\<exists>es. fifo_exec workers es fifo_empty = Some (spec t)
    \<and> entered es = started es @ ff_waiting (spec t)
    \<and> mset (started es) = mset (finished es) + ff_running (spec t)
    \<and> ff_finished (spec t) = mset (finished es)
    \<and> size (ff_running (spec t)) \<le> workers
    \<and> (workers \<le> 1 \<longrightarrow> prefix (finished es) (entered es))"
proof -
  obtain es where es: "fifo_exec workers es fifo_empty = Some (spec t)" using run_refines [OF assms] by blast
  have order: "entered es = started es @ ff_waiting (spec t)"
    "mset (started es) = mset (finished es) + ff_running (spec t)" "ff_finished (spec t) = mset (finished es)"
    using fifo_exec_order [OF es] by (simp_all add: fifo_empty_def)
  moreover have "prefix (finished es) (entered es)" if "workers \<le> 1"
    using fifo_exec_single [OF es that, of "[]"] order(1) by (auto simp: fifo_empty_def prefix_def)
  moreover have "size (ff_running (spec t)) \<le> workers"
    using fifo_exec_bound [OF es] by (simp add: fifo_empty_def)
  ultimately show ?thesis using es by blast
qed

end

section \<open>Workers at work\<close>

lemma size_jobs_le: "size (sum_workers worker_jobs s) \<le> length (p_workers s)"
proof -
  have one: "size (worker_jobs w) \<le> 1" for w :: "'a worker_pc" by (cases w) simp_all
  have "size (sum_list (map worker_jobs ws)) \<le> length ws" for ws :: "'a worker_pc list"
  proof (induction ws)
    case (Cons w ws)
    then show ?case using one [of w] by simp
  qed simp
  then show ?thesis by (simp add: sum_workers_def)
qed

text \<open>A worker in its \<open>select\<close> leaves room for one job more.\<close>

lemma free_worker:
  assumes "i < length (p_workers s)" and "p_workers s ! i = WSelect"
    and "p_workers t = (p_workers s)[i := WRunning j]"
  shows "sum_workers worker_jobs t = add_mset j (sum_workers worker_jobs s)"
    and "size (sum_workers worker_jobs s) < length (p_workers s)"
proof -
  show eq: "sum_workers worker_jobs t = add_mset j (sum_workers worker_jobs s)"
    using sum_workers_update [OF assms(1,3), of worker_jobs] assms(2) by simp
  show "size (sum_workers worker_jobs s) < length (p_workers s)"
    using size_jobs_le [of t] assms(3) unfolding eq by simp
qed

text \<open>A step of a worker finishes its job or changes nothing that the specification sees.\<close>

lemma worker_step_spec:
  assumes "worker_step i s t"
  shows "(\<exists>j \<in># sum_workers worker_jobs s. sum_workers worker_jobs t = sum_workers worker_jobs s - {#j#}
      \<and> p_executed t = add_mset j (p_executed s))
    \<or> sum_workers worker_jobs t = sum_workers worker_jobs s \<and> p_executed t = p_executed s"
  using assms
proof cases
  case (work_run j)
  then have "add_mset j (sum_workers worker_jobs t) = sum_workers worker_jobs s"
    using sum_workers_update [of i s t WReturning worker_jobs] by simp
  then have "j \<in># sum_workers worker_jobs s" "sum_workers worker_jobs t = sum_workers worker_jobs s - {#j#}"
    by (metis union_single_eq_member add_mset_add_single, metis add_mset_remove_trivial)
  then show ?thesis using work_run by auto
next
  case work_return
  then show ?thesis using sum_workers_update [of i s t WFinishing worker_jobs] by simp
next
  case work_done
  then show ?thesis using sum_workers_update [of i s t WSelect worker_jobs] by simp
qed (simp_all add: sum_workers_def)

end
