(* ===== verification/QueueOrder.thy ===== *)
theory QueueOrder
  imports Fifo ChanQueue ListQueue
begin

text \<open>
  Both queues refine the abstract one of \<open>Fifo\<close>. The line of the channel queue is the job the dispatcher
  holds and the buffer of the channel, that of the list queue the elements that are still to be
  delivered; a job has entered when its \<open>Push\<close> is past the channel or the list, and has started when a
  worker has received it.
\<close>

section \<open>The channel queue\<close>

fun disp_line :: "'j disp_pc \<Rightarrow> 'j list" where
  "disp_line (DPool j) = [j]"
| "disp_line (DSend j i) = [j]"
| "disp_line _ = []"

definition chan_fifo :: "'j chan_queue \<Rightarrow> 'j fifo" where
  "chan_fifo s =
     \<lparr>ff_waiting = disp_line (q_disp s) @ q_jobs s,
      ff_running = sum_workers worker_jobs s,
      ff_finished = p_executed s\<rparr>"

definition chan_sized :: "nat \<Rightarrow> 'j chan_queue \<Rightarrow> bool" where
  "chan_sized n s \<longleftrightarrow> length (p_workers s) = n"

lemma queue_step_length: "queue_step s t \<Longrightarrow> length (p_workers t) = length (p_workers s)"
  by (elim queue_stepE) (simp_all add: worker_step_counts)

lemma chan_sized_step:
  assumes "chan_step s t" and "chan_sized n s"
  shows "chan_sized n t"
proof -
  have "length (p_workers t) = length (p_workers s)"
    using assms(1) by cases (simp_all add: queue_step_length quit_step_counts)
  then show ?thesis using assms(2) by (simp add: chan_sized_def)
qed

lemma quit_step_executed: "quit_step i s t \<Longrightarrow> p_executed t = p_executed s"
  by (elim quit_stepE) simp_all

lemma queue_step_refines:
  assumes "queue_step s t" and "chan_sized n s"
  shows "chan_fifo t = chan_fifo s \<or> (\<exists>e. fifo_step n e (chan_fifo s) = Some (chan_fifo t))"
  using assms(1)
proof cases
  case (push_send j)
  then have "fifo_step n (Enter j) (chan_fifo s) = Some (chan_fifo t)"
    by (simp add: chan_fifo_def sum_workers_def)
  then show ?thesis by blast
next
  case (push_send_direct j)
  then have "fifo_step n (Enter j) (chan_fifo s) = Some (chan_fifo t)"
    by (simp add: chan_fifo_def sum_workers_def)
  then show ?thesis by blast
next
  case (disp_send j i)
  have "p_workers t = (p_workers s)[i := WRunning j]" using disp_send by simp
  note free = free_worker [OF disp_send(4,5) this]
  have "fifo_step n (Start j) (chan_fifo s) = Some (chan_fifo t)"
    using disp_send free assms(2) by (simp add: chan_fifo_def chan_sized_def)
  then show ?thesis by blast
next
  case (queue_worker i)
  obtain ws po wg pa ex where t:
    "t = s\<lparr>p_workers := ws, p_pool := po, p_wg := wg, p_panic := pa, p_executed := ex\<rparr>"
    by (rule worker_step_frame [OF queue_worker(2)])
  then have line: "q_disp t = q_disp s" "q_jobs t = q_jobs s" by simp_all
  from worker_step_spec [OF queue_worker(2)] show ?thesis
  proof
    assume "\<exists>j \<in># sum_workers worker_jobs s. sum_workers worker_jobs t = sum_workers worker_jobs s - {#j#}
      \<and> p_executed t = add_mset j (p_executed s)"
    then obtain j where "j \<in># sum_workers worker_jobs s"
      "sum_workers worker_jobs t = sum_workers worker_jobs s - {#j#}" "p_executed t = add_mset j (p_executed s)"
      by blast
    then have "fifo_step n (Finish j) (chan_fifo s) = Some (chan_fifo t)"
      using line by (simp add: chan_fifo_def)
    then show ?thesis by blast
  qed (use line in \<open>simp add: chan_fifo_def\<close>)
qed (simp_all add: chan_fifo_def sum_workers_def)

lemma chan_step_refines:
  assumes "chan_step s t" and "chan_sized n s"
  shows "chan_fifo t = chan_fifo s \<or> (\<exists>e. fifo_step n e (chan_fifo s) = Some (chan_fifo t))"
  using assms(1)
proof cases
  case queue
  then show ?thesis using queue_step_refines assms(2) by blast
next
  case (queue_quit i)
  obtain ws po where t: "t = s\<lparr>p_workers := ws, p_pool := po\<rparr>"
    by (rule quit_step_frame [OF queue_quit(2)])
  then have "chan_fifo t = chan_fifo s"
    using quit_step_counts [OF queue_quit(2)] by (simp add: chan_fifo_def)
  then show ?thesis ..
qed (simp_all add: chan_fifo_def sum_workers_def)

interpretation cf: fifo_queue "chan_init maxCapacity maxThread" chan_step "chan_sized (nat maxThread)"
    chan_fifo "nat maxThread"
  for maxCapacity maxThread
proof
  fix s :: "'a chan_queue"
  assume s: "chan_init maxCapacity maxThread s"
  then show "chan_sized (nat maxThread) s"
    by (auto simp: chan_init_def NewQueue_def Run_def chan_sized_def split: if_splits)
  show "chan_fifo s = fifo_empty"
    using s by (auto simp: chan_init_def NewQueue_def Run_def chan_fifo_def fifo_empty_def sum_workers_def
        split: if_splits intro!: sum_list_map_zero)
qed (use chan_sized_step chan_step_refines in blast)+

section \<open>The list queue\<close>

definition list_fifo :: "'j list_queue \<Rightarrow> 'j fifo" where
  "list_fifo s =
     \<lparr>ff_waiting = undelivered s, ff_running = sum_workers worker_jobs s, ff_finished = p_executed s\<rparr>"

definition list_sized :: "nat \<Rightarrow> 'j list_queue \<Rightarrow> bool" where
  "list_sized n s \<longleftrightarrow> list_inv s \<and> length (p_workers s) = n"

lemma list_sized_step:
  assumes "list_step s t" and "list_sized n s"
  shows "list_sized n t"
proof -
  have "length (p_workers t) = length (p_workers s)"
    using assms(1) by cases (simp_all add: worker_step_counts quit_step_counts)
  then show ?thesis using assms list_step_inv by (auto simp: list_sized_def)
qed

lemma list_step_refines:
  assumes "list_step s t" and "list_sized n s"
  shows "list_fifo t = list_fifo s \<or> (\<exists>e. fifo_step n e (list_fifo s) = Some (list_fifo t))"
proof -
  have front: "front_ok (l_disp s) (l_list s)" and n: "length (p_workers s) = n"
    using assms(2) by (simp_all add: list_sized_def list_inv_def)
  show ?thesis
    using assms(1)
  proof cases
    case (list_pushback j)
    then have "fifo_step n (Enter j) (list_fifo s) = Some (list_fifo t)"
      using front by (cases "l_list s"; cases "l_disp s") (simp_all add: list_fifo_def undelivered_def sum_workers_def)
    then show ?thesis by blast
  next
    case (list_send j i)
    have "p_workers t = (p_workers s)[i := WRunning j]" using list_send by simp
    note free = free_worker [OF list_send(4,5) this]
    have "fifo_step n (Start j) (list_fifo s) = Some (list_fifo t)"
      using list_send free front n by (simp add: list_fifo_def undelivered_def)
    then show ?thesis by blast
  next
    case (list_worker i)
    obtain ws po wg pa ex where t:
      "t = s\<lparr>p_workers := ws, p_pool := po, p_wg := wg, p_panic := pa, p_executed := ex\<rparr>"
      by (rule worker_step_frame [OF list_worker(2)])
    then have line: "undelivered t = undelivered s" by (simp add: undelivered_def)
    from worker_step_spec [OF list_worker(2)] show ?thesis
    proof
      assume "\<exists>j \<in># sum_workers worker_jobs s. sum_workers worker_jobs t = sum_workers worker_jobs s - {#j#}
        \<and> p_executed t = add_mset j (p_executed s)"
      then obtain j where "j \<in># sum_workers worker_jobs s"
        "sum_workers worker_jobs t = sum_workers worker_jobs s - {#j#}" "p_executed t = add_mset j (p_executed s)"
        by blast
      then have "fifo_step n (Finish j) (list_fifo s) = Some (list_fifo t)"
        using line by (simp add: list_fifo_def)
      then show ?thesis by blast
    qed (use line in \<open>simp add: list_fifo_def\<close>)
  next
    case (list_quit i)
    obtain ws po where t: "t = s\<lparr>p_workers := ws, p_pool := po\<rparr>"
      by (rule quit_step_frame [OF list_quit(2)])
    then have "list_fifo t = list_fifo s"
      using quit_step_counts [OF list_quit(2)] by (simp add: list_fifo_def undelivered_def)
    then show ?thesis ..
  qed (simp_all add: list_fifo_def undelivered_def sum_workers_def)
qed

interpretation lf: fifo_queue "list_init maxThread maxLen" list_step "list_sized (nat maxThread)"
    list_fifo "nat maxThread"
  for maxThread maxLen
proof
  fix s :: "'a list_queue"
  assume s: "list_init maxThread maxLen s"
  then have fields: "length (p_workers s) = nat maxThread" "l_list s = []" "p_executed s = {#}"
    "sum_workers worker_jobs s = {#}"
    by (auto simp: list_init_def NewListQueueWithMaxLen_def list_Run_def sum_workers_def
        split: if_splits intro!: sum_list_map_zero)
  then show "list_sized (nat maxThread) s" using list_init_inv [OF s] by (simp add: list_sized_def)
  show "list_fifo s = fifo_empty" using fields by (simp add: list_fifo_def fifo_empty_def undelivered_def)
qed (use list_sized_step list_step_refines in blast)+

section \<open>Properties\<close>

text \<open>
  C10. The channel queue refines the abstract queue: every step of it, whichever goroutine takes it, is
  one event of the abstract queue with as many workers or leaves it as it is. So its jobs start in the
  order in which they entered the channel, at most as many run at a time as there are workers, and with
  a single worker they also finish in that order.
\<close>

theorem chan_queue_refines_fifo:
  assumes "chan_init maxCapacity maxThread s" and "chan_step\<^sup>*\<^sup>* s t"
  shows "(\<forall>u. chan_step t u \<longrightarrow>
      chan_fifo u = chan_fifo t \<or> (\<exists>e. fifo_step (nat maxThread) e (chan_fifo t) = Some (chan_fifo u)))
    \<and> (\<exists>es. fifo_exec (nat maxThread) es fifo_empty = Some (chan_fifo t)
        \<and> entered es = started es @ ff_waiting (chan_fifo t)
        \<and> mset (started es) = mset (finished es) + ff_running (chan_fifo t)
        \<and> p_executed t = mset (finished es)
        \<and> size (ff_running (chan_fifo t)) \<le> nat maxThread
        \<and> (maxThread \<le> 1 \<longrightarrow> prefix (finished es) (entered es)))"
proof -
  have "p_executed t = ff_finished (chan_fifo t)" by (simp add: chan_fifo_def)
  then show ?thesis
    using cf.spec_step [OF cf.reachable_inv [OF assms]] cf.run_in_order [OF assms] by auto
qed

theorem chan_queue_refines_fifo_witness:
  "\<exists>t es. chan_step\<^sup>*\<^sup>* wit_queue t \<and> ff_waiting (chan_fifo t) = [7]
     \<and> fifo_exec 1 es fifo_empty = Some (chan_fifo t) \<and> entered es = started es @ [7]
     \<and> prefix (finished es) (entered es)"
proof -
  let ?t = "wit_queue\<lparr>q_sending := {#7#}, p_wg := 1, q_accepted := {#7#}\<rparr>"
  let ?u = "?t\<lparr>q_sending := {#}, q_disp := DPool 7\<rparr>"
  note f = chan_init_fields [OF wit_queue_init]
  have "chan_step ?t ?u" using push_send_direct [of ?t 7] f by (intro queue) simp
  then have run: "chan_step\<^sup>*\<^sup>* wit_queue ?u"
    using run_push(2) [OF wit_queue_init, of 7] by (rule rtranclp.rtrancl_into_rtrancl [rotated])
  have line: "ff_waiting (chan_fifo ?u) = [7]"
    by (simp add: chan_fifo_def wit_queue_def NewQueue_def Run_def)
  from chan_queue_refines_fifo [OF wit_queue_init run] obtain es where
    "fifo_exec 1 es fifo_empty = Some (chan_fifo ?u)" "entered es = started es @ [7]"
    "prefix (finished es) (entered es)"
    unfolding line by auto
  then show ?thesis using run line by blast
qed

text \<open>
  C26. The list queue refines the same abstract queue, its jobs entering with \<open>PushBack\<close>: although an
  element stays in the list until the dispatcher removes it, no job is started twice or out of order.
\<close>

theorem list_queue_refines_fifo:
  assumes "list_init maxThread maxLen s" and "list_step\<^sup>*\<^sup>* s t"
  shows "(\<forall>u. list_step t u \<longrightarrow>
      list_fifo u = list_fifo t \<or> (\<exists>e. fifo_step (nat maxThread) e (list_fifo t) = Some (list_fifo u)))
    \<and> (\<exists>es. fifo_exec (nat maxThread) es fifo_empty = Some (list_fifo t)
        \<and> entered es = started es @ ff_waiting (list_fifo t)
        \<and> mset (started es) = mset (finished es) + ff_running (list_fifo t)
        \<and> p_executed t = mset (finished es)
        \<and> size (ff_running (list_fifo t)) \<le> nat maxThread
        \<and> (maxThread \<le> 1 \<longrightarrow> prefix (finished es) (entered es)))"
proof -
  have "p_executed t = ff_finished (list_fifo t)" by (simp add: list_fifo_def)
  then show ?thesis
    using lf.spec_step [OF lf.reachable_inv [OF assms]] lf.run_in_order [OF assms] by auto
qed

theorem list_queue_refines_fifo_witness:
  "\<exists>t es. list_step\<^sup>*\<^sup>* (started_list 1 0) t \<and> ff_waiting (list_fifo t) = [7 :: nat]
     \<and> fifo_exec 1 es fifo_empty = Some (list_fifo t) \<and> entered es = started es @ [7]
     \<and> prefix (finished es) (entered es)"
proof -
  let ?s = "started_list 1 0 :: nat list_queue"
  let ?t = "?s\<lparr>l_list := [7], p_wg := 1, l_accepted := {#7#}\<rparr>"
  have init: "list_init 1 0 ?s" by (simp add: list_init_started)
  have run: "list_step\<^sup>*\<^sup>* ?s ?t"
    using run_list_push [of ?s 7] by (simp add: started_list_def list_full_def)
  have line: "ff_waiting (list_fifo ?t) = [7]"
    by (simp add: list_fifo_def undelivered_def started_list_def)
  from list_queue_refines_fifo [OF init run] obtain es where
    "fifo_exec 1 es fifo_empty = Some (list_fifo ?t)" "entered es = started es @ [7]"
    "prefix (finished es) (entered es)"
    unfolding line by auto
  then show ?thesis using run line by blast
qed

end
