(* ===== verification/Delivery.thy ===== *)
theory Delivery
  imports RouterMain
begin

text \<open>
  The parts of the event router put together, from the informer to the wire: the router that \<open>main\<close>
  starts, what its run pushes, and the queue that \<open>main\<close> starts beside it. The cluster is one that answers:
  the objects of the events are found, or found absent, and the registrations are listed.
\<close>

section \<open>The jobs of a run\<close>

lemma handle_all_jobs:
  assumes "\<And>e w. e \<in> set es \<Longrightarrow> mset (fst (h e w)) = mset (js e)"
  shows "mset (fst (handle_all h es w)) = mset (concat (map js es))"
  using assms by (induction es arbitrary: w) (simp_all add: Let_def split_beta)

lemma map_filter_concat: "List.map_filter f (concat xss) = concat (map (List.map_filter f) xss)"
  by (induction xss) (simp_all add: List.map_filter_def)

text \<open>The events a run forwards, and a cluster that answers what is asked for them.\<close>

definition forwarded :: "int \<Rightarrow> (timestamp \<times> 'x delivery) list \<Rightarrow> 'x event list" where
  "forwarded period ds = concat (map (pending period) ds)"

definition cluster_answers ::
  "('w, 'e, 'r, 'o) cluster \<Rightarrow> (object_reference \<Rightarrow> 'o option) \<Rightarrow> 'o list \<Rightarrow> 'x event list \<Rightarrow> bool" where
  "cluster_answers k obj items es \<longleftrightarrow>
     (\<forall>e \<in> set es. \<forall>w. fst (ResolveReference k (ev_InvolvedObject e) w) = Inr (obj (ev_InvolvedObject e)))
     \<and> (\<forall>w. fst (resolver_List k registration_gvk [] w) = Inr (Some items))
     \<and> distinct (map (k_Name k) items)"

definition jobs_of ::
  "('w, 'e, 'r, 'o) cluster \<Rightarrow> ('o \<Rightarrow> string list \<Rightarrow> 'e + string) \<Rightarrow> (object_reference \<Rightarrow> 'o option) \<Rightarrow> 'o list
     \<Rightarrow> 'x event \<Rightarrow> 'x advisor list" where
  "jobs_of k nested obj items e =
     map (\<lambda>spec. \<lparr>adv_reg = spec, adv_evt = labelled k (obj (ev_InvolvedObject e)) e\<rparr>)
       (List.map_filter (readable_spec nested) items)"

lemma Handle_jobs_of:
  assumes "on_error_ok onError" and "\<And>all. mset (order all) = mset all"
    and "cluster_answers k obj items es" and "e \<in> set es"
  shows "mset (fst (Handle onError k nested order e w)) = mset (jobs_of k nested obj items e)"
proof -
  obtain w1 where r: "ResolveReference k (ev_InvolvedObject e) w = (Inr (obj (ev_InvolvedObject e)), w1)"
    using assms(3,4) unfolding cluster_answers_def by (metis prod.collapse)
  obtain w2 where "resolver_List k registration_gvk [] w1 = (Inr (Some items), w2)"
    using assms(3) unfolding cluster_answers_def by (metis prod.collapse)
  moreover have "distinct (map (k_Name k) items)" using assms(3) by (simp add: cluster_answers_def)
  ultimately show ?thesis unfolding jobs_of_def by (rule Handle_jobs [OF assms(1,2) r])
qed

lemma run_jobs:
  assumes "on_error_ok onError" and "\<And>all. mset (order all) = mset all"
    and "cluster_answers k obj items (forwarded (er_throttlePeriod er) ds)"
    and "router_Run (\<lambda>h. Handle onError k nested order) er verbose ds w = Some (jobs, w')"
  shows "mset jobs = mset (concat (map (jobs_of k nested obj items) (forwarded (er_throttlePeriod er) ds)))"
proof -
  have "jobs = fst (handle_all (Handle onError k nested order) (forwarded (er_throttlePeriod er) ds) w)"
    using assms(4) by (simp add: router_Run_handles forwarded_def split: if_splits)
  then show ?thesis using handle_all_jobs [OF Handle_jobs_of [OF assms(1-3)]] by simp
qed

text \<open>The requests that are made for an event, one for each registration that can be read.\<close>

definition requests_of ::
  "('x event \<Rightarrow> 'e + string) \<Rightarrow> (string \<Rightarrow> string \<Rightarrow> 'e + 'req) \<Rightarrow> ('req \<Rightarrow> string \<times> string \<Rightarrow> 'req)
     \<Rightarrow> RegistrationSpec list \<Rightarrow> 'x event \<Rightarrow> 'req list" where
  "requests_of marshal new_request set_header specs evt =
     List.map_filter (\<lambda>spec. notification marshal new_request set_header \<lparr>adv_reg = spec, adv_evt = evt\<rparr>) specs"

lemma notifications_of_jobs:
  "List.map_filter (notification marshal new_request set_header) (concat (map (jobs_of k nested obj items) es))
   = concat (map (\<lambda>e. requests_of marshal new_request set_header (List.map_filter (readable_spec nested) items)
        (labelled k (obj (ev_InvolvedObject e)) e)) es)"
  by (simp add: map_filter_concat jobs_of_def requests_of_def map_filter_map comp_def)

section \<open>From the informer to the wire\<close>

text \<open>
  C3. The event router as a whole, with a cluster that answers and at least one worker thread. Once the queue that
  \<open>main\<close> started has accepted the jobs its router pushed for what the informer delivered, its goroutines come to
  rest, without a call of \<open>Terminate\<close> or while it waits; and in whatever order they ran the jobs, the
  requests made are those for every event that was added or updated without a composition id and, with a
  throttle period, not too old: its JSON with the composition of its object, once to each registration that can be
  read. A request may fail; nothing is sent twice.
\<close>

theorem delivered_events_are_posted:
  fixes q :: "'x advisor chan_queue"
  assumes main: "router_main ku v4 flags env = Started q er" "s = flags (default_settings env)"
    and threads: "0 < set_queueWorkerThreads s"
    and retry: "on_error_ok onError" and order: "\<And>all. mset (order all) = mset all"
    and answers: "cluster_answers k obj items (forwarded (set_throttlePeriod s) ds)"
    and run: "router_Run (\<lambda>h. Handle onError k nested order) er verbose ds w = Some (jobs, w')"
    and queue: "chan_step\<^sup>*\<^sup>* q t" "q_accepted t = mset jobs" "p_terminate t \<in> {TIdle, TWaiting}"
    and sent: "\<And>req v. sent (snd (send req v)) = sent v @ [req]"
  shows "(\<exists>u. queue_step\<^sup>*\<^sup>* t u \<and> (\<nexists>u'. queue_step u u'))
    \<and> (\<forall>u jobs' v. queue_step\<^sup>*\<^sup>* t u \<and> (\<nexists>u'. queue_step u u') \<and> mset jobs' = p_executed u \<longrightarrow>
        mset (sent (fold (advisor_Job marshal new_request set_header send) jobs' v))
        = mset (sent v)
          + mset (concat (map (\<lambda>e. requests_of marshal new_request set_header
              (List.map_filter (readable_spec nested) items) (labelled k (obj (ev_InvolvedObject e)) e))
              (forwarded (set_throttlePeriod s) ds))))"
proof -
  have period: "er_throttlePeriod er = set_throttlePeriod s" using router_main_Started(2) [OF main(1)] main(2) by simp
  note init = router_main_queue [OF main(1), folded main(2)]
  have jobs: "mset jobs = mset (concat (map (jobs_of k nested obj items) (forwarded (set_throttlePeriod s) ds)))"
    using run_jobs [OF retry order _ run, of obj items] answers unfolding period by blast
  have "mset jobs' = mset (concat (map (jobs_of k nested obj items) (forwarded (set_throttlePeriod s) ds)))"
    if "queue_step\<^sup>*\<^sup>* t u" "\<nexists>u'. queue_step u u'" "mset jobs' = p_executed u" for u jobs'
    using queue_at_rest [OF init queue(1) threads queue(3) that(1,2)] that(3) queue(2) jobs by simp
  note same = mset_map_filter [OF this, of _ _ "notification marshal new_request set_header", unfolded notifications_of_jobs]
  show ?thesis
    unfolding advisor_Jobs_sent [where sent = sent, OF sent] mset_append add_left_cancel
    using queue_comes_to_rest [of t] same by blast
qed

text \<open>
  At a concrete input: a pod's event is added, the second of the two registrations cannot be read, and
  the transport refuses every request.
\<close>

theorem delivered_events_are_posted_witness:
  "\<exists>(q :: unit advisor chan_queue) er job t u.
     router_main wit_kube False (\<lambda>s. s) Map.empty
       = (Started q er :: (unit advisor chan_queue, (unit, (unit, unit, unit, unit, unit advisor chan_queue) pusher) EventRouter) startup)
     \<and> router_Run (\<lambda>h. Handle (retry_times 4) wit_cluster wit_nested rev) er False [(time_zero, Added (EventObject wit_evt))] 0
         = Some ([job], 0)
     \<and> chan_step\<^sup>*\<^sup>* q t \<and> q_accepted t = {#job#} \<and> queue_step\<^sup>*\<^sup>* t u \<and> (\<nexists>u'. queue_step u u')
     \<and> (\<forall>jobs. mset jobs = p_executed u \<longrightarrow>
         mset (fold (advisor_Job (\<lambda>e. Inr (ev_UID e)) (\<lambda>url dat. Inr (url, dat, [])) (\<lambda>(url, dat, hs) h. (url, dat, h # hs))
             (\<lambda>req v. (Inl ''refused'' :: string + unit, v @ [req]))) jobs [])
         = {#(''http://one'', ''uid'', [(''Content-Type'', ''application/json'')])#})"
proof -
  let ?ds = "[(time_zero, Added (EventObject wit_evt))]"
  obtain q :: "unit advisor chan_queue" and er :: "(unit, (unit, unit, unit, unit, unit advisor chan_queue) pusher) EventRouter"
    where m: "router_main wit_kube False (\<lambda>s. s) Map.empty = Started q er"
    by (simp add: router_main_def default_settings_def env_Int_def NewQueue_def Run_def NewPusher_def
        NewObjectResolver_def Let_def rest_config_def wit_kube_def)
  have set: "set_queueWorkerThreads (default_settings Map.empty) = 50" "set_throttlePeriod (default_settings Map.empty) = 0"
    by (simp_all add: default_settings_def env_Int_def env_Duration_def)
  have fwd: "forwarded 0 ?ds = [wit_evt]"
    using not_hasCompositionId_wit by (simp add: forwarded_def fresh_def hasCompositionId_iff)
  have specs: "List.map_filter (readable_spec wit_nested) [''one'', ''two'']
      = [\<lparr>reg_ServiceName = ''http://one'', reg_Endpoint = ''http://one''\<rparr>]"
    by (simp add: List.map_filter_simps readable_spec_def wit_nested_def)
  have answers: "cluster_answers wit_cluster (\<lambda>ref. None) [''one'', ''two''] [wit_evt]"
    by (simp add: cluster_answers_def ResolveReference_def resolver_List_def getResourceInterfaceForGVR_def
        wit_cluster_def registration_gvk_def isNoKindMatchError_def wit_evt_def)
  obtain job where h: "Handle (retry_times 4) wit_cluster wit_nested rev wit_evt 0 = ([job], 0)"
    using findCompositionID_first [OF retry_times_ok wit_cluster_facts(1)] wit_cluster_facts(4)
    by (simp add: Handle_def notifyAll_def)
  have run: "router_Run (\<lambda>h. Handle (retry_times 4) wit_cluster wit_nested rev) er False ?ds 0 = Some ([job], 0)"
    using router_main_Started(2) [OF m] fwd h by (simp add: router_Run_handles set forwarded_def)
  note init = router_main_queue [OF m, unfolded set]
  let ?t = "q\<lparr>q_sending := {#job#}, p_wg := 1, q_accepted := {#job#}\<rparr>"
  have t: "chan_step\<^sup>*\<^sup>* q ?t" by (rule run_push(2) [OF init])
  have idle: "p_terminate ?t \<in> {TIdle, TWaiting}" using chan_init_fields(5) [OF init] by simp
  have req: "requests_of (\<lambda>e. Inr (ev_UID e)) (\<lambda>url dat. Inr (url, dat, [])) (\<lambda>(url, dat, hs) h. (url, dat, h # hs))
      [\<lparr>reg_ServiceName = ''http://one'', reg_Endpoint = ''http://one''\<rparr>] (labelled wit_cluster None wit_evt)
    = [(''http://one'', ''uid'', [(''Content-Type'', ''application/json'')])]"
    by (simp add: requests_of_def notification_def List.map_filter_simps labelled_def wit_evt_def)
  note all = delivered_events_are_posted [OF m refl _ retry_times_ok _ _ run t _ idle, unfolded set fwd, OF _ _ answers,
      where sent = "\<lambda>v. v" and marshal = "\<lambda>e. Inr (ev_UID e)" and new_request = "\<lambda>url dat. Inr (url, dat, [])"
        and set_header = "\<lambda>(url, dat, hs) h. (url, dat, h # hs)"
        and send = "\<lambda>req v. (Inl ''refused'' :: string + unit, v @ [req])", unfolded specs]
  from all obtain u where "queue_step\<^sup>*\<^sup>* ?t u" "\<nexists>u'. queue_step u u'"
    and "\<forall>jobs v. mset jobs = p_executed u \<longrightarrow>
         mset (fold (advisor_Job (\<lambda>e. Inr (ev_UID e)) (\<lambda>url dat. Inr (url, dat, [])) (\<lambda>(url, dat, hs) h. (url, dat, h # hs))
             (\<lambda>req v. (Inl ''refused'' :: string + unit, v @ [req]))) jobs v)
         = mset v + {#(''http://one'', ''uid'', [(''Content-Type'', ''application/json'')])#}"
    by (auto simp: req)
  then show ?thesis using m run t by (intro exI [of _ q] exI [of _ er] exI [of _ job] exI [of _ ?t] exI [of _ u]) simp
qed

end
