(* ===== verification/Streaming.thy ===== *)
theory Streaming
  imports Service
begin

text \<open>
  From the reception to the stream: an event that was posted to the event server, as its clients see it on
  \<open>/notifications\<close>. That etcd's watch delivers the write is not the server's doing, and stands in the
  statement as what the handler receives.
\<close>

lemma sub_answer:
  assumes "sub_ServeHTTP ulow quote msg st (Inr ev) second req new_response w = Some (rw, w1)"
    and "rw_Status rw = Some 200"
  shows "rw_Body rw = st_PrepareKey st (ev_UID ev) (CompositionID ev)"
proof -
  obtain r where r: "JSONBody ulow quote (rq_Header req) (Inr ev) second = Some r"
    using assms(1) by (auto simp: sub_ServeHTTP_def split: option.splits)
  show ?thesis
  proof (cases r)
    case (Inl err)
    then show ?thesis using assms r by (auto simp: sub_ServeHTTP_def http_defs new_response_def split: if_splits)
  next
    case (Inr nfo)
    have "nfo = ev"
      using r Inr by (auto simp: JSONBody_def Let_def split: if_splits option.splits prod.splits)
    then show ?thesis
      using assms r Inr
      by (auto simp: sub_ServeHTTP_def http_defs new_response_def body_allowed_def split: option.splits prod.splits)
  qed
qed

lemma frame_in_stream:
  assumes "rq_Method req \<noteq> ''OPTIONS''" and "list_all (stream_ok dec) (watch_events inputs)"
    and "(key, js @ newline) \<in> set (watch_events inputs)" and "dec (js @ newline) = Inr ev"
  shows "\<lparr>fr_event = (if CompositionID ev = [] then ''krateo'' else CompositionID ev), fr_id = key, fr_data = [js]\<rparr>
     \<in> set (tl (sse_parse (rw_Body (SSE_ServeHTTP dec True req inputs new_response))))"
  using SSE_frames [OF assms(1,2)] assms(3,4) by (force simp: frame_of_def newline_def)

text \<open>
  C6. From the post to the stream: when an event that is posted to \<open>/handle\<close> is answered 200, the answer names the key
  under which the cluster now holds its JSON. When the watch hands that write to an open stream, the client of the
  stream reads a frame named after the event's composition (or \<open>krateo\<close>), whose id is that key and whose
  data is that JSON, among whatever else is delivered, as long as no key or label has a line break.
\<close>

theorem posted_event_is_streamed:
  assumes etcd: "etcd_contract cli view" and json: "json_ok enc dec ev"
    and st: "sv_store sv = client_store ulow enc dec cli cl" and dec: "cd_event cd = dec"
    and post: "rq_Method reqP = ''POST''" "wi_first wi = Inr ev"
      "sse_mux cd sv wi swagger [''handle''] reqP new_response w = Some (rwP, w1)" "rw_Status rwP = Some 200"
    and stream: "rq_Method reqS = ''GET''" "list_all (stream_ok dec) (watch_events (wi_watch wi'))"
      "sse_mux cd sv wi' swagger [''notifications''] reqS new_response v = Some (rwS, v')"
  shows "\<exists>js. enc ev = Inr js \<and> kv_lookup (view w1) (rw_Body rwP) = Some (js @ newline)
    \<and> ((rw_Body rwP, js @ newline) \<in> set (watch_events (wi_watch wi')) \<longrightarrow>
        \<lparr>fr_event = (if CompositionID ev = [] then ''krateo'' else CompositionID ev), fr_id = rw_Body rwP, fr_data = [js]\<rparr>
          \<in> set (tl (sse_parse (rw_Body rwS))))"
proof -
  let ?st = "client_store ulow enc dec cli cl" and ?k = "PrepareKey ulow (ev_UID ev) (CompositionID ev)"
  obtain second where sub: "sub_ServeHTTP (cd_lower cd) (cd_quote cd) (cd_msg cd) ?st (Inr ev) second
      (reqP\<lparr>rq_PathValue := \<lambda>k. []\<rparr>) new_response w = Some (rwP, w1)"
    using post by (auto simp: sse_mux_def sse_endpoint_def st)
  have key: "rw_Body rwP = ?k" using sub_answer [OF sub post(4)] by (simp add: client_store_def)
  have "client_Set enc cli cl w ?k ev = (None, w1)"
    using sub_stored [OF sub post(4)] by (simp add: client_store_def)
  then obtain js where js: "enc ev = Inr js" and look: "kv_lookup (view w1) ?k = Some (js @ newline)"
    by (rule client_Set_view [OF etcd]) simp
  have d: "dec (js @ newline) = Inr ev" using json js by (simp add: json_ok_def)
  have "rwS = SSE_ServeHTTP dec True (reqS\<lparr>rq_PathValue := \<lambda>k. []\<rparr>) (wi_watch wi') new_response"
    using stream(1,3) by (simp add: sse_mux_def sse_endpoint_def dec routes_def method_matches_def)
  then show ?thesis
    using frame_in_stream [OF _ stream(2) _ d, of "reqS\<lparr>rq_PathValue := \<lambda>k. []\<rparr>"] stream(1) js look
    unfolding key by auto
qed

text \<open>At a concrete input: the event \<open>7\<close> of the composition \<open>c\<close>, between the deletion of another key and the end of the watch.\<close>

theorem posted_event_is_streamed_witness:
  "\<exists>rwP rwS v'. sse_mux (wit_codecs\<lparr>cd_event := wit_comp_dec\<rparr>) wit_comp_service (wit_wire (wit_comp ''7''))
       (\<lambda>path req rw w. None) [''handle''] wit_post new_response [] = Some (rwP, wit_stored)
     \<and> sse_mux (wit_codecs\<lparr>cd_event := wit_comp_dec\<rparr>) wit_comp_service
         ((wit_wire (wit_comp ''7''))\<lparr>wi_watch := [WatchResp [(''k'', []), (rw_Body rwP, ''7'' @ newline)], WatchClosed]\<rparr>)
         (\<lambda>path req rw w. None) [''notifications''] (wit_request [] []) new_response [] = Some (rwS, v')
     \<and> \<lparr>fr_event = ''c'', fr_id = rw_Body rwP, fr_data = [''7'']\<rparr> \<in> set (tl (sse_parse (rw_Body rwS)))"
proof -
  let ?cd = "wit_codecs\<lparr>cd_event := wit_comp_dec\<rparr>" and ?none = "\<lambda>path req rw w. None"
  obtain rwP where post: "sse_mux ?cd wit_comp_service (wit_wire (wit_comp ''7'')) ?none [''handle''] wit_post new_response []
      = Some (rwP, wit_stored)" and ok: "rw_Status rwP = Some 200"
    using wit_comp_post by (auto simp: sse_mux_def sse_endpoint_def wit_post_def)
  let ?wi = "(wit_wire (wit_comp ''7''))\<lparr>wi_watch := [WatchResp [(''k'', []), (rw_Body rwP, ''7'' @ newline)], WatchClosed]\<rparr>"
  obtain rwS v' where stream: "sse_mux ?cd wit_comp_service ?wi ?none [''notifications''] (wit_request [] []) new_response []
      = Some (rwS, v')"
    by (simp add: sse_mux_def sse_endpoint_def wit_request_def routes_def method_matches_def)
  have st: "sv_store wit_comp_service = client_store id wit_enc wit_comp_dec tidy_etcd \<lparr>c_timeOut = 0, c_ttl = 180\<rparr>"
    by (simp add: wit_comp_service_def)
  have key: "rw_Body rwP = ''krateo.io.events/comp-c/7''"
    using post ok sub_answer [of "cd_lower ?cd" "cd_quote ?cd" "cd_msg ?cd" "sv_store wit_comp_service" "wit_comp ''7''"]
    by (auto simp: sse_mux_def sse_endpoint_def wit_post_def wit_wire_def st client_store_def wit_comp_keys)
  have lines: "list_all (stream_ok wit_comp_dec) (watch_events (wi_watch ?wi))"
    by (simp add: key stream_ok_def wit_comp_dec_def newline_def one_line_def)
  have "\<exists>js. wit_enc (wit_comp ''7'') = Inr js \<and> kv_lookup (tidy wit_stored) (rw_Body rwP) = Some (js @ newline)
      \<and> ((rw_Body rwP, js @ newline) \<in> set (watch_events (wi_watch ?wi)) \<longrightarrow>
        \<lparr>fr_event = ''c'', fr_id = rw_Body rwP, fr_data = [js]\<rparr> \<in> set (tl (sse_parse (rw_Body rwS))))"
    using posted_event_is_streamed [OF tidy_contract wit_comp_json [of "''7''"] st _ _ _ post ok _ lines stream]
    by (simp add: wit_post_def wit_wire_def wit_request_def)
  then have "\<lparr>fr_event = ''c'', fr_id = rw_Body rwP, fr_data = [''7'']\<rparr> \<in> set (tl (sse_parse (rw_Body rwS)))"
    by (auto simp: wit_enc_def wit_comp_def wit_event_def)
  then show ?thesis using post stream by blast
qed

end
