(* ===== verification/Spec2Isabelle.thy ===== *)
theory Spec2Isabelle
  imports Prelude Float64 Etcd Cleanup Watcher Http Queues Handlers Router Uuid Env HttpClient RouterMain Service Lifecycle Shutdown
    EventTypes Deepcopy QueueOrder Delivery Streaming
begin

text \<open>
  A model of eventstack, the event services of the Krateo platform, and the theorems that make it
  correct.

  \<^bold>\<open>The program.\<close> Three servers share a cluster. The \<^emph>\<open>event router\<close> (\<open>src/eventrouter\<close>) watches the
  Kubernetes events, labels each one with the composition its object belongs to, and posts it to
  every registered endpoint through a queue of jobs. The \<^emph>\<open>event server\<close> (\<open>src/eventsse\<close>) is such an
  endpoint: it stores what is posted in etcd, with a lease, lists it, and streams it to its clients.
  The \<^emph>\<open>sweeper\<close> (\<open>src/sweeper\<close>) watches the size of the etcd database and deletes old keys when it
  nears its quota. The two servers that use etcd meet in the keys: what the event server writes
  decides what the sweeper deletes first (\<open>sweep_order_of_stored_events\<close>), and the router and the event
  server meet in the posted event (\<open>routed_event_is_listed\<close>); these two theorems are in this theory. Each of these
  two servers is also followed from end to end: \<open>Delivery\<close> from the informer to the posts, \<open>Streaming\<close> from
  the post to the stream.

  \<^bold>\<open>Conventions.\<close> Strings are Go's byte strings. An error is the left side of a sum, or \<open>Some\<close> when
  a function returns only an error; a panic is an outer \<open>None\<close> or a state of its own. Integers of a
  fixed width are words, or \<open>int\<close> with the range written out where Go's \<open>int\<close> is used; \<open>float64\<close> is
  written out in \<open>Float64\<close>. A goroutine is a program counter, and what runs at the same time is one
  step relation whose rules are the single accesses to shared state, so that every interleaving is a
  run. Code of other repositories (etcd, Kubernetes, the JSON of events, logging, the environment
  of the sweeper) is an argument of the functions that call it, and what is required of it is a named
  hypothesis (\<open>etcd_contract\<close>, \<open>json_ok\<close>, \<open>sort_slice_ok\<close>, \<open>deep_copier\<close> and the like), with a concrete
  instance in a witness. Log lines are left out.

  \<^bold>\<open>Shared theories.\<close>
  \<^item> \<open>Prelude\<close>: the functions of \<open>strings\<close> and \<open>strconv\<close> the program calls, sorting of slices, generic
    lemmas, reads, writes and slices with Go's bounds checks, and the interfaces \<open>transition_system\<close>, \<open>codec\<close> and \<open>canonical_codec\<close>.
  \<^item> \<open>Float64\<close>: binary64 with round to nearest even, and when its results are exact.
  \<^item> \<open>Etcd\<close>: the interface of the etcd client; \<open>Http\<close>: the response writer and the three health handlers.
  \<^item> \<open>Calendar\<close>: dates of instants, and the layout RFC 3339 for printing and parsing; the days of the
    calendar and its dates are inverse to each other.

  \<^bold>\<open>The sweeper.\<close>
  \<^item> \<open>Cleanup\<close>: \<open>internal/cleanup/manager.go\<close>. Which keys are candidates and in which order, how much is
    to be freed, the deletion in batches, compaction and defragmentation. A cleanup removes a prefix of
    the candidates in their order, at most a batch beyond the target; the deletion loop, a partial function, is defined on
    every input of a manager that the constructor builds.
  \<^item> \<open>Watcher\<close>: \<open>internal/util/etcd/monitor.go\<close> and \<open>client.go\<close>, and the callback of \<open>main\<close>. The watcher, its
    callback and the cleanups it starts as a step relation; which exclusion holds with one endpoint, and
    what fails with two or when the second \<open>Suspend\<close> comes late; the threshold test in \<open>float64\<close>.
  \<^item> \<open>Lifecycle\<close>: \<open>main.go\<close>. The start from the settings, the mux of the probes, and the process with its goroutines up to its
    exit, for which \<open>exit_bound\<close> counts the steps that are left: 11, and those of the watcher's current round.

  \<^bold>\<open>The event server.\<close>
  \<^item> \<open>Event\<close>: events and \<open>internal/labels\<close>. \<open>Keys\<close>: the layout of the keys, with \<open>path.Clean\<close>. \<open>Store\<close>:
    \<open>internal/store\<close> with leases and ranges, as an instance of the contract \<open>event_store\<close>.
  \<^item> \<open>Header\<close>: \<open>internal/httputil/header\<close>, each index loop with the reference function it computes, and no
    access out of range; \<open>Decode\<close>: \<open>internal/httputil/decode\<close>.
  \<^item> \<open>Handlers\<close>: the listing, the reception, the stream and the two middlewares of \<open>internal/handlers\<close> and
    \<open>internal/middlewares\<close>; the stream against a parser of its frames.
  \<^item> \<open>Service\<close>: \<open>main.go\<close>, settings, start, routes and the chain of middlewares;
    \<open>Streaming\<close>: what the stream shows of a post; \<open>Shutdown\<close>: its process from the signal to the exit, with the
    30 seconds of the time-out as ticks (\<open>shutdown_left\<close> counts the steps that are left) and the second signal that kills it.
  \<^item> \<open>EventTime\<close> and \<open>EventTypes\<close>: the package \<open>internal/types\<close>, its times with their JSON form, and its
    records with the JSON objects their tags describe.

  \<^bold>\<open>The event router.\<close>
  \<^item> \<open>Pool\<close>: \<open>job.go\<close> and \<open>worker.go\<close> of \<open>internal/helpers/queue\<close>, the accounting of jobs shared by both
    queues, and the contract \<open>queuer\<close>; \<open>ChanQueue\<close> and \<open>ListQueue\<close>: the two queues, each an instance
    of it; \<open>Queues\<close>: the queue of the package. A queue needs at most eight steps of its own for a job.
  \<^item> \<open>Fifo\<close>: the abstract queue, three events over a line of waiting jobs and the jobs that run, and the
    interface \<open>fifo_queue\<close> of what refines it; \<open>QueueOrder\<close>: both queues refine it step by step, so jobs start
    in the order in which they entered, and a single worker finishes them in that order.
  \<^item> \<open>Router\<close>: \<open>internal/objects\<close> and \<open>internal/router\<close>, resolving the composition of an event, reading the
    registrations, posting, and the handler; \<open>HttpClient\<close>: \<open>internal/helpers/http\<close>.
  \<^item> \<open>RouterMain\<close>: \<open>main.go\<close> and \<open>router.go\<close>, the settings, the parts made from them and a run over what
    the informer delivers; \<open>Delivery\<close>: that run, the queue \<open>main\<close> starts and the notifications together;
    \<open>Shutdown\<close>: the process and the jobs it leaves behind.
  \<^item> \<open>Isaac64\<close> and \<open>Uuid\<close>: \<open>internal/helpers/uuid\<close>, the generator over arrays with bounds checks, and the total rounds it
    is proved to compute; \<open>Env\<close>: \<open>internal/env\<close> of both servers.
  \<^item> \<open>Deepcopy\<close>: the types of \<open>apis/v1alpha1\<close> and their deep copies over a store of slices.

  \<^bold>\<open>Interfaces.\<close> The locale \<open>transition_system\<close> carries invariants to all reachable states (the
  watcher's threshold and exclusion, the processes of the sweeper and of the event server), and its
  extensions \<open>queuer\<close> what both queues promise and \<open>fifo_queue\<close> how they refine the abstract queue. \<open>codec\<close> and \<open>canonical_codec\<close> are round trips (the three
  forms of a UUID, the words of the generator, times as JSON). \<open>scanner\<close> is the contract of the functions
  that read one token of a header, \<open>event_store\<close> that of the store toward the handlers, and
  \<open>deep_copier\<close> that of a copying function. Each is interpreted on the definitions of the program.

  \<^bold>\<open>Not modelled.\<close> The texts the documentation generator wrote (\<open>eventsse/docs\<close>), the registration of the
  types with the scheme of Kubernetes (one call of its builder), the page server under
  \<open>eventsse/testdata\<close>, the CORS and Swagger handlers (other packages), the defaults of the sweeper's
  flags (another repository), and the tracing of requests beyond what its transport does to the
  response. The constructors of the event stream and of the health check, which only fill a struct, are
  the arguments of their handlers, and \<open>Close\<close> of the store only forwards to the client.
\<close>

section \<open>Across the services\<close>

lemma Contains_after_slash:
  assumes "CHR ''/'' \<notin> set e"
  shows "strings_Contains (e @ CHR ''/'' # s) (CHR ''/'' # p)
      \<longleftrightarrow> strings_HasPrefix s p \<or> strings_Contains s (CHR ''/'' # p)"
  using assms by (induction e) auto

lemma Contains_no_slash: "CHR ''/'' \<notin> set e \<Longrightarrow> \<not> strings_Contains e (CHR ''/'' # p)"
  by (induction e) auto

lemma Contains_join:
  assumes "list_all (\<lambda>x. CHR ''/'' \<notin> set x) (e # es)" and "CHR ''/'' \<notin> set p"
  shows "strings_Contains (join_elems (e # es)) (CHR ''/'' # p) \<longleftrightarrow> (\<exists>x \<in> set es. prefix p x)"
  using assms(1)
proof (induction es arbitrary: e)
  case (Cons f fs)
  have "strings_HasPrefix (join_elems (f # fs)) p \<longleftrightarrow> prefix p f"
  proof (cases fs)
    case (Cons g gs)
    have "prefix p (f @ CHR ''/'' # s) \<longleftrightarrow> prefix p f" for s
      using assms(2) by (auto simp: prefix_append prefix_Cons)
    then show ?thesis by (simp add: Cons HasPrefix_iff)
  qed (simp add: HasPrefix_iff)
  then show ?case using Cons by (simp add: Contains_after_slash)
qed (simp add: Contains_no_slash)


lemma is_comp_key:
  assumes "ids_ok e c"
  shows "is_comp '''' (PrepareKey ulow e c) \<longleftrightarrow> c \<noteq> [] \<or> prefix ''comp-'' (map ascii_lower e)"
    and "is_comp ''krateo.io.events/'' (PrepareKey ulow e c) \<longleftrightarrow> c \<noteq> [] \<and> prefix ''comp-'' (map ascii_lower e)"
proof -
  note no_slash = key_elems_no_slash [OF assms]
  show "is_comp '''' (PrepareKey ulow e c) \<longleftrightarrow> c \<noteq> [] \<or> prefix ''comp-'' (map ascii_lower e)"
    using Contains_join [OF no_slash, of "''comp-''"]
    by (auto simp: is_comp_def PrepareKey_elems [OF assms] key_elems_def)
  show "is_comp ''krateo.io.events/'' (PrepareKey ulow e c) \<longleftrightarrow> c \<noteq> [] \<and> prefix ''comp-'' (map ascii_lower e)"
  proof (cases "key_elems e c")
    case Nil
    then have "PrepareKey ulow e c = ''krateo.io.events''" and "c = []"
      by (auto simp: PrepareKey_elems [OF assms] RootKey_def key_elems_def split: if_splits)
    then show ?thesis by (simp add: is_comp_def strings_TrimPrefix_def)
  next
    case (Cons f fs)
    then have "PrepareKey ulow e c = ''krateo.io.events/'' @ join_elems (f # fs)"
      by (simp add: PrepareKey_elems [OF assms] RootKey_def)
    then have "is_comp ''krateo.io.events/'' (PrepareKey ulow e c) \<longleftrightarrow> (\<exists>x \<in> set fs. prefix ''comp-'' x)"
      using Contains_join [of f fs "''comp-''"] no_slash Cons
      by (simp only: is_comp_def TrimPrefix_append) simp
    then show ?thesis using Cons by (auto simp: key_elems_def split: if_splits)
  qed
qed


text \<open>
  C8. The order in which the sweeper deletes what the server stored, on a cluster that answers. As \<open>main\<close>
  configures it, a cleanup that removed the event of a composition has removed every key without
  \<open>/comp-\<close>, whatever their ages: the events of compositions go last. With the prefix the README names,
  \<open>krateo.io.events/\<close>, a cleanup that removed any younger key under it, of a composition or not, has removed
  the event of the composition: the slash before \<open>comp-\<close> is trimmed with the prefix, and these events
  are in the list that is deleted first. (Event ids that begin with \<open>comp-\<close> are left aside.)
\<close>

theorem sweep_order_of_stored_events:
  assumes cluster: "sort_slice_ok srt" "etcd_reads cli view" "etcd_deletes cli view" "etcd_maintains cli view"
      "etcd_answers cli" "et_Endpoints cli \<noteq> []" "key_space (view w)"
    and ids: "ids_ok e c" "c \<noteq> []" "\<not> prefix ''comp-'' (map ascii_lower e)"
    and x: "x \<in> set (view w)" "kv_Key x = PrepareKey ulow e c" and y: "y \<in> set (view w)"
    and main: "RunCleanup oor srt cli (NewCleanupManager main_cleanup_options) status w = Some w1"
    and readme: "RunCleanup oor srt cli (NewCleanupManager (main_cleanup_options\<lparr>opt_Prefix := ''krateo.io.events/''\<rparr>)) status w = Some w2"
  shows "(x \<notin> set (view w1) \<and> \<not> strings_Contains (kv_Key y) ''/comp-'' \<longrightarrow> y \<notin> set (view w1))
       \<and> (y \<notin> set (view w2) \<and> kv_CreateRevision x < kv_CreateRevision y \<longrightarrow> x \<notin> set (view w2))"
proof -
  have "key_elems e c \<noteq> []" using ids(2) by (simp add: key_elems_def)
  then obtain f fs where "key_elems e c = f # fs" by (meson neq_Nil_conv)
  then have "kv_Key x = ''krateo.io.events/'' @ join_elems (f # fs)"
    using x(2) by (simp add: PrepareKey_elems [OF ids(1)] RootKey_def)
  then have under: "strings_HasPrefix (kv_Key x) ''krateo.io.events/''" by (simp only: HasPrefix_append)
  have key: "is_comp '''' (kv_Key x)" "\<not> is_comp ''krateo.io.events/'' (kv_Key x)"
    using is_comp_key [OF ids(1), of ulow] ids(2,3) x(2) by auto
  have opts: "opt_Prefix main_cleanup_options = ''''"
    "opt_Prefix (main_cleanup_options\<lparr>opt_Prefix := ''krateo.io.events/''\<rparr>) = ''krateo.io.events/''"
    by (simp_all add: main_cleanup_options_def)
  obtain ns cs n where m: "\<And>z. z \<in> set (view w) \<Longrightarrow> kv_info z \<in> set ns \<longleftrightarrow>
       strings_HasPrefix (kv_Key z) '''' \<and> \<not> is_comp '''' (kv_Key z)"
    "\<And>z. z \<in> set (view w) \<Longrightarrow> z \<notin> set (view w1) \<longleftrightarrow> kv_info z \<in> set (take n (ns @ cs))"
    by (rule sweep_lists [OF cluster main, unfolded opts]) (rule that)
  obtain ns' cs' n' where r: "sorted (map ki_CreateRev ns')"
    "\<And>z. z \<in> set (view w) \<Longrightarrow> kv_info z \<in> set ns' \<longleftrightarrow>
       strings_HasPrefix (kv_Key z) ''krateo.io.events/'' \<and> \<not> is_comp ''krateo.io.events/'' (kv_Key z)"
    "\<And>z. z \<in> set (view w) \<Longrightarrow> z \<notin> set (view w2) \<longleftrightarrow> kv_info z \<in> set (take n' (ns' @ cs'))"
    by (rule sweep_lists [OF cluster readme, unfolded opts]) (rule that)
  have "y \<notin> set (view w1)" if "x \<notin> set (view w1)" "\<not> strings_Contains (kv_Key y) ''/comp-''"
    using gone_after_first_list [of "kv_info x" ns n cs "kv_info y"] m [OF x(1)] m [OF y] key(1) that
    by (simp add: is_comp_def del: take_append)
  moreover have "x \<notin> set (view w2)" if "y \<notin> set (view w2)" "kv_CreateRevision x < kv_CreateRevision y"
    using gone_after_older [OF r(1), of "kv_info x" "kv_info y" n' cs'] r(2,3) [OF x(1)] r(3) [OF y] under key(2) that
    by (simp del: take_append)
  ultimately show ?thesis by blast
qed

text \<open>
  At a concrete input: of the little key space, the event \<open>2\<close> of the composition \<open>b\<close> against the key
  \<open>leader\<close>, and against the younger event \<open>1\<close> of the composition \<open>a\<close>.
\<close>

theorem sweep_order_of_stored_events_witness:
  "\<exists>w1 w2. RunCleanup (\<lambda>_. 0) insertion_sort mem_etcd (NewCleanupManager main_cleanup_options) (Some wit_status) wit_kvs = Some w1
     \<and> RunCleanup (\<lambda>_. 0) insertion_sort mem_etcd (NewCleanupManager (main_cleanup_options\<lparr>opt_Prefix := ''krateo.io.events/''\<rparr>))
         (Some wit_status) wit_kvs = Some w2
     \<and> (wit_kvs ! 1 \<notin> set w1 \<longrightarrow> wit_kvs ! 2 \<notin> set w1) \<and> (wit_kvs ! 0 \<notin> set w2 \<longrightarrow> wit_kvs ! 1 \<notin> set w2)"
proof -
  have ids: "ids_ok ''2'' ''b''" by (simp add: ids_ok_def is_ascii_def plain_elem_def)
  have x: "wit_kvs ! 1 \<in> set wit_kvs" "kv_Key (wit_kvs ! 1) = PrepareKey id ''2'' ''b''"
    unfolding PrepareKey_elems [OF ids] by (simp_all add: wit_kvs_def key_elems_def RootKey_def ascii_lower_def)
  have y: "wit_kvs ! 2 \<in> set wit_kvs" "wit_kvs ! 0 \<in> set wit_kvs" by (simp_all add: wit_kvs_def numeral_eq_Suc)
  have ep: "et_Endpoints mem_etcd \<noteq> []" by (simp add: mem_etcd_def)
  have space: "key_space wit_kvs" by (simp add: key_space_def wit_kvs_def)
  have no: "\<not> prefix ''comp-'' (map ascii_lower ''2'')" by (simp add: ascii_lower_def)
  obtain w1 where a: "RunCleanup (\<lambda>_. 0) insertion_sort mem_etcd (NewCleanupManager main_cleanup_options) (Some wit_status) wit_kvs = Some w1"
    using RunCleanup_effect [OF insertion_sort_ok mem_etcd_ok(1,3,4,5) ep refl] by metis
  obtain w2 where b: "RunCleanup (\<lambda>_. 0) insertion_sort mem_etcd
      (NewCleanupManager (main_cleanup_options\<lparr>opt_Prefix := ''krateo.io.events/''\<rparr>)) (Some wit_status) wit_kvs = Some w2"
    using RunCleanup_effect [OF insertion_sort_ok mem_etcd_ok(1,3,4,5) ep refl] by metis
  note order = sweep_order_of_stored_events [OF insertion_sort_ok mem_etcd_ok(1,3,4,5) ep space ids _ no x _ a b]
  show ?thesis
    using a b order [OF _ y(1)] order [OF _ y(2)] by (simp add: wit_kvs_def numeral_eq_Suc)
qed


lemma Handle_job_event:
  assumes "on_error_ok onError" and "ResolveReference k (ev_InvolvedObject evt) v = (Inr ob, v1)"
    and "Handle onError k nested order evt v = (jobs, v')" and "job \<in> set jobs"
  shows "adv_evt job = evt\<lparr>ev_Labels := map_put keyCompositionID (object_composition k ob) (GetLabels evt)\<rparr>"
  using assms(3,4) findCompositionID_first [OF assms(1,2)]
  by (auto simp: Handle_def notifyAll_def Let_def split: sum.splits prod.splits)

text \<open>
  C4. From the cluster to the listing, through both services: the router resolves the object of an event, finds
  the composition on its labels and pushes a job for each registration. When the event of such a job
  reaches \<open>/handle\<close> of the event server and is answered 200, the next listing of
  that composition asked without a limit, unless the cluster fails, is answered 200 with the JSON of a
  list, newest first, that holds the event with its label.
\<close>

theorem routed_event_is_listed:
  assumes "on_error_ok onError" and "ResolveReference k (ev_InvolvedObject evt) v = (Inr (Some ob), v1)"
    and "Handle onError k nested order evt v = (jobs, v')" and "job \<in> set jobs"
    and comp: "map_index (k_Labels k ob) keyCompositionID = c" "c \<noteq> []" "ids_ok (ev_UID evt) c"
    and etcd: "etcd_contract cli view" and json: "json_ok enc dec (adv_evt job)" and srt: "sort_slice_ok (cd_sort cd)"
    and encl: "\<And>evs. cd_list cd evs = Inr (render evs)"
    and st: "sv_store sv = client_store ulow enc dec cli cl"
    and post: "rq_Method reqP = ''POST''" "wi_first wi = Inr (adv_evt job)"
      "sse_mux cd sv wi swagger [''handle''] reqP new_response w = Some (rwP, w1)" "rw_Status rwP = Some 200"
    and list: "rq_Method reqG = ''GET''" "rq_Query reqG ''limit'' = ''0''"
      "sse_mux cd sv wi' swagger [''events'', c] reqG new_response w1 = Some (rwG, w2)"
      "rw_Status rwG \<noteq> Some 500"
  shows "\<exists>evs. rw_Status rwG = Some 200 \<and> rw_Body rwG = render evs @ newline
      \<and> evt\<lparr>ev_Labels := map_put keyCompositionID c (ev_Labels evt)\<rparr> \<in> set evs
      \<and> sorted (rev (map ev_LastTimestamp evs))"
proof -
  have ev: "adv_evt job = evt\<lparr>ev_Labels := map_put keyCompositionID c (ev_Labels evt)\<rparr>"
    using Handle_job_event [OF assms(1-4)] comp(1) by (simp add: object_composition_def GetLabels_def)
  then have c: "CompositionID (adv_evt job) = c" and uid: "ev_UID (adv_evt job) = ev_UID evt"
    by (simp_all add: CompositionID_index)
  show ?thesis
    unfolding ev [symmetric]
    by (rule posted_is_listed [where reqP = reqP and reqG = reqG, OF etcd json srt encl st _ _ post list(1,2) _ list(4)])
      (use comp(2,3) c uid list(3) in simp_all)
qed


text \<open>At a concrete input: the event \<open>7\<close>, whose object carries the label \<open>c\<close>.\<close>

theorem routed_event_is_listed_witness:
  "\<exists>job rwP rwG w2 evs.
     fst (Handle (retry_times 4) wit_labelled wit_nested rev (wit_event ''7'') 0) = [job]
     \<and> sse_mux wit_codecs wit_comp_service (wit_wire (adv_evt job)) (\<lambda>path req rw w. None) [''handle''] wit_post
         new_response [] = Some (rwP, wit_stored)
     \<and> sse_mux wit_codecs wit_comp_service (wit_wire (adv_evt job)) (\<lambda>path req rw w. None) [''events'', ''c'']
         (wit_request [] ''0'') new_response wit_stored = Some (rwG, w2)
     \<and> rw_Status rwG = Some 200 \<and> rw_Body rwG = concat (map ev_UID evs) @ newline \<and> wit_comp ''7'' \<in> set evs"
proof -
  have r: "ResolveReference wit_labelled (ev_InvolvedObject (wit_event ''7'')) 0 = (Inr (Some ''''), 0)"
    by (simp add: ResolveReference_def getResourceInterfaceForGVR_def wit_labelled_def wit_cluster_def wit_event_def)
  have l: "map_index (k_Labels wit_labelled '''') keyCompositionID = ''c''"
    by (simp add: wit_labelled_def map_index_def)
  have all: "getAllRegistrations wit_labelled wit_nested 0
     = (Inr [(''one'', \<lparr>reg_ServiceName = ''http://one'', reg_Endpoint = ''http://one''\<rparr>)], 0)"
    by (simp add: resolver_List_def getResourceInterfaceForGVR_def wit_labelled_def wit_cluster_def
      getAllRegistrations_def wit_nested_def registration_gvk_def isNoKindMatchError_def)
  obtain job where h: "Handle (retry_times 4) wit_labelled wit_nested rev (wit_event ''7'') 0 = ([job], 0)"
    using findCompositionID_first [OF retry_times_ok r] all by (simp add: Handle_def notifyAll_def)
  have job: "job \<in> set [job]" by simp
  have put: "(wit_event ''7'')\<lparr>ev_Labels := map_put keyCompositionID ''c'' (ev_Labels (wit_event ''7''))\<rparr> = wit_comp ''7''"
    by (simp add: wit_comp_def wit_event_def map_put_def)
  have ev: "adv_evt job = wit_comp ''7''"
    using Handle_job_event [OF retry_times_ok r h job] put l by (simp add: object_composition_def GetLabels_def)
  obtain rwP where post: "sse_mux wit_codecs wit_comp_service (wit_wire (adv_evt job)) (\<lambda>path req rw w. None) [''handle''] wit_post
      new_response [] = Some (rwP, wit_stored)" and okP: "rw_Status rwP = Some 200"
    using wit_comp_post unfolding ev by blast
  obtain rwG w2 where list: "sse_mux wit_codecs wit_comp_service (wit_wire (adv_evt job)) (\<lambda>path req rw w. None) [''events'', ''c'']
      (wit_request [] ''0'') new_response wit_stored = Some (rwG, w2)" and okG: "rw_Status rwG \<noteq> Some 500"
    using wit_comp_list by blast
  have ids: "ids_ok (ev_UID (wit_event ''7'')) ''c''" using wit_comp_ids(1) by (simp add: wit_event_def)
  have "\<exists>evs. rw_Status rwG = Some 200 \<and> rw_Body rwG = concat (map ev_UID evs) @ newline
      \<and> (wit_event ''7'')\<lparr>ev_Labels := map_put keyCompositionID ''c'' (ev_Labels (wit_event ''7''))\<rparr> \<in> set evs
      \<and> sorted (rev (map ev_LastTimestamp evs))"
    by (rule routed_event_is_listed [OF retry_times_ok r h job l _ ids tidy_contract _ _ _ _ _ _ post okP _ _ list okG])
      (simp_all add: ev wit_comp_json wit_codecs_def wit_comp_service_def insertion_sort_ok wit_post_def wit_wire_def
        wit_request_def)
  with h post list show ?thesis unfolding put by auto
qed

end
